(* ===== verification/Prelude.thy ===== *)
theory Prelude
  imports Main "HOL-Library.Word" "HOL-Library.Monad_Syntax"
begin

text \<open>
  The prelude of the development: the three-valued logic of \<^verbatim>\<open>support/kconfig/expr.h\<close>
  (\<^verbatim>\<open>enum tristate\<close> with the macros EXPR_AND, EXPR_OR and EXPR_NOT), an instance of
  \<^verbatim>\<open>linorder\<close> for it so that the library's \<open>min\<close> and \<open>max\<close> apply, the
  named collections of hints, and generic lemmas on options and lists.
\<close>

section \<open>Collections of hints\<close>

named_theorems tri_simps \<open>the connectives as lattice operations, case analyses of tristate values\<close>
named_theorems frame_simps \<open>fields that an operation leaves alone\<close>
named_theorems expr_val_simps \<open>the value of an expression node by node\<close>

section \<open>Tristate values\<close>

text \<open>\<^verbatim>\<open>typedef enum tristate { no, mod, yes } tristate\<close>; the order of the enum is the
  order of its integer values 0, 1, 2, on which the code compares.\<close>

datatype tristate = tri_no | tri_mod | tri_yes

fun tri_num :: "tristate \<Rightarrow> nat" where
  "tri_num tri_no = 0"
| "tri_num tri_mod = 1"
| "tri_num tri_yes = 2"

lemma tri_num_inject: "tri_num a = tri_num b \<longleftrightarrow> a = b"
  by (cases a; cases b) auto

instantiation tristate :: linorder
begin

definition less_eq_tristate :: "tristate \<Rightarrow> tristate \<Rightarrow> bool" where
  "less_eq_tristate a b \<longleftrightarrow> tri_num a \<le> tri_num b"

definition less_tristate :: "tristate \<Rightarrow> tristate \<Rightarrow> bool" where
  "less_tristate a b \<longleftrightarrow> tri_num a < tri_num b"

instance
  by standard (auto simp: less_eq_tristate_def less_tristate_def tri_num_inject)

end

instantiation tristate :: bounded_lattice
begin

definition "bot = tri_no"
definition "top = tri_yes"
definition inf_tristate :: "tristate \<Rightarrow> tristate \<Rightarrow> tristate" where "inf_tristate = min"
definition sup_tristate :: "tristate \<Rightarrow> tristate \<Rightarrow> tristate" where "sup_tristate = max"

instance
proof
  fix a :: tristate
  show "bot \<le> a" and "a \<le> top"
    by (cases a; simp add: bot_tristate_def top_tristate_def less_eq_tristate_def)+
qed (auto simp: inf_tristate_def sup_tristate_def)

end

definition EXPR_AND :: "tristate \<Rightarrow> tristate \<Rightarrow> tristate" where
  "EXPR_AND dep1 dep2 = (if dep1 < dep2 then dep1 else dep2)"

definition EXPR_OR :: "tristate \<Rightarrow> tristate \<Rightarrow> tristate" where
  "EXPR_OR dep1 dep2 = (if dep1 > dep2 then dep1 else dep2)"

text \<open>\<^verbatim>\<open>#define EXPR_NOT(dep) (2-(dep))\<close>.\<close>

fun EXPR_NOT :: "tristate \<Rightarrow> tristate" where
  "EXPR_NOT tri_no = tri_yes"
| "EXPR_NOT tri_mod = tri_mod"
| "EXPR_NOT tri_yes = tri_no"

lemma EXPR_NOT_num: "tri_num (EXPR_NOT a) = 2 - tri_num a"
  by (cases a) auto

lemma EXPR_AND_min [tri_simps]: "EXPR_AND a b = min a b"
  by (auto simp: EXPR_AND_def min_def)

lemma EXPR_OR_max [tri_simps]: "EXPR_OR a b = max a b"
  by (auto simp: EXPR_OR_def max_def)

lemma tri_le_simps [simp]:
  "tri_no \<le> a" "a \<le> tri_yes"
  "a \<le> tri_no \<longleftrightarrow> a = tri_no" "tri_yes \<le> a \<longleftrightarrow> a = tri_yes"
  "tri_mod \<le> tri_mod" "\<not> tri_yes \<le> tri_mod" "tri_mod \<le> a \<longleftrightarrow> a \<noteq> tri_no"
  by (cases a; simp add: less_eq_tristate_def)+

lemma tri_less_simps [simp]:
  "\<not> a < tri_no" "\<not> tri_yes < a"
  "tri_no < a \<longleftrightarrow> a \<noteq> tri_no" "a < tri_yes \<longleftrightarrow> a \<noteq> tri_yes"
  "\<not> tri_mod < tri_mod" "a < tri_mod \<longleftrightarrow> a = tri_no" "tri_mod < a \<longleftrightarrow> a = tri_yes"
  by (cases a; simp add: less_tristate_def)+

lemma tri_min_simps [simp]:
  "min tri_no a = tri_no" "min a tri_no = tri_no" "min tri_yes a = a" "min a tri_yes = a"
  for a :: tristate
  by (cases a; simp add: min_def)+

lemma tri_max_simps [simp]:
  "max tri_no a = a" "max a tri_no = a" "max tri_yes a = tri_yes" "max a tri_yes = tri_yes"
  for a :: tristate
  by (cases a; simp add: max_def)+

lemma tri_bot_top [simp]: "(bot :: tristate) = tri_no" "(top :: tristate) = tri_yes"
  by (simp_all add: bot_tristate_def top_tristate_def)

lemma EXPR_NOT_min: "EXPR_NOT (min a b) = max (EXPR_NOT a) (EXPR_NOT b)"
  by (cases a; cases b; simp add: min_def max_def)

lemma EXPR_NOT_max: "EXPR_NOT (max a b) = min (EXPR_NOT a) (EXPR_NOT b)"
  by (cases a; cases b; simp add: min_def max_def)

lemma EXPR_NOT_involution [simp]: "EXPR_NOT (EXPR_NOT a) = a"
  by (cases a) auto

lemma EXPR_NOT_antimono: "a \<le> b \<Longrightarrow> EXPR_NOT b \<le> EXPR_NOT a"
  by (cases a; cases b; simp)

lemma tri_not_mod: "a \<noteq> tri_mod \<longleftrightarrow> a = tri_no \<or> a = tri_yes"
  by (cases a) auto

text \<open>The name the code prints for a value: the strings of \<^verbatim>\<open>symbol_no\<close>,
  \<^verbatim>\<open>symbol_mod\<close> and \<^verbatim>\<open>symbol_yes\<close>.\<close>

fun tri_string :: "tristate \<Rightarrow> string" where
  "tri_string tri_no = ''n''"
| "tri_string tri_mod = ''m''"
| "tri_string tri_yes = ''y''"

lemma tri_string_inject [simp]: "tri_string a = tri_string b \<longleftrightarrow> a = b"
  by (cases a; cases b) auto

section \<open>Options and lists\<close>

lemma bind_eq_SomeE:
  assumes "x \<bind> f = Some y"
  obtains a where "x = Some a" "f a = Some y"
  using assms by (cases x) auto

lemma takeWhile_append_stop:
  "\<forall>x \<in> set xs. P x \<Longrightarrow> \<not> P y \<Longrightarrow> takeWhile P (xs @ y # ys) = xs"
  by (induction xs) auto

lemma dropWhile_append_stop:
  "\<forall>x \<in> set xs. P x \<Longrightarrow> \<not> P y \<Longrightarrow> dropWhile P (xs @ y # ys) = y # ys"
  by (induction xs) auto

lemma takeWhile_all: "\<forall>x \<in> set xs. P x \<Longrightarrow> takeWhile P xs = xs"
  by (induction xs) auto

lemma dropWhile_all: "\<forall>x \<in> set xs. P x \<Longrightarrow> dropWhile P xs = []"
  by (induction xs) auto

section \<open>Partial and total correctness of fallible computations\<close>

text \<open>\<open>post m Q\<close>: if \<open>m\<close> has a result, the result satisfies \<open>Q\<close>. \<open>returns m Q\<close>: \<open>m\<close> has
  a result and it satisfies \<open>Q\<close>. Both distribute over the bind of the option monad, so the
  proofs about a definition follow its text; a rule about a call has the form
  \<open>pre \<Longrightarrow> (\<And>x. fact x \<Longrightarrow> Q x) \<Longrightarrow> post call Q\<close>.\<close>

definition post :: "'a option \<Rightarrow> ('a \<Rightarrow> bool) \<Rightarrow> bool" where
  "post m Q \<longleftrightarrow> (\<forall>x. m = Some x \<longrightarrow> Q x)"

definition returns :: "'a option \<Rightarrow> ('a \<Rightarrow> bool) \<Rightarrow> bool" where
  "returns m Q \<longleftrightarrow> (\<exists>x. m = Some x \<and> Q x)"

named_theorems post_simps \<open>correctness of the constructs of a definition\<close>
named_theorems call_rules \<open>correctness of calls\<close>

lemma post_base [post_simps]:
  "post (Some x) Q \<longleftrightarrow> Q x" "post None Q"
  "post (m \<bind> f) Q \<longleftrightarrow> post m (\<lambda>x. post (f x) Q)"
  "post (map_option g m) Q \<longleftrightarrow> post m (\<lambda>x. Q (g x))"
  by (cases m; auto simp: post_def)+

lemma returns_base [post_simps]:
  "returns (Some x) Q \<longleftrightarrow> Q x" "\<not> returns None Q"
  "returns (m \<bind> f) Q \<longleftrightarrow> returns m (\<lambda>x. returns (f x) Q)"
  "returns (map_option g m) Q \<longleftrightarrow> returns m (\<lambda>x. Q (g x))"
  by (cases m; auto simp: returns_def)+

lemma postI: "(\<And>x. m = Some x \<Longrightarrow> Q x) \<Longrightarrow> post m Q"
  by (simp add: post_def)

lemma postD: "post m Q \<Longrightarrow> m = Some x \<Longrightarrow> Q x"
  by (simp add: post_def)

lemma post_mono: "post m P \<Longrightarrow> (\<And>x. P x \<Longrightarrow> Q x) \<Longrightarrow> post m Q"
  by (simp add: post_def)

lemma returns_mono: "returns m P \<Longrightarrow> (\<And>x. P x \<Longrightarrow> Q x) \<Longrightarrow> returns m Q"
  by (auto simp: returns_def)

lemma returns_post: "returns m P \<Longrightarrow> post m Q \<Longrightarrow> returns m (\<lambda>x. P x \<and> Q x)"
  by (auto simp: returns_def post_def)

lemma returns_SomeD: "returns m Q \<Longrightarrow> \<exists>x. m = Some x"
  by (auto simp: returns_def)

end
