(* ===== verification/Kdata.thy ===== *)
theory Kdata
  imports Prelude
begin

unbundle bit_operations_syntax

text \<open>
  The data model of kconfig, from \<^verbatim>\<open>support/kconfig/expr.h\<close>: expressions, symbols,
  properties and menus. A \<^verbatim>\<open>struct symbol *\<close> is a value of type \<open>sym\<close>: the four
  static symbols of \<^verbatim>\<open>symbol.c\<close> by name, every allocated one by a number. A
  \<^verbatim>\<open>struct property *\<close> and a \<^verbatim>\<open>struct menu *\<close> are numbers too; NULL is
  \<open>None\<close>. Expression trees are values: the code never shares a node between two trees
  that it goes on to rewrite, so the trees need no addresses.
\<close>

section \<open>Symbols by reference\<close>

datatype sym = symbol_yes | symbol_mod | symbol_no | symbol_empty | Sym nat

type_synonym pid = nat
type_synonym mid = nat

section \<open>Expressions\<close>

datatype expr_type =
  E_NONE | E_OR | E_AND | E_NOT | E_EQUAL | E_UNEQUAL | E_LIST | E_SYMBOL | E_RANGE

text \<open>\<^verbatim>\<open>struct expr\<close>: the tag with the members of the two unions that it selects.
  An \<^verbatim>\<open>E_LIST\<close> node has the rest of the list on the left and a symbol on the right.\<close>

datatype expr =
    e_none
  | e_or expr expr
  | e_and expr expr
  | e_not expr
  | e_equal sym sym
  | e_unequal sym sym
  | e_list "expr option" sym
  | e_symbol sym
  | e_range sym sym

fun etype :: "expr \<Rightarrow> expr_type" where
  "etype e_none = E_NONE"
| "etype (e_or l r) = E_OR"
| "etype (e_and l r) = E_AND"
| "etype (e_not e) = E_NOT"
| "etype (e_equal l r) = E_EQUAL"
| "etype (e_unequal l r) = E_UNEQUAL"
| "etype (e_list l s) = E_LIST"
| "etype (e_symbol s) = E_SYMBOL"
| "etype (e_range l r) = E_RANGE"

text \<open>\<^verbatim>\<open>expr_list_for_each_sym\<close>: the symbols of a list node, in the order of the
  loop (this node's symbol first, then the left link).\<close>

fun expr_list_syms :: "expr \<Rightarrow> sym list" where
  "expr_list_syms (e_list None s) = [s]"
| "expr_list_syms (e_list (Some l) s) = s # expr_list_syms l"
| "expr_list_syms _ = []"

definition expr_list_for_each_sym :: "expr option \<Rightarrow> sym list" where
  "expr_list_for_each_sym l = (case l of None \<Rightarrow> [] | Some e \<Rightarrow> expr_list_syms e)"

section \<open>Symbols, properties, menus\<close>

record expr_value =
  ev_expr :: "expr option"
  ev_tri :: tristate

text \<open>\<^verbatim>\<open>void *val\<close>: nothing, a string, or (for a choice) one of its symbols.\<close>

datatype cval = VNull | VStr string | VSym sym

record symbol_value =
  sv_val :: cval
  sv_tri :: tristate

datatype symbol_type =
  S_UNKNOWN | S_BOOLEAN | S_TRISTATE | S_INT | S_HEX | S_STRING | S_OTHER

datatype def_index = S_DEF_USER | S_DEF_AUTO | S_DEF_DEF3 | S_DEF_DEF4

datatype symbol_flag =
    SYMBOL_CONST | SYMBOL_CHECK | SYMBOL_CHOICE | SYMBOL_CHOICEVAL | SYMBOL_VALID
  | SYMBOL_OPTIONAL | SYMBOL_WRITE | SYMBOL_CHANGED | SYMBOL_AUTO | SYMBOL_CHECKED
  | SYMBOL_WARNED | SYMBOL_DEF_USER | SYMBOL_DEF_AUTO | SYMBOL_DEF3 | SYMBOL_DEF4
  | SYMBOL_NEED_SET_CHOICE_VALUES

datatype prop_type =
    P_UNKNOWN | P_PROMPT | P_COMMENT | P_MENU | P_DEFAULT | P_CHOICE | P_SELECT | P_RANGE
  | P_ENV | P_SYMBOL

record symbol =
  s_name :: "string option"
  s_type :: symbol_type
  s_curr :: symbol_value
  s_def :: "def_index \<Rightarrow> symbol_value"
  s_visible :: tristate
  s_flags :: "symbol_flag set"
  s_prop :: "pid list"
  s_dir_dep :: expr_value
  s_rev_dep :: expr_value

record property =
  p_sym :: "sym option"
  p_type :: prop_type
  p_text :: "string option"
  p_visible :: expr_value
  p_expr :: "expr option"
  p_menu :: "mid option"
  p_file :: "string option"
  p_lineno :: int

record menu =
  m_next :: "mid option"
  m_parent :: "mid option"
  m_list :: "mid option"
  m_sym :: "sym option"
  m_prompt :: "pid option"
  m_visibility :: "expr option"
  m_dep :: "expr option"
  m_changed :: bool
  m_help :: "string option"
  m_file :: "string option"
  m_lineno :: int

section \<open>Flag words and flag sets\<close>

text \<open>
  The code keeps the flags of a symbol in an \<^verbatim>\<open>int\<close> and tests, sets and clears them
  with masks. The model keeps the set of flags; the lemmas below relate the two: each C
  operation on the word is the set operation the model uses.
\<close>

fun flag_mask :: "symbol_flag \<Rightarrow> 32 word" where
  "flag_mask SYMBOL_CONST = 0x0001"
| "flag_mask SYMBOL_CHECK = 0x0008"
| "flag_mask SYMBOL_CHOICE = 0x0010"
| "flag_mask SYMBOL_CHOICEVAL = 0x0020"
| "flag_mask SYMBOL_VALID = 0x0080"
| "flag_mask SYMBOL_OPTIONAL = 0x0100"
| "flag_mask SYMBOL_WRITE = 0x0200"
| "flag_mask SYMBOL_CHANGED = 0x0400"
| "flag_mask SYMBOL_AUTO = 0x1000"
| "flag_mask SYMBOL_CHECKED = 0x2000"
| "flag_mask SYMBOL_WARNED = 0x8000"
| "flag_mask SYMBOL_DEF_USER = 0x10000"
| "flag_mask SYMBOL_DEF_AUTO = 0x20000"
| "flag_mask SYMBOL_DEF3 = 0x40000"
| "flag_mask SYMBOL_DEF4 = 0x80000"
| "flag_mask SYMBOL_NEED_SET_CHOICE_VALUES = 0x100000"

definition flags_of :: "32 word \<Rightarrow> symbol_flag set" where
  "flags_of w = {f. w AND flag_mask f \<noteq> 0}"

fun flag_bit :: "symbol_flag \<Rightarrow> nat" where
  "flag_bit SYMBOL_CONST = 0"
| "flag_bit SYMBOL_CHECK = 3"
| "flag_bit SYMBOL_CHOICE = 4"
| "flag_bit SYMBOL_CHOICEVAL = 5"
| "flag_bit SYMBOL_VALID = 7"
| "flag_bit SYMBOL_OPTIONAL = 8"
| "flag_bit SYMBOL_WRITE = 9"
| "flag_bit SYMBOL_CHANGED = 10"
| "flag_bit SYMBOL_AUTO = 12"
| "flag_bit SYMBOL_CHECKED = 13"
| "flag_bit SYMBOL_WARNED = 15"
| "flag_bit SYMBOL_DEF_USER = 16"
| "flag_bit SYMBOL_DEF_AUTO = 17"
| "flag_bit SYMBOL_DEF3 = 18"
| "flag_bit SYMBOL_DEF4 = 19"
| "flag_bit SYMBOL_NEED_SET_CHOICE_VALUES = 20"

lemma flag_mask_push: "flag_mask f = push_bit (flag_bit f) 1"
  by (cases f) simp_all

lemma flag_bit_inject: "flag_bit f = flag_bit g \<longleftrightarrow> f = g"
  by (cases f; cases g) simp_all

lemma flag_bit_less: "flag_bit f < 32"
  by (cases f) simp_all

lemma bit_flag_mask: "bit (flag_mask f) n \<longleftrightarrow> n = flag_bit f"
  using flag_bit_less [of f] by (auto simp: flag_mask_push bit_simps)

lemma in_flags_of: "f \<in> flags_of w \<longleftrightarrow> bit w (flag_bit f)"
proof -
  have "w AND flag_mask f \<noteq> 0 \<longleftrightarrow> (\<exists>n. bit w n \<and> n = flag_bit f)"
    using flag_bit_less [of f]
    by (auto simp: bit_eq_iff [of "w AND flag_mask f" 0] bit_and_iff bit_flag_mask)
  then show ?thesis by (simp add: flags_of_def)
qed

text \<open>The flag operations of the code, on the word, are the set operations of the model:
  \<open>flags |= F\<close> inserts, \<open>flags &= ~F\<close> removes, and \<open>flags & F\<close> tests.\<close>

lemma flag_word_ops:
  "flags_of (w OR flag_mask f) = insert f (flags_of w)"
  "flags_of (w AND NOT (flag_mask f)) = flags_of w - {f}"
  "w AND flag_mask f \<noteq> 0 \<longleftrightarrow> f \<in> flags_of w"
proof -
  show "flags_of (w OR flag_mask f) = insert f (flags_of w)"
    by (auto simp: in_flags_of bit_or_iff bit_flag_mask flag_bit_inject)
  show "flags_of (w AND NOT (flag_mask f)) = flags_of w - {f}"
    using flag_bit_less
    by (auto simp: in_flags_of bit_and_iff bit_not_iff bit_flag_mask flag_bit_inject)
  show "w AND flag_mask f \<noteq> 0 \<longleftrightarrow> f \<in> flags_of w"
    by (simp add: flags_of_def)
qed

section \<open>Predicates of \<^verbatim>\<open>lkc.h\<close>\<close>

definition sym_is_choice :: "symbol \<Rightarrow> bool" where
  "sym_is_choice s \<longleftrightarrow> SYMBOL_CHOICE \<in> s_flags s"

definition sym_is_choice_value :: "symbol \<Rightarrow> bool" where
  "sym_is_choice_value s \<longleftrightarrow> SYMBOL_CHOICEVAL \<in> s_flags s"

definition sym_is_optional :: "symbol \<Rightarrow> bool" where
  "sym_is_optional s \<longleftrightarrow> SYMBOL_OPTIONAL \<in> s_flags s"

definition sym_has_value :: "symbol \<Rightarrow> bool" where
  "sym_has_value s \<longleftrightarrow> SYMBOL_DEF_USER \<in> s_flags s"

definition sym_get_tristate_value :: "symbol \<Rightarrow> tristate" where
  "sym_get_tristate_value s = sv_tri (s_curr s)"

lemmas sym_pred_defs = sym_is_choice_def sym_is_choice_value_def sym_is_optional_def
  sym_has_value_def sym_get_tristate_value_def

section \<open>The static symbols of \<^verbatim>\<open>symbol.c\<close>\<close>

text \<open>A symbol as \<^verbatim>\<open>sym_lookup\<close> allocates it: zeroed but for its name and flags.\<close>

definition null_value :: symbol_value where
  "null_value = \<lparr>sv_val = VNull, sv_tri = tri_no\<rparr>"

definition null_expr_value :: expr_value where
  "null_expr_value = \<lparr>ev_expr = None, ev_tri = tri_no\<rparr>"

definition fresh_symbol :: "string option \<Rightarrow> symbol_flag set \<Rightarrow> symbol" where
  "fresh_symbol n fl = \<lparr>s_name = n, s_type = S_UNKNOWN, s_curr = null_value,
     s_def = (\<lambda>_. null_value), s_visible = tri_no, s_flags = fl, s_prop = [],
     s_dir_dep = null_expr_value, s_rev_dep = null_expr_value\<rparr>"

definition static_symbol :: "string \<Rightarrow> tristate \<Rightarrow> symbol_flag set \<Rightarrow> symbol" where
  "static_symbol n t fl = (fresh_symbol (Some n) fl) \<lparr>s_curr := \<lparr>sv_val = VStr n, sv_tri = t\<rparr>\<rparr>"

fun static_symbols :: "sym \<Rightarrow> symbol" where
  "static_symbols symbol_yes = static_symbol ''y'' tri_yes {SYMBOL_CONST, SYMBOL_VALID}"
| "static_symbols symbol_mod = static_symbol ''m'' tri_mod {SYMBOL_CONST, SYMBOL_VALID}"
| "static_symbols symbol_no = static_symbol ''n'' tri_no {SYMBOL_CONST, SYMBOL_VALID}"
| "static_symbols symbol_empty = static_symbol [] tri_no {SYMBOL_VALID}"
| "static_symbols (Sym i) = fresh_symbol None {}"

lemmas static_symbol_simps = static_symbol_def fresh_symbol_def null_value_def null_expr_value_def

end
