(* ===== verification/Expr.thy ===== *)
theory Expr
  imports Kdata
begin

text \<open>
  Dependency expressions, the first half of \<^verbatim>\<open>support/kconfig/expr.c\<close>: allocation,
  the value of an expression, the removal of the constants y and n, and the equality test
  with the pairwise elimination it is built on. The C code copies a tree before it rewrites
  it and frees it after; here trees are values, so a copy is the tree itself.
\<close>

section \<open>Allocation\<close>

fun expr_alloc_symbol :: "sym \<Rightarrow> expr" where
  "expr_alloc_symbol s = e_symbol s"

fun expr_alloc_two :: "expr_type \<Rightarrow> expr \<Rightarrow> expr \<Rightarrow> expr" where
  "expr_alloc_two E_OR e1 e2 = e_or e1 e2"
| "expr_alloc_two E_AND e1 e2 = e_and e1 e2"
| "expr_alloc_two _ e1 e2 = e_none"

fun expr_alloc_comp :: "expr_type \<Rightarrow> sym \<Rightarrow> sym \<Rightarrow> expr" where
  "expr_alloc_comp E_EQUAL s1 s2 = e_equal s1 s2"
| "expr_alloc_comp E_UNEQUAL s1 s2 = e_unequal s1 s2"
| "expr_alloc_comp E_RANGE s1 s2 = e_range s1 s2"
| "expr_alloc_comp _ s1 s2 = e_none"

fun expr_alloc_and :: "expr option \<Rightarrow> expr option \<Rightarrow> expr option" where
  "expr_alloc_and None e2 = e2"
| "expr_alloc_and (Some e1) None = Some e1"
| "expr_alloc_and (Some e1) (Some e2) = Some (e_and e1 e2)"

fun expr_alloc_or :: "expr option \<Rightarrow> expr option \<Rightarrow> expr option" where
  "expr_alloc_or None e2 = e2"
| "expr_alloc_or (Some e1) None = Some e1"
| "expr_alloc_or (Some e1) (Some e2) = Some (e_or e1 e2)"

fun expr_is_yes :: "expr option \<Rightarrow> bool" where
  "expr_is_yes None = True"
| "expr_is_yes (Some e) = (e = e_symbol symbol_yes)"

fun expr_is_no :: "expr option \<Rightarrow> bool" where
  "expr_is_no None = False"
| "expr_is_no (Some e) = (e = e_symbol symbol_no)"

text \<open>\<^verbatim>\<open>expr_copy\<close>: a copy is the tree itself, and NULL where the code prints
  \<^verbatim>\<open>can't copy type\<close>. A node with a NULL child has no representation as a tree, so a tree
  that holds an uncopyable node copies to \<open>None\<close> as a whole.\<close>

fun expr_copy1 :: "expr \<Rightarrow> expr option" where
  "expr_copy1 (e_symbol s) = Some (e_symbol s)"
| "expr_copy1 (e_not e) = map_option e_not (expr_copy1 e)"
| "expr_copy1 (e_equal a b) = Some (e_equal a b)"
| "expr_copy1 (e_unequal a b) = Some (e_unequal a b)"
| "expr_copy1 (e_and l r) =
     do { l' \<leftarrow> expr_copy1 l; r' \<leftarrow> expr_copy1 r; Some (e_and l' r') }"
| "expr_copy1 (e_or l r) =
     do { l' \<leftarrow> expr_copy1 l; r' \<leftarrow> expr_copy1 r; Some (e_or l' r') }"
| "expr_copy1 (e_list None s) = Some (e_list None s)"
| "expr_copy1 (e_list (Some l) s) = map_option (\<lambda>l'. e_list (Some l') s) (expr_copy1 l)"
| "expr_copy1 (e_range a b) = None"
| "expr_copy1 e_none = None"

fun expr_copy :: "expr option \<Rightarrow> expr option" where
  "expr_copy None = None"
| "expr_copy (Some e) = expr_copy1 e"

text \<open>Dependency expressions: what the grammar of \<^verbatim>\<open>zconf.y\<close> builds.\<close>

fun dep_expr :: "expr \<Rightarrow> bool" where
  "dep_expr (e_or l r) = (dep_expr l \<and> dep_expr r)"
| "dep_expr (e_and l r) = (dep_expr l \<and> dep_expr r)"
| "dep_expr (e_not e) = dep_expr e"
| "dep_expr (e_equal a b) = True"
| "dep_expr (e_unequal a b) = True"
| "dep_expr (e_symbol s) = True"
| "dep_expr _ = False"

lemma expr_copy_dep: "dep_expr e \<Longrightarrow> expr_copy1 e = Some e"
  by (induction e) auto

section \<open>The value of an expression\<close>

text \<open>
  A valuation gives each symbol its tristate value and its string value; \<open>expr_val\<close> is
  \<^verbatim>\<open>expr_calc_value\<close> once every symbol has been calculated (the stateful function is in
  theory \<open>Symcalc\<close>, with the lemma that relates the two).
\<close>

type_synonym valuation = "sym \<Rightarrow> tristate \<times> string"

fun expr_val :: "valuation \<Rightarrow> expr \<Rightarrow> tristate" where
  "expr_val V (e_symbol s) = fst (V s)"
| "expr_val V (e_and l r) = EXPR_AND (expr_val V l) (expr_val V r)"
| "expr_val V (e_or l r) = EXPR_OR (expr_val V l) (expr_val V r)"
| "expr_val V (e_not e) = EXPR_NOT (expr_val V e)"
| "expr_val V (e_equal a b) = (if snd (V a) = snd (V b) then tri_yes else tri_no)"
| "expr_val V (e_unequal a b) = (if snd (V a) = snd (V b) then tri_no else tri_yes)"
| "expr_val V (e_list l s) = tri_no"
| "expr_val V (e_range a b) = tri_no"
| "expr_val V e_none = tri_no"

fun expr_val_opt :: "valuation \<Rightarrow> expr option \<Rightarrow> tristate" where
  "expr_val_opt V None = tri_yes"
| "expr_val_opt V (Some e) = expr_val V e"

text \<open>The valuations the code computes: the three constants have their values, a bool or
  tristate symbol's string is that of its tristate, a bool is never m, and two constant
  symbols with the same string are the same symbol (\<^verbatim>\<open>sym_lookup\<close>).\<close>

definition valuation_ok :: "(sym \<Rightarrow> symbol) \<Rightarrow> valuation \<Rightarrow> bool" where
  "valuation_ok sy V \<longleftrightarrow>
     V symbol_yes = (tri_yes, ''y'') \<and> V symbol_mod = (tri_mod, ''m'') \<and>
     V symbol_no = (tri_no, ''n'') \<and>
     (\<forall>x. s_type (sy x) \<in> {S_BOOLEAN, S_TRISTATE} \<longrightarrow> snd (V x) = tri_string (fst (V x))) \<and>
     (\<forall>x. s_type (sy x) = S_BOOLEAN \<longrightarrow> fst (V x) \<noteq> tri_mod) \<and>
     (\<forall>x y. SYMBOL_CONST \<in> s_flags (sy x) \<and> SYMBOL_CONST \<in> s_flags (sy y) \<and>
        snd (V x) = snd (V y) \<longrightarrow> x = y)"

text \<open>Two-valued valuations: no symbol but the constant m is m.\<close>

definition two_valued :: "valuation \<Rightarrow> bool" where
  "two_valued V \<longleftrightarrow> (\<forall>x. fst (V x) = tri_mod \<longrightarrow> x = symbol_mod)"

lemma valuation_ok_consts:
  assumes "valuation_ok sy V"
  shows "V symbol_yes = (tri_yes, ''y'')" "V symbol_mod = (tri_mod, ''m'')"
    "V symbol_no = (tri_no, ''n'')"
  using assms by (auto simp: valuation_ok_def)

lemma valuation_ok_string:
  "valuation_ok sy V \<Longrightarrow> s_type (sy x) = S_BOOLEAN \<or> s_type (sy x) = S_TRISTATE \<Longrightarrow>
   snd (V x) = tri_string (fst (V x))"
  by (auto simp: valuation_ok_def)

lemma valuation_ok_bool:
  "valuation_ok sy V \<Longrightarrow> s_type (sy x) = S_BOOLEAN \<Longrightarrow> fst (V x) = tri_no \<or> fst (V x) = tri_yes"
  by (auto simp: valuation_ok_def tri_not_mod)

section \<open>The two connectives, uniformly\<close>

text \<open>Functions of \<^verbatim>\<open>expr.c\<close> that take a \<^verbatim>\<open>type\<close> are called with E_OR or E_AND only.
  \<open>split_at\<close> is the test \<^verbatim>\<open>e->type == type\<close> together with the two children.\<close>

fun split_at :: "expr_type \<Rightarrow> expr \<Rightarrow> (expr \<times> expr) option" where
  "split_at E_OR (e_or l r) = Some (l, r)"
| "split_at E_AND (e_and l r) = Some (l, r)"
| "split_at _ _ = None"

fun tri_op :: "expr_type \<Rightarrow> tristate \<Rightarrow> tristate \<Rightarrow> tristate" where
  "tri_op E_AND a b = min a b"
| "tri_op _ a b = max a b"

fun unit_sym :: "expr_type \<Rightarrow> sym" where
  "unit_sym E_AND = symbol_yes"
| "unit_sym _ = symbol_no"

definition is_conn :: "expr_type \<Rightarrow> bool" where
  "is_conn ty \<longleftrightarrow> ty = E_OR \<or> ty = E_AND"

lemma is_conn_simps [simp]: "is_conn E_OR" "is_conn E_AND"
  by (simp_all add: is_conn_def)

lemma split_at_Some_iff:
  "split_at ty e = Some (l, r) \<longleftrightarrow> is_conn ty \<and> e = expr_alloc_two ty l r"
  by (cases "(ty, e)" rule: split_at.cases) (auto simp: is_conn_def)

lemma split_at_alloc [simp]: "is_conn ty \<Longrightarrow> split_at ty (expr_alloc_two ty l r) = Some (l, r)"
  by (simp add: split_at_Some_iff)

lemma split_at_None_iff: "is_conn ty \<Longrightarrow> split_at ty e = None \<longleftrightarrow> etype e \<noteq> ty"
  by (cases e) (auto simp: is_conn_def)

lemma split_at_unit [simp]: "split_at ty (e_symbol s) = None"
  by (cases ty) auto

lemma etype_alloc_two [simp]: "is_conn ty \<Longrightarrow> etype (expr_alloc_two ty l r) = ty"
  by (auto simp: is_conn_def)

lemma size_alloc_two [simp]:
  "is_conn ty \<Longrightarrow> size (expr_alloc_two ty l r) = Suc (size l + size r)"
  by (auto simp: is_conn_def)

lemma split_at_size [termination_simp]:
  "split_at ty e = Some (l, r) \<Longrightarrow> size l < size e"
  "split_at ty e = Some (l, r) \<Longrightarrow> size r < size e"
  by (auto simp: split_at_Some_iff)

lemma expr_val_alloc_two [expr_val_simps]:
  "is_conn ty \<Longrightarrow> expr_val V (expr_alloc_two ty l r) = tri_op ty (expr_val V l) (expr_val V r)"
  by (auto simp: is_conn_def tri_simps)

lemma expr_val_unit [expr_val_simps]:
  "valuation_ok sy V \<Longrightarrow> tri_op ty (expr_val V (e_symbol (unit_sym ty))) a = a"
  "valuation_ok sy V \<Longrightarrow> tri_op ty a (expr_val V (e_symbol (unit_sym ty))) = a"
  by (cases ty; simp add: valuation_ok_consts)+

lemma tri_op_comm: "tri_op ty a b = tri_op ty b a"
  by (cases ty) (auto simp: min.commute max.commute)

lemma tri_op_assoc: "tri_op ty (tri_op ty a b) c = tri_op ty a (tri_op ty b c)"
  by (cases ty) (auto simp: min.assoc max.assoc)

lemma tri_op_left_comm: "tri_op ty b (tri_op ty a c) = tri_op ty a (tri_op ty b c)"
  by (metis tri_op_assoc tri_op_comm)

lemma tri_op_idem [simp]: "tri_op ty a a = a" "tri_op ty a (tri_op ty a b) = tri_op ty a b"
  by (cases ty; simp)+

lemmas tri_op_ac = tri_op_assoc tri_op_comm tri_op_left_comm

end
