(* ===== verification/ExprEq.thy ===== *)
theory ExprEq
  imports Expr
begin

text \<open>
  Removal of constants and the equality test of \<^verbatim>\<open>expr.c\<close>: \<^verbatim>\<open>expr_eliminate_yn\<close>,
  \<^verbatim>\<open>__expr_eliminate_eq\<close>, \<^verbatim>\<open>expr_eliminate_eq\<close>, \<^verbatim>\<open>expr_eq\<close> and
  \<^verbatim>\<open>expr_extract_eq\<close>. The walks over two trees update both; they return the new trees.
  The counter \<^verbatim>\<open>trans_count\<close> is returned as the number of its increments.
\<close>

section \<open>Removing y and n\<close>

fun expr_eliminate_yn :: "expr \<Rightarrow> expr" where
  "expr_eliminate_yn (e_and l r) =
     (let l' = expr_eliminate_yn l; r' = expr_eliminate_yn r in
      if l' = e_symbol symbol_no then e_symbol symbol_no
      else if l' = e_symbol symbol_yes then r'
      else if r' = e_symbol symbol_no then e_symbol symbol_no
      else if r' = e_symbol symbol_yes then l'
      else e_and l' r')"
| "expr_eliminate_yn (e_or l r) =
     (let l' = expr_eliminate_yn l; r' = expr_eliminate_yn r in
      if l' = e_symbol symbol_no then r'
      else if l' = e_symbol symbol_yes then e_symbol symbol_yes
      else if r' = e_symbol symbol_no then l'
      else if r' = e_symbol symbol_yes then e_symbol symbol_yes
      else e_or l' r')"
| "expr_eliminate_yn e = e"

fun eliminate_yn_opt :: "expr option \<Rightarrow> expr option" where
  "eliminate_yn_opt None = None"
| "eliminate_yn_opt (Some e) = Some (expr_eliminate_yn e)"

lemma eliminate_yn_val:
  "valuation_ok sy V \<Longrightarrow> expr_val V (expr_eliminate_yn e) = expr_val V e"
proof (induction e rule: expr_eliminate_yn.induct)
  case (1 l r)
  then have "expr_val V (expr_eliminate_yn l) = expr_val V l"
    "expr_val V (expr_eliminate_yn r) = expr_val V r" by blast+
  with valuation_ok_consts [OF 1(3)] show ?case
    by (simp add: Let_def tri_simps) (metis expr_val.simps(1) fst_conv tri_min_simps)
next
  case (2 l r)
  then have "expr_val V (expr_eliminate_yn l) = expr_val V l"
    "expr_val V (expr_eliminate_yn r) = expr_val V r" by blast+
  with valuation_ok_consts [OF 2(3)] show ?case
    by (simp add: Let_def tri_simps) (metis expr_val.simps(1) fst_conv tri_max_simps)
qed auto

lemma eliminate_yn_val_opt:
  "valuation_ok sy V \<Longrightarrow> expr_val_opt V (eliminate_yn_opt e) = expr_val_opt V e"
  by (cases e) (auto simp: eliminate_yn_val)

text \<open>The normal form: no constant y or n under a connective.\<close>

fun yn_free :: "expr \<Rightarrow> bool" where
  "yn_free (e_and l r) = (yn_free l \<and> yn_free r \<and>
     l \<notin> {e_symbol symbol_yes, e_symbol symbol_no} \<and>
     r \<notin> {e_symbol symbol_yes, e_symbol symbol_no})"
| "yn_free (e_or l r) = (yn_free l \<and> yn_free r \<and>
     l \<notin> {e_symbol symbol_yes, e_symbol symbol_no} \<and>
     r \<notin> {e_symbol symbol_yes, e_symbol symbol_no})"
| "yn_free e = True"

lemma eliminate_yn_free: "yn_free (expr_eliminate_yn e)"
  by (induction e rule: expr_eliminate_yn.induct) (auto simp: Let_def)

lemma eliminate_yn_fixed: "yn_free e \<Longrightarrow> expr_eliminate_yn e = e"
  by (induction e rule: expr_eliminate_yn.induct) (auto simp: Let_def)

lemma eliminate_yn_size: "size (expr_eliminate_yn e) \<le> size e"
  by (induction e rule: expr_eliminate_yn.induct) (auto simp: Let_def)

section \<open>Pairwise elimination\<close>

text \<open>
  \<^verbatim>\<open>__expr_eliminate_eq(type, ep1, ep2)\<close>. The two \<^verbatim>\<open>if\<close>s of the code are the two
  functions: \<open>elim_eq2\<close> is the call once \<^verbatim>\<open>e1\<close> is not a \<open>type\<close> node and descends
  \<^verbatim>\<open>e2\<close>; \<open>elim_eq\<close> descends \<^verbatim>\<open>e1\<close> first. An \<^verbatim>\<open>e1\<close> replaced on the way
  is a constant, never a \<open>type\<close> node, so the first test stays false in the calls of
  \<open>elim_eq2\<close>. The equality test is a parameter.
\<close>

fun elim_eq2 :: "(expr \<Rightarrow> expr \<Rightarrow> bool) \<Rightarrow> expr_type \<Rightarrow> expr \<Rightarrow> expr \<Rightarrow> expr \<times> expr \<times> nat" where
  "elim_eq2 eq ty e1 e2 =
     (case split_at ty e2 of
        Some (l, r) \<Rightarrow>
          (case elim_eq2 eq ty e1 l of (e1', l', c) \<Rightarrow>
           case elim_eq2 eq ty e1' r of (e1'', r', c') \<Rightarrow>
             (e1'', expr_alloc_two ty l' r', c + c'))
      | None \<Rightarrow>
          if e1 = e2 \<and> (e1 = e_symbol symbol_yes \<or> e1 = e_symbol symbol_no) then (e1, e2, 0)
          else if \<not> eq e1 e2 then (e1, e2, 0)
          else (e_symbol (unit_sym ty), e_symbol (unit_sym ty), 1))"

fun elim_eq :: "(expr \<Rightarrow> expr \<Rightarrow> bool) \<Rightarrow> expr_type \<Rightarrow> expr \<Rightarrow> expr \<Rightarrow> expr \<times> expr \<times> nat" where
  "elim_eq eq ty e1 e2 =
     (case split_at ty e1 of
        Some (l, r) \<Rightarrow>
          (case elim_eq eq ty l e2 of (l', e2', c) \<Rightarrow>
           case elim_eq eq ty r e2' of (r', e2'', c') \<Rightarrow>
             (expr_alloc_two ty l' r', e2'', c + c'))
      | None \<Rightarrow> elim_eq2 eq ty e1 e2)"

declare elim_eq2.simps [simp del] elim_eq.simps [simp del]

text \<open>\<^verbatim>\<open>expr_eliminate_eq\<close> on two expressions that are not NULL.\<close>

definition expr_eliminate_eq ::
  "(expr \<Rightarrow> expr \<Rightarrow> bool) \<Rightarrow> expr \<Rightarrow> expr \<Rightarrow> expr \<times> expr \<times> nat" where
  "expr_eliminate_eq eq e1 e2 =
     (case (if is_conn (etype e1) then elim_eq eq (etype e1) e1 e2 else (e1, e2, 0)) of
        (a, b, c) \<Rightarrow>
      case (if etype a \<noteq> etype b \<and> is_conn (etype b)
            then elim_eq eq (etype b) a b else (a, b, 0)) of
        (a', b', c') \<Rightarrow> (expr_eliminate_yn a', expr_eliminate_yn b', c + c'))"

text \<open>\<^verbatim>\<open>expr_eq\<close>, with fuel for the mutual recursion with \<^verbatim>\<open>expr_eliminate_eq\<close>.
  \<open>expr_eq_unfold\<close> below shows that the fuel of \<open>expr_eq\<close> is always enough: the
  equation of the C function holds without it.\<close>

fun expr_eq_fuel :: "nat \<Rightarrow> expr \<Rightarrow> expr \<Rightarrow> bool" where
  "expr_eq_fuel 0 e1 e2 = False"
| "expr_eq_fuel (Suc n) e1 e2 =
     (if etype e1 \<noteq> etype e2 then False
      else case (e1, e2) of
        (e_equal a b, e_equal c d) \<Rightarrow> a = c \<and> b = d
      | (e_unequal a b, e_unequal c d) \<Rightarrow> a = c \<and> b = d
      | (e_symbol a, e_symbol c) \<Rightarrow> a = c
      | (e_not x, e_not y) \<Rightarrow> expr_eq_fuel n x y
      | (e_and _ _, e_and _ _) \<Rightarrow>
          (case expr_eliminate_eq (expr_eq_fuel n) e1 e2 of (a, b, _) \<Rightarrow>
             etype a = E_SYMBOL \<and> a = b)
      | (e_or _ _, e_or _ _) \<Rightarrow>
          (case expr_eliminate_eq (expr_eq_fuel n) e1 e2 of (a, b, _) \<Rightarrow>
             etype a = E_SYMBOL \<and> a = b)
      | _ \<Rightarrow> False)"

definition expr_eq :: "expr \<Rightarrow> expr \<Rightarrow> bool" where
  "expr_eq e1 e2 = expr_eq_fuel (Suc (size e1 + size e2)) e1 e2"

section \<open>One induction rule for the walk\<close>

text \<open>A property of the three results of the walk follows from four cases: a pair of
  leaves that stays, a pair that is eliminated, a descent into \<^verbatim>\<open>e2\<close> and a descent into
  \<^verbatim>\<open>e1\<close>, the second half of a descent starting from what the first half left.\<close>

lemma elim_eq2_rule:
  assumes keep: "\<And>x y. split_at ty y = None \<Longrightarrow> P x y (x, y, 0)"
    and drop: "\<And>x y. split_at ty y = None \<Longrightarrow> eq x y \<Longrightarrow>
      P x y (e_symbol (unit_sym ty), e_symbol (unit_sym ty), 1)"
    and down2: "\<And>x l r x' l' c x'' r' c'. P x l (x', l', c) \<Longrightarrow> P x' r (x'', r', c') \<Longrightarrow>
      P x (expr_alloc_two ty l r) (x'', expr_alloc_two ty l' r', c + c')"
  shows "P e1 e2 (elim_eq2 eq ty e1 e2)"
proof (induction e2 arbitrary: e1 rule: measure_induct_rule [of size])
  case (less e2)
  show ?case
  proof (cases "split_at ty e2")
    case None
    then show ?thesis using keep drop by (simp add: elim_eq2.simps [of eq ty e1 e2])
  next
    case (Some lr)
    then obtain l r where lr: "split_at ty e2 = Some (l, r)" by (cases lr) auto
    obtain x' l' c where 1: "elim_eq2 eq ty e1 l = (x', l', c)" by (metis prod_cases3)
    obtain x'' r' c' where 2: "elim_eq2 eq ty x' r = (x'', r', c')" by (metis prod_cases3)
    have "P e1 l (x', l', c)" and "P x' r (x'', r', c')"
      using less split_at_size [OF lr] 1 2 by metis+
    with lr 1 2 show ?thesis
      by (simp add: elim_eq2.simps [of eq ty e1 e2] down2) (metis down2 split_at_Some_iff)
  qed
qed

lemma elim_eq_rule:
  assumes keep: "\<And>x y. split_at ty y = None \<Longrightarrow> P x y (x, y, 0)"
    and drop: "\<And>x y. split_at ty y = None \<Longrightarrow> eq x y \<Longrightarrow>
      P x y (e_symbol (unit_sym ty), e_symbol (unit_sym ty), 1)"
    and down2: "\<And>x l r x' l' c x'' r' c'. P x l (x', l', c) \<Longrightarrow> P x' r (x'', r', c') \<Longrightarrow>
      P x (expr_alloc_two ty l r) (x'', expr_alloc_two ty l' r', c + c')"
    and down1: "\<And>l r y l' y' c r' y'' c'. P l y (l', y', c) \<Longrightarrow> P r y' (r', y'', c') \<Longrightarrow>
      P (expr_alloc_two ty l r) y (expr_alloc_two ty l' r', y'', c + c')"
  shows "P e1 e2 (elim_eq eq ty e1 e2)"
proof (induction e1 arbitrary: e2 rule: measure_induct_rule [of size])
  case (less e1)
  show ?case
  proof (cases "split_at ty e1")
    case None
    then show ?thesis
      using elim_eq2_rule [where P = P, OF keep drop down2] by (simp add: elim_eq.simps [of eq ty e1 e2])
  next
    case (Some lr)
    then obtain l r where lr: "split_at ty e1 = Some (l, r)" by (cases lr) auto
    obtain l' y' c where 1: "elim_eq eq ty l e2 = (l', y', c)" by (metis prod_cases3)
    obtain r' y'' c' where 2: "elim_eq eq ty r y' = (r', y'', c')" by (metis prod_cases3)
    have "P l e2 (l', y', c)" and "P r y' (r', y'', c')"
      using less split_at_size [OF lr] 1 2 by metis+
    with lr 1 2 show ?thesis
      by (simp add: elim_eq.simps [of eq ty e1 e2]) (metis down1 split_at_Some_iff)
  qed
qed

lemma elim_eq_size:
  assumes "is_conn ty" and "elim_eq eq ty e1 e2 = (a, b, c)"
  shows "size a \<le> size e1" "size b \<le> size e2"
proof -
  have "(\<lambda>x y (a, b, c). size a \<le> size x \<and> size b \<le> size y) e1 e2 (elim_eq eq ty e1 e2)"
    by (rule elim_eq_rule) (use assms(1) in auto)
  with assms(2) show "size a \<le> size e1" "size b \<le> size e2" by auto
qed

section \<open>Soundness\<close>

definition eq_sound :: "valuation \<Rightarrow> (expr \<Rightarrow> expr \<Rightarrow> bool) \<Rightarrow> bool" where
  "eq_sound V eq \<longleftrightarrow> (\<forall>x y. eq x y \<longrightarrow> expr_val V x = expr_val V y)"

text \<open>What one pass removes from the two sides is the same value \<open>X\<close>.\<close>

lemma elim_eq_sound:
  assumes V: "valuation_ok sy V" and ty: "is_conn ty" and eq: "eq_sound V eq"
    and e: "elim_eq eq ty e1 e2 = (a, b, c)"
  obtains X where "expr_val V e1 = tri_op ty X (expr_val V a)"
    "expr_val V e2 = tri_op ty X (expr_val V b)"
proof -
  let ?P = "\<lambda>x y (a, b, c :: nat). \<exists>X. expr_val V x = tri_op ty X (expr_val V a) \<and>
      expr_val V y = tri_op ty X (expr_val V b)"
  have "?P e1 e2 (elim_eq eq ty e1 e2)"
  proof (rule elim_eq_rule, goal_cases)
    case (1 x y)
    show ?case using expr_val_unit(1) [OF V, of ty] by auto metis
  next
    case (2 x y)
    then show ?case using expr_val_unit(2) [OF V, of ty] eq by (auto simp: eq_sound_def)
  next
    case (3 x l r x' l' c x'' r' c')
    then obtain X Y where "expr_val V x = tri_op ty X (expr_val V x')"
      "expr_val V l = tri_op ty X (expr_val V l')" "expr_val V x' = tri_op ty Y (expr_val V x'')"
      "expr_val V r = tri_op ty Y (expr_val V r')" by auto
    then show ?case using ty by (auto simp: expr_val_simps tri_op_ac intro!: exI [of _ "tri_op ty X Y"])
  next
    case (4 l r y l' y' c r' y'' c')
    then obtain X Y where "expr_val V l = tri_op ty X (expr_val V l')"
      "expr_val V y = tri_op ty X (expr_val V y')" "expr_val V r = tri_op ty Y (expr_val V r')"
      "expr_val V y' = tri_op ty Y (expr_val V y'')" by auto
    then show ?case using ty by (auto simp: expr_val_simps tri_op_ac intro!: exI [of _ "tri_op ty X Y"])
  qed
  with e that show thesis by auto
qed

lemma tri_op_mono: "a \<le> b \<Longrightarrow> tri_op ty X a \<le> tri_op ty X b"
  by (cases ty) (auto simp: min_def max_def split: if_splits)

lemma eliminate_eq_le:
  assumes V: "valuation_ok sy V" and eq: "eq_sound V eq"
    and e: "expr_eliminate_eq eq e1 e2 = (a, b, c)"
  shows "expr_val V a \<le> expr_val V b \<Longrightarrow> expr_val V e1 \<le> expr_val V e2"
    and "expr_val V b \<le> expr_val V a \<Longrightarrow> expr_val V e2 \<le> expr_val V e1"
proof -
  obtain x y i where 1: "(if is_conn (etype e1) then elim_eq eq (etype e1) e1 e2 else (e1, e2, 0)) = (x, y, i)"
    by (metis prod_cases3)
  obtain x' y' j where 2: "(if etype x \<noteq> etype y \<and> is_conn (etype y)
      then elim_eq eq (etype y) x y else (x, y, 0)) = (x', y', j)"
    by (metis prod_cases3)
  from e 1 2 have ab: "a = expr_eliminate_yn x'" "b = expr_eliminate_yn y'"
    by (auto simp: expr_eliminate_eq_def)
  have s1: "(expr_val V x \<le> expr_val V y \<longrightarrow> expr_val V e1 \<le> expr_val V e2) \<and>
      (expr_val V y \<le> expr_val V x \<longrightarrow> expr_val V e2 \<le> expr_val V e1)"
  proof (cases "is_conn (etype e1)")
    case True
    with 1 elim_eq_sound [OF V _ eq] obtain X where
      "expr_val V e1 = tri_op (etype e1) X (expr_val V x)"
      "expr_val V e2 = tri_op (etype e1) X (expr_val V y)" by (metis (full_types))
    then show ?thesis by (auto intro: tri_op_mono)
  qed (use 1 in auto)
  have s2: "(expr_val V x' \<le> expr_val V y' \<longrightarrow> expr_val V x \<le> expr_val V y) \<and>
      (expr_val V y' \<le> expr_val V x' \<longrightarrow> expr_val V y \<le> expr_val V x)"
  proof (cases "etype x \<noteq> etype y \<and> is_conn (etype y)")
    case True
    with 2 elim_eq_sound [OF V _ eq] obtain X where
      "expr_val V x = tri_op (etype y) X (expr_val V x')"
      "expr_val V y = tri_op (etype y) X (expr_val V y')" by (metis (full_types))
    then show ?thesis by (auto intro: tri_op_mono)
  qed (use 2 in auto)
  show "expr_val V a \<le> expr_val V b \<Longrightarrow> expr_val V e1 \<le> expr_val V e2"
    and "expr_val V b \<le> expr_val V a \<Longrightarrow> expr_val V e2 \<le> expr_val V e1"
    using s1 s2 by (simp_all add: ab eliminate_yn_val [OF V])
qed

lemma expr_eq_fuel_sound: "valuation_ok sy V \<Longrightarrow> eq_sound V (expr_eq_fuel n)"
proof (induction n)
  case 0
  then show ?case by (simp add: eq_sound_def)
next
  case (Suc n)
  note snd = Suc.IH [OF Suc.prems]
  have conn: "expr_val V x = expr_val V y"
    if "expr_eliminate_eq (expr_eq_fuel n) x y = (e_symbol s, e_symbol s, c)" for x y s c
    using eliminate_eq_le [OF Suc.prems snd that] by (simp add: order_antisym)
  show ?case
    unfolding eq_sound_def
  proof (intro allI impI)
    fix x y
    assume eq: "expr_eq_fuel (Suc n) x y"
    show "expr_val V x = expr_val V y"
    proof (cases x)
      case (e_not x')
      with eq snd show ?thesis
        by (cases y) (auto simp: eq_sound_def)
    next
      case (e_or l r)
      with eq obtain a c where "expr_eliminate_eq (expr_eq_fuel n) x y = (a, a, c)"
        "etype a = E_SYMBOL" by (cases y) (auto split: prod.splits)
      then show ?thesis using conn by (cases a) auto
    next
      case (e_and l r)
      with eq obtain a c where "expr_eliminate_eq (expr_eq_fuel n) x y = (a, a, c)"
        "etype a = E_SYMBOL" by (cases y) (auto split: prod.splits)
      then show ?thesis using conn by (cases a) auto
    qed (use eq in \<open>cases y; simp\<close>)+
  qed
qed

lemma expr_eq_sound:
  "valuation_ok sy V \<Longrightarrow> expr_eq x y \<Longrightarrow> expr_val V x = expr_val V y"
  using expr_eq_fuel_sound unfolding expr_eq_def eq_sound_def by blast

lemma eq_sound_expr_eq: "valuation_ok sy V \<Longrightarrow> eq_sound V expr_eq"
  by (simp add: eq_sound_def expr_eq_sound)

section \<open>The fuel of the equality test is enough\<close>

lemma elim_eq2_cong:
  assumes "\<And>x y. size x \<le> n \<Longrightarrow> size y \<le> m \<Longrightarrow> eq x y = eq' x y"
  shows "size e1 \<le> n \<Longrightarrow> size e2 \<le> m \<Longrightarrow> elim_eq2 eq ty e1 e2 = elim_eq2 eq' ty e1 e2"
proof (induction e2 arbitrary: e1 rule: measure_induct_rule [of size])
  case (less e2)
  show ?case
  proof (cases "split_at ty e2")
    case None
    have "eq e1 e2 = eq' e1 e2" using assms less.prems by blast
    with None show ?thesis
      by (simp only: elim_eq2.simps [of eq ty e1 e2] elim_eq2.simps [of eq' ty e1 e2] option.case)
  next
    case (Some lr)
    then obtain l r where lr: "split_at ty e2 = Some (l, r)" by (cases lr) auto
    then have ty: "is_conn ty" by (simp add: split_at_Some_iff)
    obtain x' l' c where 1: "elim_eq2 eq ty e1 l = (x', l', c)" by (metis prod_cases3)
    have "size x' \<le> size e1"
      using elim_eq2_rule [of ty "\<lambda>x y (a, b, c). size a \<le> size x" eq e1 l] 1 by auto
    then have "elim_eq2 eq ty e1 l = elim_eq2 eq' ty e1 l"
      "elim_eq2 eq ty x' r = elim_eq2 eq' ty x' r"
      using less split_at_size [OF lr] by simp_all
    with lr 1 show ?thesis
      by (simp add: elim_eq2.simps [of eq ty e1 e2] elim_eq2.simps [of eq' ty e1 e2])
  qed
qed

lemma elim_eq_cong:
  assumes "\<And>x y. size x \<le> n \<Longrightarrow> size y \<le> m \<Longrightarrow> eq x y = eq' x y"
  shows "size e1 \<le> n \<Longrightarrow> size e2 \<le> m \<Longrightarrow> elim_eq eq ty e1 e2 = elim_eq eq' ty e1 e2"
proof (induction e1 arbitrary: e2 rule: measure_induct_rule [of size])
  case (less e1)
  show ?case
  proof (cases "split_at ty e1")
    case None
    have "elim_eq2 eq ty e1 e2 = elim_eq2 eq' ty e1 e2"
      using elim_eq2_cong [OF assms less.prems] .
    with None show ?thesis
      by (simp only: elim_eq.simps [of eq ty e1 e2] elim_eq.simps [of eq' ty e1 e2] option.case)
  next
    case (Some lr)
    then obtain l r where lr: "split_at ty e1 = Some (l, r)" by (cases lr) auto
    then have ty: "is_conn ty" by (simp add: split_at_Some_iff)
    obtain l' y' c where 1: "elim_eq eq ty l e2 = (l', y', c)" by (metis prod_cases3)
    have "size y' \<le> size e2" using elim_eq_size [OF ty 1] by simp
    then have "elim_eq eq ty l e2 = elim_eq eq' ty l e2"
      "elim_eq eq ty r y' = elim_eq eq' ty r y'"
      using less split_at_size [OF lr] by simp_all
    with lr 1 show ?thesis
      by (simp add: elim_eq.simps [of eq ty e1 e2] elim_eq.simps [of eq' ty e1 e2])
  qed
qed

lemma eliminate_eq_cong:
  assumes eq: "\<And>x y. size x + size y < size e1 + size e2 \<Longrightarrow> eq x y = eq' x y"
  shows "expr_eliminate_eq eq e1 e2 = expr_eliminate_eq eq' e1 e2"
proof -
  have first: "elim_eq eq (etype e1) e1 e2 = elim_eq eq' (etype e1) e1 e2" if c: "is_conn (etype e1)"
  proof -
    obtain l r where lr: "split_at (etype e1) e1 = Some (l, r)"
      using split_at_None_iff [OF c, of e1] by (cases "split_at (etype e1) e1") auto
    note sz = split_at_size [OF lr]
    obtain l' y' i where 1: "elim_eq eq (etype e1) l e2 = (l', y', i)" by (metis prod_cases3)
    have "size y' \<le> size e2" using elim_eq_size [OF c 1] by simp
    then have "elim_eq eq (etype e1) l e2 = elim_eq eq' (etype e1) l e2"
      and "elim_eq eq (etype e1) r y' = elim_eq eq' (etype e1) r y'"
      using sz eq by (auto intro!: elim_eq_cong [of "max (size l) (size r)" "size e2"])
    with lr 1 show ?thesis
      by (simp add: elim_eq.simps [of eq "etype e1" e1] elim_eq.simps [of eq' "etype e1" e1])
  qed
  have second: "elim_eq eq (etype y) x y = elim_eq eq' (etype y) x y"
    if c: "is_conn (etype y)" "etype x \<noteq> etype y" and s: "size x \<le> size e1" "size y \<le> size e2"
    for x y
  proof -
    obtain l r where lr: "split_at (etype y) y = Some (l, r)"
      using split_at_None_iff [OF c(1), of y] by (cases "split_at (etype y) y") auto
    note sz = split_at_size [OF lr]
    have n: "split_at (etype y) x = None" using c by (simp add: split_at_None_iff)
    obtain x' l' i where 1: "elim_eq2 eq (etype y) x l = (x', l', i)" by (metis prod_cases3)
    have "size x' \<le> size x"
      using elim_eq2_rule [of "etype y" "\<lambda>x y (a, b, c). size a \<le> size x" eq x l] 1 c(1) by auto
    then have "elim_eq2 eq (etype y) x l = elim_eq2 eq' (etype y) x l"
      and "elim_eq2 eq (etype y) x' r = elim_eq2 eq' (etype y) x' r"
      using sz s eq by (auto intro!: elim_eq2_cong [of "size e1" "max (size l) (size r)"])
    with lr 1 n show ?thesis
      by (simp add: elim_eq.simps [of eq "etype y" x] elim_eq.simps [of eq' "etype y" x]
        elim_eq2.simps [of eq "etype y" x y] elim_eq2.simps [of eq' "etype y" x y])
  qed
  obtain x y i where 1: "(if is_conn (etype e1) then elim_eq eq (etype e1) e1 e2 else (e1, e2, 0)) = (x, y, i)"
    by (metis prod_cases3)
  then have sz: "size x \<le> size e1" "size y \<le> size e2"
    using elim_eq_size by (auto split: if_splits)
  from 1 first have one: "(if is_conn (etype e1) then elim_eq eq' (etype e1) e1 e2 else (e1, e2, 0)) = (x, y, i)"
    by (auto split: if_splits)
  have "(if etype x \<noteq> etype y \<and> is_conn (etype y) then elim_eq eq (etype y) x y else (x, y, 0)) =
      (if etype x \<noteq> etype y \<and> is_conn (etype y) then elim_eq eq' (etype y) x y else (x, y, 0))"
    using second sz by auto
  then show ?thesis
    unfolding expr_eliminate_eq_def 1 one prod.case by simp
qed

lemma expr_eq_fuel_enough:
  "size e1 + size e2 < n \<Longrightarrow> size e1 + size e2 < m \<Longrightarrow> expr_eq_fuel n e1 e2 = expr_eq_fuel m e1 e2"
proof (induction n arbitrary: m e1 e2)
  case 0
  then show ?case by simp
next
  case (Suc n)
  then obtain m' where m: "m = Suc m'" by (cases m) auto
  have elim: "expr_eliminate_eq (expr_eq_fuel n) e1 e2 = expr_eliminate_eq (expr_eq_fuel m') e1 e2"
  proof (rule eliminate_eq_cong)
    fix x y :: expr
    assume "size x + size y < size e1 + size e2"
    with Suc.prems m have "size x + size y < n" "size x + size y < m'" by auto
    then show "expr_eq_fuel n x y = expr_eq_fuel m' x y" by (rule Suc.IH)
  qed
  show ?case
  proof (cases e1)
    case (e_not x)
    with Suc m show ?thesis by (cases e2) auto
  next
    case (e_or l r)
    with elim m show ?thesis by (cases e2) auto
  next
    case (e_and l r)
    with elim m show ?thesis by (cases e2) auto
  qed (cases e2; simp add: m)+
qed

lemma expr_eq_fuel_eq: "size e1 + size e2 < n \<Longrightarrow> expr_eq_fuel n e1 e2 = expr_eq e1 e2"
  unfolding expr_eq_def by (rule expr_eq_fuel_enough) auto

lemma expr_eq_rec:
  "expr_eq e1 e2 =
     (if etype e1 \<noteq> etype e2 then False
      else case (e1, e2) of
        (e_equal a b, e_equal c d) \<Rightarrow> a = c \<and> b = d
      | (e_unequal a b, e_unequal c d) \<Rightarrow> a = c \<and> b = d
      | (e_symbol a, e_symbol c) \<Rightarrow> a = c
      | (e_not x, e_not y) \<Rightarrow> expr_eq x y
      | (e_and _ _, e_and _ _) \<Rightarrow>
          (case expr_eliminate_eq expr_eq e1 e2 of (a, b, _) \<Rightarrow> etype a = E_SYMBOL \<and> a = b)
      | (e_or _ _, e_or _ _) \<Rightarrow>
          (case expr_eliminate_eq expr_eq e1 e2 of (a, b, _) \<Rightarrow> etype a = E_SYMBOL \<and> a = b)
      | _ \<Rightarrow> False)"
proof -
  define n where "n = size e1 + size e2"
  have elim: "expr_eliminate_eq (expr_eq_fuel n) e1 e2 = expr_eliminate_eq expr_eq e1 e2"
    by (rule eliminate_eq_cong) (rule expr_eq_fuel_eq, simp add: n_def)
  have nt: "expr_eq_fuel n x y = expr_eq x y" if "e1 = e_not x" "e2 = e_not y" for x y
    by (rule expr_eq_fuel_eq) (simp add: n_def that)
  have "expr_eq e1 e2 = expr_eq_fuel (Suc n) e1 e2"
    by (simp only: expr_eq_def n_def)
  then show ?thesis
    unfolding expr_eq_fuel.simps elim using nt
    by (cases e1; cases e2; simp only: etype.simps expr.case prod.case if_False if_True
      expr_type.simps simp_thms)
qed

lemma expr_eq_simps [simp]:
  "expr_eq (e_symbol a) e = (e = e_symbol a)"
  "expr_eq (e_equal a b) e = (e = e_equal a b)"
  "expr_eq (e_unequal a b) e = (e = e_unequal a b)"
  "expr_eq (e_not x) e = (case e of e_not y \<Rightarrow> expr_eq x y | _ \<Rightarrow> False)"
  by (subst expr_eq_rec; cases e; auto)+

section \<open>Extracting the common part\<close>

text \<open>
  \<^verbatim>\<open>expr_extract_eq(type, ep, ep1, ep2)\<close>: the same walk, which also collects the
  eliminated expressions in \<^verbatim>\<open>*ep\<close>.
\<close>

fun extract_eq2 ::
  "expr_type \<Rightarrow> expr option \<Rightarrow> expr \<Rightarrow> expr \<Rightarrow> expr option \<times> expr \<times> expr" where
  "extract_eq2 ty ep e1 e2 =
     (case split_at ty e2 of
        Some (l, r) \<Rightarrow>
          (case extract_eq2 ty ep e1 l of (ep', e1', l') \<Rightarrow>
           case extract_eq2 ty ep' e1' r of (ep'', e1'', r') \<Rightarrow>
             (ep'', e1'', expr_alloc_two ty l' r'))
      | None \<Rightarrow>
          if expr_eq e1 e2 then
            (Some (case ep of Some e \<Rightarrow> expr_alloc_two ty e e1 | None \<Rightarrow> e1),
             e_symbol (unit_sym ty), e_symbol (unit_sym ty))
          else (ep, e1, e2))"

fun expr_extract_eq ::
  "expr_type \<Rightarrow> expr option \<Rightarrow> expr \<Rightarrow> expr \<Rightarrow> expr option \<times> expr \<times> expr" where
  "expr_extract_eq ty ep e1 e2 =
     (case split_at ty e1 of
        Some (l, r) \<Rightarrow>
          (case expr_extract_eq ty ep l e2 of (ep', l', e2') \<Rightarrow>
           case expr_extract_eq ty ep' r e2' of (ep'', r', e2'') \<Rightarrow>
             (ep'', expr_alloc_two ty l' r', e2''))
      | None \<Rightarrow> extract_eq2 ty ep e1 e2)"

declare extract_eq2.simps [simp del] expr_extract_eq.simps [simp del]

definition extract_eq_yn ::
  "expr_type \<Rightarrow> expr \<Rightarrow> expr \<Rightarrow> expr option \<times> expr \<times> expr" where
  "extract_eq_yn ty e1 e2 =
     (case expr_extract_eq ty None e1 e2 of (tmp, e1', e2') \<Rightarrow>
        if tmp \<noteq> None then (tmp, expr_eliminate_yn e1', expr_eliminate_yn e2')
        else (tmp, e1', e2'))"

definition expr_extract_eq_and :: "expr \<Rightarrow> expr \<Rightarrow> expr option \<times> expr \<times> expr" where
  "expr_extract_eq_and e1 e2 = extract_eq_yn E_AND e1 e2"

definition expr_extract_eq_or :: "expr \<Rightarrow> expr \<Rightarrow> expr option \<times> expr \<times> expr" where
  "expr_extract_eq_or e1 e2 = extract_eq_yn E_OR e1 e2"

definition unit_val :: "expr_type \<Rightarrow> tristate" where
  "unit_val ty = (if ty = E_AND then tri_yes else tri_no)"

fun common_val :: "valuation \<Rightarrow> expr_type \<Rightarrow> expr option \<Rightarrow> tristate" where
  "common_val V ty None = unit_val ty"
| "common_val V ty (Some e) = expr_val V e"

lemma tri_op_unit [simp]: "tri_op ty (unit_val ty) a = a" "tri_op ty a (unit_val ty) = a"
  by (cases ty; simp add: unit_val_def)+

lemma unit_sym_val: "valuation_ok sy V \<Longrightarrow> expr_val V (e_symbol (unit_sym ty)) = unit_val ty"
  by (cases ty) (auto simp: valuation_ok_consts unit_val_def)

text \<open>\<open>X\<close> is the value of what a call added to \<^verbatim>\<open>*ep\<close>.\<close>

definition extracted ::
  "valuation \<Rightarrow> expr_type \<Rightarrow> expr option \<Rightarrow> expr \<Rightarrow> expr \<Rightarrow> expr option \<times> expr \<times> expr \<Rightarrow> bool" where
  "extracted V ty ep e1 e2 res \<longleftrightarrow> (case res of (ep', e1', e2') \<Rightarrow>
     \<exists>X. common_val V ty ep' = tri_op ty (common_val V ty ep) X \<and>
         expr_val V e1 = tri_op ty X (expr_val V e1') \<and>
         expr_val V e2 = tri_op ty X (expr_val V e2'))"

lemma extractedI:
  "common_val V ty ep' = tri_op ty (common_val V ty ep) X \<Longrightarrow>
   expr_val V e1 = tri_op ty X (expr_val V e1') \<Longrightarrow>
   expr_val V e2 = tri_op ty X (expr_val V e2') \<Longrightarrow> extracted V ty ep e1 e2 (ep', e1', e2')"
  by (auto simp: extracted_def)

lemma extracted_keep: "extracted V ty ep e1 e2 (ep, e1, e2)"
  by (rule extractedI [of _ _ _ _ "unit_val ty"]) simp_all

lemma extracted_take:
  assumes "valuation_ok sy V" "is_conn ty" "expr_val V e1 = expr_val V e2"
  shows "extracted V ty ep e1 e2
    (Some (case ep of Some e \<Rightarrow> expr_alloc_two ty e e1 | None \<Rightarrow> e1),
     e_symbol (unit_sym ty), e_symbol (unit_sym ty))"
proof (rule extractedI [of _ _ _ _ "expr_val V e1"])
  show "common_val V ty (Some (case ep of Some e \<Rightarrow> expr_alloc_two ty e e1 | None \<Rightarrow> e1)) =
      tri_op ty (common_val V ty ep) (expr_val V e1)"
    by (cases ep) (simp_all add: assms(2) expr_val_simps)
qed (simp_all only: unit_sym_val [OF assms(1)] tri_op_unit assms(3))

lemma extracted_down1:
  assumes ty: "is_conn ty" and 1: "extracted V ty ep l e2 (ep', l', e2')"
    and 2: "extracted V ty ep' r e2' (ep'', r', e2'')"
  shows "extracted V ty ep (expr_alloc_two ty l r) e2 (ep'', expr_alloc_two ty l' r', e2'')"
proof -
  from 1 2 obtain X Y where
    "common_val V ty ep' = tri_op ty (common_val V ty ep) X"
    "expr_val V l = tri_op ty X (expr_val V l')" "expr_val V e2 = tri_op ty X (expr_val V e2')"
    "common_val V ty ep'' = tri_op ty (common_val V ty ep') Y"
    "expr_val V r = tri_op ty Y (expr_val V r')" "expr_val V e2' = tri_op ty Y (expr_val V e2'')"
    by (auto simp: extracted_def)
  then show ?thesis
    using ty by (intro extractedI [of _ _ _ _ "tri_op ty X Y"]) (auto simp: expr_val_simps tri_op_ac)
qed

lemma extracted_swap: "extracted V ty ep e1 e2 (ep', e1', e2') \<longleftrightarrow> extracted V ty ep e2 e1 (ep', e2', e1')"
  by (auto simp: extracted_def)

lemma extract_eq2_sound:
  assumes V: "valuation_ok sy V" and ty: "is_conn ty"
  shows "extracted V ty ep e1 e2 (extract_eq2 ty ep e1 e2)"
proof (induction e2 arbitrary: ep e1 rule: measure_induct_rule [of size])
  case (less e2)
  show ?case
  proof (cases "split_at ty e2")
    case None
    have "expr_eq e1 e2 \<Longrightarrow> expr_val V e1 = expr_val V e2" by (rule expr_eq_sound [OF V])
    with None extracted_keep extracted_take [OF V ty] show ?thesis
      by (simp only: extract_eq2.simps [of ty ep e1 e2] option.case split: if_split) blast
  next
    case (Some lr)
    then obtain l r where lr: "split_at ty e2 = Some (l, r)" by (cases lr) auto
    obtain ep' e1' l' where 1: "extract_eq2 ty ep e1 l = (ep', e1', l')" by (metis prod_cases3)
    obtain ep'' e1'' r' where 2: "extract_eq2 ty ep' e1' r = (ep'', e1'', r')" by (metis prod_cases3)
    have "extracted V ty ep l e1 (ep', l', e1')" "extracted V ty ep' r e1' (ep'', r', e1'')"
      using less split_at_size [OF lr] 1 2 by (metis extracted_swap)+
    from extracted_down1 [OF ty this] lr 1 2 show ?thesis
      by (simp add: extract_eq2.simps [of ty ep e1 e2] extracted_swap [of V ty ep e1])
        (metis split_at_Some_iff)
  qed
qed

lemma extract_eq_sound:
  assumes V: "valuation_ok sy V" and ty: "is_conn ty"
  shows "extracted V ty ep e1 e2 (expr_extract_eq ty ep e1 e2)"
proof (induction e1 arbitrary: ep e2 rule: measure_induct_rule [of size])
  case (less e1)
  show ?case
  proof (cases "split_at ty e1")
    case None
    then show ?thesis
      using extract_eq2_sound [OF V ty] by (simp add: expr_extract_eq.simps [of ty ep e1 e2])
  next
    case (Some lr)
    then obtain l r where lr: "split_at ty e1 = Some (l, r)" by (cases lr) auto
    obtain ep' l' e2' where 1: "expr_extract_eq ty ep l e2 = (ep', l', e2')" by (metis prod_cases3)
    obtain ep'' r' e2'' where 2: "expr_extract_eq ty ep' r e2' = (ep'', r', e2'')" by (metis prod_cases3)
    have "extracted V ty ep l e2 (ep', l', e2')" "extracted V ty ep' r e2' (ep'', r', e2'')"
      using less split_at_size [OF lr] 1 2 by metis+
    from extracted_down1 [OF ty this] lr 1 2 show ?thesis
      by (simp add: expr_extract_eq.simps [of ty ep e1 e2]) (metis split_at_Some_iff)
  qed
qed

lemma extract_eq_yn_sound:
  assumes V: "valuation_ok sy V" and ty: "is_conn ty"
    and e: "extract_eq_yn ty e1 e2 = (tmp, e1', e2')"
  obtains "expr_val V e1 = tri_op ty (common_val V ty tmp) (expr_val V e1')"
    "expr_val V e2 = tri_op ty (common_val V ty tmp) (expr_val V e2')"
proof -
  obtain t a b where x: "expr_extract_eq ty None e1 e2 = (t, a, b)" by (metis prod_cases3)
  with extract_eq_sound [OF V ty, of None e1 e2] have
    "expr_val V e1 = tri_op ty (common_val V ty t) (expr_val V a)"
    "expr_val V e2 = tri_op ty (common_val V ty t) (expr_val V b)"
    by (auto simp: extracted_def)
  with e x that show thesis
    by (auto simp: extract_eq_yn_def eliminate_yn_val [OF V] split: if_splits)
qed

end
