(* ===== verification/ExprTransform.thy ===== *)
theory ExprTransform
  imports ExprEq
begin

text \<open>
  The rewritings of \<^verbatim>\<open>expr.c\<close> on a single expression: \<^verbatim>\<open>expr_trans_bool\<close>,
  \<^verbatim>\<open>expr_transform\<close> (negations pushed to the symbols, comparisons of bool symbols
  simplified), \<^verbatim>\<open>expr_trans_compare\<close> and the two occurrence tests.
\<close>

section \<open>\<^verbatim>\<open>expr_trans_bool\<close>\<close>

fun expr_trans_bool :: "(sym \<Rightarrow> symbol) \<Rightarrow> expr \<Rightarrow> expr" where
  "expr_trans_bool sy (e_and l r) = e_and (expr_trans_bool sy l) (expr_trans_bool sy r)"
| "expr_trans_bool sy (e_or l r) = e_or (expr_trans_bool sy l) (expr_trans_bool sy r)"
| "expr_trans_bool sy (e_not e) = e_not (expr_trans_bool sy e)"
| "expr_trans_bool sy (e_unequal a b) =
     (if s_type (sy a) = S_TRISTATE \<and> b = symbol_no then e_symbol a else e_unequal a b)"
| "expr_trans_bool sy e = e"

section \<open>\<^verbatim>\<open>expr_transform\<close>\<close>

text \<open>The weight that every recursive call of \<^verbatim>\<open>expr_transform\<close> decreases: a negation
  counts double, a comparison as much as the negated symbol it may turn into.\<close>

fun tweight :: "expr \<Rightarrow> nat" where
  "tweight (e_or l r) = Suc (tweight l + tweight r)"
| "tweight (e_and l r) = Suc (tweight l + tweight r)"
| "tweight (e_not e) = 2 * tweight e"
| "tweight (e_equal a b) = 2"
| "tweight (e_unequal a b) = 2"
| "tweight _ = 1"

lemma tweight_pos: "0 < tweight e"
  by (induction e) auto

text \<open>
  The first \<^verbatim>\<open>switch\<close> transforms the children, the second rewrites the node. (An E_RANGE
  node would make the first \<^verbatim>\<open>switch\<close> follow symbol pointers as expressions; no caller
  passes one, and the model leaves it unchanged.)
\<close>

function expr_transform :: "(sym \<Rightarrow> symbol) \<Rightarrow> expr \<Rightarrow> expr" where
  "expr_transform sy (e_or l r) = e_or (expr_transform sy l) (expr_transform sy r)"
| "expr_transform sy (e_and l r) = e_and (expr_transform sy l) (expr_transform sy r)"
| "expr_transform sy (e_equal a b) =
     (if s_type (sy a) \<noteq> S_BOOLEAN then e_equal a b
      else if b = symbol_no then e_not (e_symbol a)
      else if b = symbol_mod then e_symbol symbol_no
      else if b = symbol_yes then e_symbol a
      else e_equal a b)"
| "expr_transform sy (e_unequal a b) =
     (if s_type (sy a) \<noteq> S_BOOLEAN then e_unequal a b
      else if b = symbol_no then e_symbol a
      else if b = symbol_mod then e_symbol symbol_yes
      else if b = symbol_yes then e_not (e_symbol a)
      else e_unequal a b)"
| "expr_transform sy (e_not e) =
     (case expr_transform sy e of
        e_not a \<Rightarrow> expr_transform sy a
      | e_equal a b \<Rightarrow> e_unequal a b
      | e_unequal a b \<Rightarrow> e_equal a b
      | e_or a b \<Rightarrow> expr_transform sy (e_and (e_not a) (e_not b))
      | e_and a b \<Rightarrow> expr_transform sy (e_or (e_not a) (e_not b))
      | e_symbol s \<Rightarrow>
          (if s = symbol_yes then e_symbol symbol_no
           else if s = symbol_mod then e_symbol symbol_mod
           else if s = symbol_no then e_symbol symbol_yes
           else e_not (e_symbol s))
      | e' \<Rightarrow> e_not e')"
| "expr_transform sy (e_symbol s) = e_symbol s"
| "expr_transform sy (e_list l s) = e_list l s"
| "expr_transform sy (e_range a b) = e_range a b"
| "expr_transform sy e_none = e_none"
  by pat_completeness auto

lemma expr_transform_weight:
  "expr_transform_dom (sy, e) \<Longrightarrow> tweight (expr_transform sy e) \<le> tweight e"
proof (induction rule: expr_transform.pinduct)
  case (5 sy e)
  have m: "tweight (expr_transform sy e) \<le> tweight e" by (rule "5.IH")
  show ?case
  proof (cases "expr_transform sy e")
    case (e_not a)
    with "5.IH"(4) [OF this] m show ?thesis by (simp add: expr_transform.psimps "5.hyps")
  next
    case (e_or a b)
    with "5.IH"(2) [OF this] m show ?thesis by (simp add: expr_transform.psimps "5.hyps")
  next
    case (e_and a b)
    with "5.IH"(3) [OF this] m show ?thesis by (simp add: expr_transform.psimps "5.hyps")
  qed (use m in \<open>simp_all add: expr_transform.psimps "5.hyps"\<close>)
qed (simp_all add: expr_transform.psimps)

lemma expr_transform_weight_args:
  assumes "expr_transform_dom (sy, e)"
  shows "expr_transform sy e = e_not a \<Longrightarrow> tweight a < 2 * tweight e"
    "expr_transform sy e = e_or a b \<Longrightarrow> Suc (2 * tweight a + 2 * tweight b) < 2 * tweight e"
    "expr_transform sy e = e_and a b \<Longrightarrow> Suc (2 * tweight a + 2 * tweight b) < 2 * tweight e"
  using expr_transform_weight [OF assms] tweight_pos [of a] by auto

termination expr_transform
  by (relation "measure (\<lambda>(sy, e). tweight e)") (auto dest: expr_transform_weight_args simp: tweight_pos)

lemma trans_simp_bool:
  assumes "valuation_ok sy V" and "s_type (sy a) = S_BOOLEAN"
  shows "snd (V a) = ''n'' \<longleftrightarrow> fst (V a) = tri_no" "snd (V a) = ''y'' \<longleftrightarrow> fst (V a) = tri_yes"
    "snd (V a) \<noteq> ''m''"
  using valuation_ok_string [OF assms(1), of a] valuation_ok_bool [OF assms] assms(2) by auto

lemma expr_transform_val:
  "valuation_ok sy V \<Longrightarrow> expr_val V (expr_transform sy e) = expr_val V e"
proof (induction sy e rule: expr_transform.induct)
  case (3 sy a b)
  then show ?case
    using trans_simp_bool [OF 3] valuation_ok_consts [OF 3] valuation_ok_bool [OF 3, of a]
    by auto
next
  case (4 sy a b)
  then show ?case
    using trans_simp_bool [OF 4] valuation_ok_consts [OF 4] valuation_ok_bool [OF 4, of a]
    by auto
next
  case (5 sy e)
  have e: "expr_val V (expr_transform sy e) = expr_val V e" using 5 by blast
  then have n: "expr_val V (e_not e) = EXPR_NOT (expr_val V (expr_transform sy e))" by simp
  show ?case
  proof (cases "expr_transform sy e")
    case (e_or a b)
    have "expr_val V (expr_transform sy (e_and (e_not a) (e_not b))) =
        expr_val V (e_and (e_not a) (e_not b))" using 5 e_or by blast
    with n e_or show ?thesis
      by (simp only: expr_transform.simps(5) expr.case expr_val.simps tri_simps EXPR_NOT_max)
  next
    case (e_and a b)
    have "expr_val V (expr_transform sy (e_or (e_not a) (e_not b))) =
        expr_val V (e_or (e_not a) (e_not b))" using 5 e_and by blast
    with n e_and show ?thesis
      by (simp only: expr_transform.simps(5) expr.case expr_val.simps tri_simps EXPR_NOT_min)
  next
    case (e_not a)
    have "expr_val V (expr_transform sy a) = expr_val V a" using 5 e_not by blast
    with n e_not show ?thesis
      by (simp only: expr_transform.simps(5) expr.case expr_val.simps EXPR_NOT_involution)
  next
    case (e_symbol s)
    then show ?thesis using n valuation_ok_consts [OF "5.prems"] by auto
  qed (use n in auto)
qed auto

text \<open>Negation normal form: a negation stands in front of a symbol that is no constant.\<close>

fun nnf :: "expr \<Rightarrow> bool" where
  "nnf (e_or l r) = (nnf l \<and> nnf r)"
| "nnf (e_and l r) = (nnf l \<and> nnf r)"
| "nnf (e_not e) = (\<exists>s. e = e_symbol s \<and> s \<notin> {symbol_yes, symbol_mod, symbol_no})"
| "nnf _ = True"

text \<open>The constants y, m and n have type S_UNKNOWN, so that no comparison is rewritten into
  the negation of one of them.\<close>

definition const_types :: "(sym \<Rightarrow> symbol) \<Rightarrow> bool" where
  "const_types sy \<longleftrightarrow>
     (\<forall>c \<in> {symbol_yes, symbol_mod, symbol_no, symbol_empty}. s_type (sy c) = S_UNKNOWN)"

lemma expr_transform_nnf:
  "const_types sy \<Longrightarrow> dep_expr e \<Longrightarrow> nnf (expr_transform sy e) \<and> dep_expr (expr_transform sy e)"
proof (induction sy e rule: expr_transform.induct)
  case (3 sy a b)
  then show ?case by (auto simp: const_types_def)
next
  case (4 sy a b)
  then show ?case by (auto simp: const_types_def)
next
  case (5 sy e)
  then have e: "nnf (expr_transform sy e)" "dep_expr (expr_transform sy e)" by simp_all
  show ?case
  proof (cases "expr_transform sy e")
    case (e_or a b)
    then show ?thesis using 5 e by simp
  next
    case (e_and a b)
    then show ?thesis using 5 e by simp
  next
    case (e_not a)
    then show ?thesis using 5 e by auto
  qed (use e in auto)
qed auto

lemma expr_trans_bool_val:
  "valuation_ok sy V \<Longrightarrow> (\<And>x. s_type (sy x) = S_TRISTATE \<Longrightarrow> fst (V x) \<noteq> tri_mod) \<Longrightarrow>
   expr_val V (expr_trans_bool sy e) = expr_val V e"
proof (induction sy e rule: expr_trans_bool.induct)
  case (4 sy a b)
  then show ?case
    using valuation_ok_string [OF "4.prems"(1), of a] valuation_ok_consts [OF "4.prems"(1)]
      tri_not_mod [of "fst (V a)"] by auto
qed auto

section \<open>\<^verbatim>\<open>expr_trans_compare\<close>\<close>

text \<open>
  Whether an expression equals a constant, as an expression. The result is \<open>None\<close> where
  the code returns NULL or would build a node over NULL. The comparison is
  \<^verbatim>\<open>type\<close> E_EQUAL or E_UNEQUAL.
\<close>

definition negate_if_unequal :: "expr_type \<Rightarrow> expr \<Rightarrow> expr" where
  "negate_if_unequal ty e = (if ty = E_UNEQUAL then e_not e else e)"

fun expr_trans_compare1 :: "expr \<Rightarrow> expr_type \<Rightarrow> sym \<Rightarrow> expr option" where
  "expr_trans_compare1 (e_and l r) ty s =
     do { e1 \<leftarrow> expr_trans_compare1 l E_EQUAL s;
          e2 \<leftarrow> expr_trans_compare1 r E_EQUAL s;
          Some (negate_if_unequal ty
            (if s = symbol_yes then e_and e1 e2
             else if s = symbol_no then e_or e1 e2 else e_and l r)) }"
| "expr_trans_compare1 (e_or l r) ty s =
     do { e1 \<leftarrow> expr_trans_compare1 l E_EQUAL s;
          e2 \<leftarrow> expr_trans_compare1 r E_EQUAL s;
          Some (negate_if_unequal ty
            (if s = symbol_yes then e_or e1 e2
             else if s = symbol_no then e_and e1 e2 else e_or l r)) }"
| "expr_trans_compare1 (e_not e) ty s =
     expr_trans_compare1 e (if ty = E_EQUAL then E_UNEQUAL else E_EQUAL) s"
| "expr_trans_compare1 (e_unequal a b) ty s =
     (if ty = E_EQUAL then
        if s = symbol_yes then Some (e_unequal a b)
        else if s = symbol_mod then Some (e_symbol symbol_no)
        else if s = symbol_no then Some (e_not (e_unequal a b)) else None
      else
        if s = symbol_yes then Some (e_not (e_unequal a b))
        else if s = symbol_mod then Some (e_symbol symbol_yes)
        else if s = symbol_no then Some (e_unequal a b) else None)"
| "expr_trans_compare1 (e_equal a b) ty s =
     (if ty = E_EQUAL then
        if s = symbol_yes then Some (e_equal a b)
        else if s = symbol_mod then Some (e_symbol symbol_no)
        else if s = symbol_no then Some (e_not (e_equal a b)) else None
      else
        if s = symbol_yes then Some (e_not (e_equal a b))
        else if s = symbol_mod then Some (e_symbol symbol_yes)
        else if s = symbol_no then Some (e_equal a b) else None)"
| "expr_trans_compare1 (e_symbol x) ty s = Some (expr_alloc_comp ty x s)"
| "expr_trans_compare1 _ ty s = None"

fun expr_trans_compare :: "expr option \<Rightarrow> expr_type \<Rightarrow> sym \<Rightarrow> expr option" where
  "expr_trans_compare None ty s = Some (negate_if_unequal ty (e_symbol s))"
| "expr_trans_compare (Some e) ty s = expr_trans_compare1 e ty s"

text \<open>The symbols an expression tests by value: for each of them the string is that of its
  tristate value.\<close>

fun tested_syms :: "expr \<Rightarrow> sym set" where
  "tested_syms (e_or l r) = tested_syms l \<union> tested_syms r"
| "tested_syms (e_and l r) = tested_syms l \<union> tested_syms r"
| "tested_syms (e_not e) = tested_syms e"
| "tested_syms (e_symbol s) = {s}"
| "tested_syms _ = {}"

definition compare_val :: "tristate \<Rightarrow> expr_type \<Rightarrow> tristate \<Rightarrow> tristate" where
  "compare_val a ty b =
     (if ty = E_EQUAL then (if a = b then tri_yes else tri_no)
      else (if a = b then tri_no else tri_yes))"

lemma compare_val_not:
  "a \<noteq> tri_mod \<Longrightarrow> b \<noteq> tri_mod \<Longrightarrow> ty = E_EQUAL \<or> ty = E_UNEQUAL \<Longrightarrow>
   compare_val (EXPR_NOT a) ty b = compare_val a (if ty = E_EQUAL then E_UNEQUAL else E_EQUAL) b"
  by (cases a; cases b) (auto simp: compare_val_def)

lemma compare_val_min_max:
  "compare_val (min a b) E_EQUAL tri_yes = min (compare_val a E_EQUAL tri_yes) (compare_val b E_EQUAL tri_yes)"
  "compare_val (max a b) E_EQUAL tri_yes = max (compare_val a E_EQUAL tri_yes) (compare_val b E_EQUAL tri_yes)"
  "compare_val (min a b) E_EQUAL tri_no = max (compare_val a E_EQUAL tri_no) (compare_val b E_EQUAL tri_no)"
  "compare_val (max a b) E_EQUAL tri_no = min (compare_val a E_EQUAL tri_no) (compare_val b E_EQUAL tri_no)"
  by (cases a; cases b; simp add: compare_val_def min_def max_def)+

lemma compare_val_unequal: "compare_val a E_UNEQUAL b = EXPR_NOT (compare_val a E_EQUAL b)"
  by (simp add: compare_val_def)

lemma two_valued_not_mod:
  assumes "two_valued V" and "symbol_mod \<notin> tested_syms e"
  shows "expr_val V e \<noteq> tri_mod"
  using assms(2)
proof (induction e)
  case (e_or l r)
  then have "expr_val V l \<noteq> tri_mod" "expr_val V r \<noteq> tri_mod" by simp_all
  then show ?case by (simp add: tri_simps max_def)
next
  case (e_and l r)
  then have "expr_val V l \<noteq> tri_mod" "expr_val V r \<noteq> tri_mod" by simp_all
  then show ?case by (simp add: tri_simps min_def)
next
  case (e_not e)
  then show ?case by (cases "expr_val V e") auto
qed (use assms(1) in \<open>auto simp: two_valued_def\<close>)

lemma expr_trans_compare1_val:
  assumes V: "valuation_ok sy V" "two_valued V" and s: "s = symbol_yes \<or> s = symbol_no"
  shows "dep_expr e \<Longrightarrow> symbol_mod \<notin> tested_syms e \<Longrightarrow>
    (\<And>x. x \<in> tested_syms e \<Longrightarrow> snd (V x) = tri_string (fst (V x))) \<Longrightarrow>
    ty = E_EQUAL \<or> ty = E_UNEQUAL \<Longrightarrow>
    \<exists>e'. expr_trans_compare1 e ty s = Some e' \<and>
      expr_val V e' = compare_val (expr_val V e) ty (fst (V s))"
proof (induction e arbitrary: ty)
  note vs = valuation_ok_consts [OF V(1)]
  case (e_or l r)
  obtain l' r' where
    "expr_trans_compare1 l E_EQUAL s = Some l'" "expr_trans_compare1 r E_EQUAL s = Some r'"
    and "expr_val V l' = compare_val (expr_val V l) E_EQUAL (fst (V s))"
    "expr_val V r' = compare_val (expr_val V r) E_EQUAL (fst (V s))"
    using e_or.IH [of E_EQUAL] e_or.prems by auto
  then show ?case
    using s vs e_or.prems(4)
    by (auto simp: negate_if_unequal_def tri_simps compare_val_min_max compare_val_unequal)
next
  note vs = valuation_ok_consts [OF V(1)]
  case (e_and l r)
  obtain l' r' where
    "expr_trans_compare1 l E_EQUAL s = Some l'" "expr_trans_compare1 r E_EQUAL s = Some r'"
    and "expr_val V l' = compare_val (expr_val V l) E_EQUAL (fst (V s))"
    "expr_val V r' = compare_val (expr_val V r) E_EQUAL (fst (V s))"
    using e_and.IH [of E_EQUAL] e_and.prems by auto
  then show ?case
    using s vs e_and.prems(4)
    by (auto simp: negate_if_unequal_def tri_simps compare_val_min_max compare_val_unequal)
next
  note vs = valuation_ok_consts [OF V(1)]
  case (e_not e)
  have "expr_val V e \<noteq> tri_mod" using two_valued_not_mod [OF V(2)] e_not.prems by simp
  moreover have "fst (V s) \<noteq> tri_mod" using s vs by auto
  ultimately show ?case
    using e_not.IH [of "if ty = E_EQUAL then E_UNEQUAL else E_EQUAL"] e_not.prems
    by (simp add: compare_val_not)
next
  note vs = valuation_ok_consts [OF V(1)]
  case (e_equal a b)
  then show ?case using s vs by (auto simp: compare_val_def)
next
  note vs = valuation_ok_consts [OF V(1)]
  case (e_unequal a b)
  then show ?case using s vs by (auto simp: compare_val_def)
next
  note vs = valuation_ok_consts [OF V(1)]
  case (e_symbol x)
  have "snd (V s) = tri_string (fst (V s))" using s vs by auto
  moreover have "snd (V x) = tri_string (fst (V x))" using e_symbol.prems(3) by simp
  ultimately show ?case
    using e_symbol.prems(4) by (auto simp: compare_val_def)
qed simp_all

lemma expr_trans_compare_val:
  assumes "valuation_ok sy V" "two_valued V" "s = symbol_yes \<or> s = symbol_no"
    and "\<And>e. oe = Some e \<Longrightarrow> dep_expr e \<and> symbol_mod \<notin> tested_syms e \<and>
      (\<forall>x \<in> tested_syms e. snd (V x) = tri_string (fst (V x)))"
    and "ty = E_EQUAL \<or> ty = E_UNEQUAL"
  shows "\<exists>e'. expr_trans_compare oe ty s = Some e' \<and>
    expr_val V e' = compare_val (expr_val_opt V oe) ty (fst (V s))"
proof (cases oe)
  case None
  then show ?thesis
    using assms(3,5) valuation_ok_consts [OF assms(1)]
    by (auto simp: negate_if_unequal_def compare_val_def)
next
  case (Some e)
  then show ?thesis
    using expr_trans_compare1_val [OF assms(1-3), of e ty] assms(4) [OF Some] assms(5) by simp
qed

section \<open>Occurrence of a symbol\<close>

fun expr_contains_symbol1 :: "expr \<Rightarrow> sym \<Rightarrow> bool" where
  "expr_contains_symbol1 (e_and l r) s = (expr_contains_symbol1 l s \<or> expr_contains_symbol1 r s)"
| "expr_contains_symbol1 (e_or l r) s = (expr_contains_symbol1 l s \<or> expr_contains_symbol1 r s)"
| "expr_contains_symbol1 (e_symbol x) s = (x = s)"
| "expr_contains_symbol1 (e_equal a b) s = (a = s \<or> b = s)"
| "expr_contains_symbol1 (e_unequal a b) s = (a = s \<or> b = s)"
| "expr_contains_symbol1 (e_not e) s = expr_contains_symbol1 e s"
| "expr_contains_symbol1 _ s = False"

fun expr_contains_symbol :: "expr option \<Rightarrow> sym \<Rightarrow> bool" where
  "expr_contains_symbol None s = False"
| "expr_contains_symbol (Some e) s = expr_contains_symbol1 e s"

fun expr_depends_symbol1 :: "expr \<Rightarrow> sym \<Rightarrow> bool" where
  "expr_depends_symbol1 (e_and l r) s = (expr_depends_symbol1 l s \<or> expr_depends_symbol1 r s)"
| "expr_depends_symbol1 (e_symbol x) s = (x = s)"
| "expr_depends_symbol1 (e_equal a b) s = (a = s \<and> (b = symbol_yes \<or> b = symbol_mod))"
| "expr_depends_symbol1 (e_unequal a b) s = (a = s \<and> b = symbol_no)"
| "expr_depends_symbol1 _ s = False"

fun expr_depends_symbol :: "expr option \<Rightarrow> sym \<Rightarrow> bool" where
  "expr_depends_symbol None s = False"
| "expr_depends_symbol (Some e) s = expr_depends_symbol1 e s"

text \<open>Only the symbols an expression contains decide its value.\<close>

lemma expr_contains_val:
  "(\<And>s. expr_contains_symbol1 e s \<Longrightarrow> V s = W s) \<Longrightarrow> expr_val V e = expr_val W e"
  by (induction e) auto

lemma expr_contains_val_opt:
  "(\<And>s. expr_contains_symbol oe s \<Longrightarrow> V s = W s) \<Longrightarrow> expr_val_opt V oe = expr_val_opt W oe"
  by (cases oe) (auto intro: expr_contains_val)

lemma expr_depends_contains: "expr_depends_symbol1 e s \<Longrightarrow> expr_contains_symbol1 e s"
  by (induction e) auto

lemma expr_depends_val:
  assumes "valuation_ok sy V" and "snd (V s) = tri_string (fst (V s))"
  shows "expr_depends_symbol1 e s \<Longrightarrow> expr_val V e \<noteq> tri_no \<Longrightarrow> fst (V s) \<noteq> tri_no"
proof (induction e)
  case (e_and l r)
  then have "expr_val V l \<noteq> tri_no" "expr_val V r \<noteq> tri_no"
    by (auto simp: tri_simps min_def split: if_splits)
  with e_and show ?case by auto
qed (use assms valuation_ok_consts [OF assms(1)] in \<open>auto split: if_splits\<close>)

end
