(* ===== verification/ExprJoin.thy ===== *)
theory ExprJoin
  imports ExprTransform
begin

text \<open>
  \<^verbatim>\<open>expr_join_or\<close> and \<^verbatim>\<open>expr_join_and\<close> of \<^verbatim>\<open>expr.c\<close>: two expressions over the same
  bool or tristate symbol, joined into one if a rule applies (\<open>None\<close> for NULL). The rules
  are sound in the three-valued logic: \<open>expr_join_or_cases\<close> and \<open>expr_join_and_cases\<close> list
  them by shape, and each is checked on the three values of the symbol.
\<close>

text \<open>The symbol each side is about: the first tests of both functions. The left side may be
  a negated comparison, the right side only a negated symbol.\<close>

fun join_sym1 :: "expr \<Rightarrow> sym option" where
  "join_sym1 (e_equal a b) = Some a"
| "join_sym1 (e_unequal a b) = Some a"
| "join_sym1 (e_symbol a) = Some a"
| "join_sym1 (e_not (e_equal a b)) = Some a"
| "join_sym1 (e_not (e_unequal a b)) = Some a"
| "join_sym1 (e_not (e_symbol a)) = Some a"
| "join_sym1 _ = None"

fun join_sym2 :: "expr \<Rightarrow> sym option" where
  "join_sym2 (e_equal a b) = Some a"
| "join_sym2 (e_unequal a b) = Some a"
| "join_sym2 (e_symbol a) = Some a"
| "join_sym2 (e_not (e_symbol a)) = Some a"
| "join_sym2 _ = None"

fun is_eq_to :: "expr \<Rightarrow> sym \<Rightarrow> bool" where
  "is_eq_to (e_equal a b) c = (b = c)"
| "is_eq_to _ c = False"

fun is_ne_to :: "expr \<Rightarrow> sym \<Rightarrow> bool" where
  "is_ne_to (e_unequal a b) c = (b = c)"
| "is_ne_to _ c = False"

fun is_not_symbol :: "expr \<Rightarrow> bool" where
  "is_not_symbol (e_not (e_symbol a)) = True"
| "is_not_symbol _ = False"

abbreviation either_order :: "(expr \<Rightarrow> bool) \<Rightarrow> (expr \<Rightarrow> bool) \<Rightarrow> expr \<Rightarrow> expr \<Rightarrow> bool" where
  "either_order P Q e1 e2 \<equiv> (P e1 \<and> Q e2) \<or> (Q e1 \<and> P e2)"

definition expr_join_or :: "(sym \<Rightarrow> symbol) \<Rightarrow> expr \<Rightarrow> expr \<Rightarrow> expr option" where
  "expr_join_or sy e1 e2 =
     (if expr_eq e1 e2 then Some e1
      else case (join_sym1 e1, join_sym2 e2) of
        (Some sym1, Some sym2) \<Rightarrow>
          if sym1 \<noteq> sym2 then None
          else if s_type (sy sym1) \<noteq> S_BOOLEAN \<and> s_type (sy sym1) \<noteq> S_TRISTATE then None
          else if s_type (sy sym1) = S_TRISTATE \<and>
            either_order (\<lambda>e. is_eq_to e symbol_yes) (\<lambda>e. is_eq_to e symbol_mod) e1 e2
          then Some (expr_alloc_comp E_UNEQUAL sym1 symbol_no)
          else if s_type (sy sym1) = S_TRISTATE \<and>
            either_order (\<lambda>e. is_eq_to e symbol_yes) (\<lambda>e. is_eq_to e symbol_no) e1 e2
          then Some (expr_alloc_comp E_UNEQUAL sym1 symbol_mod)
          else if s_type (sy sym1) = S_TRISTATE \<and>
            either_order (\<lambda>e. is_eq_to e symbol_mod) (\<lambda>e. is_eq_to e symbol_no) e1 e2
          then Some (expr_alloc_comp E_UNEQUAL sym1 symbol_yes)
          else if s_type (sy sym1) = S_BOOLEAN \<and>
            either_order is_not_symbol (\<lambda>e. etype e = E_SYMBOL) e1 e2
          then Some (e_symbol symbol_yes)
          else None
      | _ \<Rightarrow> None)"

text \<open>The constants in the rule \<^verbatim>\<open>(a='b') && (a!='c')\<close> must both be SYMBOL_CONST.\<close>

fun join_eq_ne :: "(sym \<Rightarrow> symbol) \<Rightarrow> expr \<Rightarrow> expr \<Rightarrow> expr option" where
  "join_eq_ne sy (e_equal a b) (e_unequal a' c) =
     (if SYMBOL_CONST \<in> s_flags (sy c) \<and> SYMBOL_CONST \<in> s_flags (sy b)
      then Some (if b \<noteq> c then expr_alloc_comp E_EQUAL a b else e_symbol symbol_no)
      else None)"
| "join_eq_ne sy _ _ = None"

definition expr_join_and :: "(sym \<Rightarrow> symbol) \<Rightarrow> expr \<Rightarrow> expr \<Rightarrow> expr option" where
  "expr_join_and sy e1 e2 =
     (if expr_eq e1 e2 then Some e1
      else case (join_sym1 e1, join_sym2 e2) of
        (Some sym1, Some sym2) \<Rightarrow>
          if sym1 \<noteq> sym2 then None
          else if s_type (sy sym1) \<noteq> S_BOOLEAN \<and> s_type (sy sym1) \<noteq> S_TRISTATE then None
          else if either_order (\<lambda>e. etype e = E_SYMBOL) (\<lambda>e. is_eq_to e symbol_yes) e1 e2
          then Some (expr_alloc_comp E_EQUAL sym1 symbol_yes)
          else if either_order (\<lambda>e. etype e = E_SYMBOL) (\<lambda>e. is_ne_to e symbol_no) e1 e2
          then Some (e_symbol sym1)
          else if either_order (\<lambda>e. etype e = E_SYMBOL) (\<lambda>e. is_ne_to e symbol_mod) e1 e2
          then Some (expr_alloc_comp E_EQUAL sym1 symbol_yes)
          else if s_type (sy sym1) \<noteq> S_TRISTATE then None
          else if join_eq_ne sy e1 e2 \<noteq> None then join_eq_ne sy e1 e2
          else if join_eq_ne sy e2 e1 \<noteq> None then join_eq_ne sy e2 e1
          else if either_order (\<lambda>e. is_ne_to e symbol_yes) (\<lambda>e. is_ne_to e symbol_no) e1 e2
          then Some (expr_alloc_comp E_EQUAL sym1 symbol_mod)
          else if either_order (\<lambda>e. is_ne_to e symbol_yes) (\<lambda>e. is_ne_to e symbol_mod) e1 e2
          then Some (expr_alloc_comp E_EQUAL sym1 symbol_no)
          else if either_order (\<lambda>e. is_ne_to e symbol_mod) (\<lambda>e. is_ne_to e symbol_no) e1 e2
          then Some (expr_alloc_comp E_EQUAL sym1 symbol_yes)
          else None
      | _ \<Rightarrow> None)"

lemma join_string_cases:
  assumes "valuation_ok sy V" "s_type (sy a) = S_BOOLEAN \<or> s_type (sy a) = S_TRISTATE"
  obtains "V a = (tri_no, ''n'')" | "V a = (tri_mod, ''m'')" | "V a = (tri_yes, ''y'')"
  using valuation_ok_string [OF assms] by (cases "V a"; cases "fst (V a)") auto

lemma join_shapes1:
  assumes "join_sym1 e = Some a"
  shows "is_eq_to e c \<longleftrightarrow> e = e_equal a c" "is_ne_to e c \<longleftrightarrow> e = e_unequal a c"
    "is_not_symbol e \<longleftrightarrow> e = e_not (e_symbol a)" "etype e = E_SYMBOL \<longleftrightarrow> e = e_symbol a"
  using assms by (auto elim: join_sym1.elims)

lemma join_shapes2:
  assumes "join_sym2 e = Some a"
  shows "is_eq_to e c \<longleftrightarrow> e = e_equal a c" "is_ne_to e c \<longleftrightarrow> e = e_unequal a c"
    "is_not_symbol e \<longleftrightarrow> e = e_not (e_symbol a)" "etype e = E_SYMBOL \<longleftrightarrow> e = e_symbol a"
  using assms by (auto elim: join_sym2.elims)

lemma join_eq_ne_SomeE:
  assumes "join_eq_ne sy e1 e2 = Some e"
  obtains a b a' c where "e1 = e_equal a b" "e2 = e_unequal a' c"
    "SYMBOL_CONST \<in> s_flags (sy b)" "SYMBOL_CONST \<in> s_flags (sy c)"
    "e = (if b \<noteq> c then e_equal a b else e_symbol symbol_no)"
  using assms by (cases "(sy, e1, e2)" rule: join_eq_ne.cases) (auto split: if_splits)

text \<open>The values a comparison of a bool or tristate symbol with a constant can have.\<close>

lemma compare_const_vals:
  assumes V: "valuation_ok sy V" and a: "s_type (sy a) = S_BOOLEAN \<or> s_type (sy a) = S_TRISTATE"
  shows "expr_val V (e_equal a symbol_yes) = (if fst (V a) = tri_yes then tri_yes else tri_no)"
    "expr_val V (e_equal a symbol_mod) = (if fst (V a) = tri_mod then tri_yes else tri_no)"
    "expr_val V (e_equal a symbol_no) = (if fst (V a) = tri_no then tri_yes else tri_no)"
    "expr_val V (e_unequal a symbol_yes) = (if fst (V a) = tri_yes then tri_no else tri_yes)"
    "expr_val V (e_unequal a symbol_mod) = (if fst (V a) = tri_mod then tri_no else tri_yes)"
    "expr_val V (e_unequal a symbol_no) = (if fst (V a) = tri_no then tri_no else tri_yes)"
  using valuation_ok_string [OF V a] valuation_ok_consts [OF V] by (cases "fst (V a)"; simp)+

text \<open>The rules of the code as cases: which rule fired, on which shapes.\<close>

lemma expr_join_or_cases:
  assumes j: "expr_join_or sy e1 e2 = Some e" and ne: "\<not> expr_eq e1 e2"
    and a: "join_sym1 e1 = Some a" "join_sym2 e2 = Some a"
  shows "
    (either_order (\<lambda>e. e = e_equal a symbol_yes) (\<lambda>e. e = e_equal a symbol_mod) e1 e2 \<and>
       e = e_unequal a symbol_no) \<or>
    (either_order (\<lambda>e. e = e_equal a symbol_yes) (\<lambda>e. e = e_equal a symbol_no) e1 e2 \<and>
       e = e_unequal a symbol_mod) \<or>
    (either_order (\<lambda>e. e = e_equal a symbol_mod) (\<lambda>e. e = e_equal a symbol_no) e1 e2 \<and>
       e = e_unequal a symbol_yes) \<or>
    (s_type (sy a) = S_BOOLEAN \<and> e = e_symbol symbol_yes \<and>
     either_order (\<lambda>e. e = e_not (e_symbol a)) (\<lambda>e. e = e_symbol a) e1 e2)"
  using j ne unfolding expr_join_or_def join_shapes1 [OF a(1)] join_shapes2 [OF a(2)] a option.case prod.case
  by (simp split: if_split_asm)

lemma expr_join_or_val:
  assumes V: "valuation_ok sy V" and j: "expr_join_or sy e1 e2 = Some e"
  shows "expr_val V e = max (expr_val V e1) (expr_val V e2)"
proof (cases "expr_eq e1 e2")
  case True
  with j expr_eq_sound [OF V True] show ?thesis by (simp add: expr_join_or_def)
next
  case False
  with j obtain a where a: "join_sym1 e1 = Some a" "join_sym2 e2 = Some a"
    and ty: "s_type (sy a) = S_BOOLEAN \<or> s_type (sy a) = S_TRISTATE"
    by (auto simp: expr_join_or_def split: option.splits if_splits)
  note vals = compare_const_vals [OF V ty]
  have b: "s_type (sy a) = S_BOOLEAN \<Longrightarrow> fst (V a) = tri_no \<or> fst (V a) = tri_yes"
    using valuation_ok_bool [OF V] by fastforce
  have y: "fst (V symbol_yes) = tri_yes" using valuation_ok_consts [OF V] by simp
  show ?thesis
    using expr_join_or_cases [OF j False a] b
    by (elim disjE conjE) (auto simp: vals y simp del: expr_val.simps(5,6), (cases "fst (V a)"; simp)+)
qed

lemma expr_join_and_cases:
  assumes j: "expr_join_and sy e1 e2 = Some e" and ne: "\<not> expr_eq e1 e2"
    and a: "join_sym1 e1 = Some a" "join_sym2 e2 = Some a"
  shows "(join_eq_ne sy e1 e2 = Some e \<or> join_eq_ne sy e2 e1 = Some e) \<or>
    (either_order (\<lambda>e. e = e_symbol a) (\<lambda>e. e = e_equal a symbol_yes) e1 e2 \<and>
       e = e_equal a symbol_yes) \<or>
    (either_order (\<lambda>e. e = e_symbol a) (\<lambda>e. e = e_unequal a symbol_no) e1 e2 \<and>
       e = e_symbol a) \<or>
    (either_order (\<lambda>e. e = e_symbol a) (\<lambda>e. e = e_unequal a symbol_mod) e1 e2 \<and>
       e = e_equal a symbol_yes) \<or>
    (either_order (\<lambda>e. e = e_unequal a symbol_yes) (\<lambda>e. e = e_unequal a symbol_no) e1 e2 \<and>
       e = e_equal a symbol_mod) \<or>
    (either_order (\<lambda>e. e = e_unequal a symbol_yes) (\<lambda>e. e = e_unequal a symbol_mod) e1 e2 \<and>
       e = e_equal a symbol_no) \<or>
    (either_order (\<lambda>e. e = e_unequal a symbol_mod) (\<lambda>e. e = e_unequal a symbol_no) e1 e2 \<and>
       e = e_equal a symbol_yes)"
  using j ne unfolding expr_join_and_def join_shapes1 [OF a(1)] join_shapes2 [OF a(2)] a option.case prod.case
  by (simp split: if_split_asm)

text \<open>The rule on two constants rests on the symbol table: distinct constant symbols have
  distinct strings.\<close>

lemma join_eq_ne_val:
  assumes V: "valuation_ok sy V" and j: "join_eq_ne sy e1 e2 = Some e"
    and a: "join_sym1 e1 = Some a \<or> join_sym2 e1 = Some a" "join_sym1 e2 = Some a \<or> join_sym2 e2 = Some a"
  shows "expr_val V e = min (expr_val V e1) (expr_val V e2)"
  using j
proof (rule join_eq_ne_SomeE)
  fix a0 b a' c
  assume *: "e1 = e_equal a0 b" "e2 = e_unequal a' c" "SYMBOL_CONST \<in> s_flags (sy b)"
    "SYMBOL_CONST \<in> s_flags (sy c)" "e = (if b \<noteq> c then e_equal a0 b else e_symbol symbol_no)"
  moreover from this have "snd (V b) = snd (V c) \<Longrightarrow> b = c"
    using V by (auto simp: valuation_ok_def)
  moreover have "a0 = a" "a' = a" using a * by auto
  ultimately show ?thesis using valuation_ok_consts [OF V] by (cases "b = c") auto
qed

lemma expr_join_and_val:
  assumes V: "valuation_ok sy V" and j: "expr_join_and sy e1 e2 = Some e"
  shows "expr_val V e = min (expr_val V e1) (expr_val V e2)"
proof (cases "expr_eq e1 e2")
  case True
  with j expr_eq_sound [OF V True] show ?thesis by (simp add: expr_join_and_def)
next
  case False
  with j obtain a where a: "join_sym1 e1 = Some a" "join_sym2 e2 = Some a"
    and ty: "s_type (sy a) = S_BOOLEAN \<or> s_type (sy a) = S_TRISTATE"
    by (auto simp: expr_join_and_def split: option.splits if_splits)
  note vals = compare_const_vals [OF V ty]
  note ne_val = join_eq_ne_val [OF V, of e1 e2 e a] join_eq_ne_val [OF V, of e2 e1 e a]
  show ?thesis
    using expr_join_and_cases [OF j False a]
    by (elim disjE conjE; (cases "fst (V a)"; simp add: vals ne_val a min.commute del: expr_val.simps(5,6)))
qed

end
