(* ===== verification/ExprDups.thy ===== *)
theory ExprDups
  imports ExprJoin
begin

text \<open>
  Elimination of duplicate terms: \<^verbatim>\<open>expr_eliminate_dups1\<close>, \<^verbatim>\<open>expr_eliminate_dups2\<close>
  and \<^verbatim>\<open>expr_eliminate_dups\<close> of \<^verbatim>\<open>expr.c\<close>. Both walks take two pointers into the same
  tree and rewrite it in place, so the model keeps the tree and addresses its nodes by
  paths: \<^verbatim>\<open>ep1\<close> and \<^verbatim>\<open>ep2\<close> are paths, \<^verbatim>\<open>*ep\<close> is \<open>sub\<close>, an assignment to it is
  \<open>put\<close>, and the test \<^verbatim>\<open>e1 == e2\<close> compares paths. The walks take fuel;
  \<open>dups1_total\<close> and \<open>dups2_total\<close> show that \<open>dups_fuel\<close> is enough.
\<close>

section \<open>Nodes by path\<close>

datatype dir = DL | DR

fun sub :: "expr \<Rightarrow> dir list \<Rightarrow> expr" where
  "sub e [] = e"
| "sub (e_or l r) (d # p) = (if d = DL then sub l p else sub r p)"
| "sub (e_and l r) (d # p) = (if d = DL then sub l p else sub r p)"
| "sub e (d # p) = e_none"

fun put :: "expr \<Rightarrow> dir list \<Rightarrow> expr \<Rightarrow> expr" where
  "put e [] s = s"
| "put (e_or l r) (d # p) s = (if d = DL then e_or (put l p s) r else e_or l (put r p s))"
| "put (e_and l r) (d # p) s = (if d = DL then e_and (put l p s) r else e_and l (put r p s))"
| "put e (d # p) s = e"

text \<open>The paths from the root through nodes of one type only: where the walks go.\<close>

fun skel :: "expr_type \<Rightarrow> expr \<Rightarrow> dir list \<Rightarrow> bool" where
  "skel ty t [] = True"
| "skel ty t (d # p) =
     (case split_at ty t of None \<Rightarrow> False | Some (l, r) \<Rightarrow> skel ty (if d = DL then l else r) p)"

lemma skel_ConsE:
  assumes "skel ty t (d # p)"
  obtains l r where "is_conn ty" "t = expr_alloc_two ty l r" "skel ty (if d = DL then l else r) p"
  using assms by (auto split: option.splits simp: split_at_Some_iff)

lemma sub_alloc [simp]:
  "is_conn ty \<Longrightarrow> sub (expr_alloc_two ty l r) (d # p) = (if d = DL then sub l p else sub r p)"
  by (auto simp: is_conn_def)

lemma put_alloc [simp]:
  "is_conn ty \<Longrightarrow> put (expr_alloc_two ty l r) (d # p) s =
    (if d = DL then expr_alloc_two ty (put l p s) r else expr_alloc_two ty l (put r p s))"
  by (auto simp: is_conn_def)

lemma tested_alloc [simp]:
  "is_conn ty \<Longrightarrow> tested_syms (expr_alloc_two ty l r) = tested_syms l \<union> tested_syms r"
  by (auto simp: is_conn_def)

lemma yn_free_alloc:
  "is_conn ty \<Longrightarrow> yn_free (expr_alloc_two ty l r) \<Longrightarrow> yn_free l \<and> yn_free r \<and>
     l \<notin> {e_symbol symbol_yes, e_symbol symbol_no} \<and> r \<notin> {e_symbol symbol_yes, e_symbol symbol_no}"
  by (auto simp: is_conn_def)

text \<open>Induction along a skeleton path.\<close>

lemma skel_induct [consumes 1, case_names here left right]:
  assumes "skel ty t p"
    and "\<And>t. P t []"
    and "\<And>l r p. is_conn ty \<Longrightarrow> skel ty l p \<Longrightarrow> P l p \<Longrightarrow> P (expr_alloc_two ty l r) (DL # p)"
    and "\<And>l r p. is_conn ty \<Longrightarrow> skel ty r p \<Longrightarrow> P r p \<Longrightarrow> P (expr_alloc_two ty l r) (DR # p)"
  shows "P t p"
  using assms(1)
proof (induction p arbitrary: t)
  case (Cons d p)
  from Cons.prems show ?case
    by (rule skel_ConsE) (cases d; use Cons.IH assms(3,4) in simp)
qed (rule assms(2))

lemma sub_put: "skel ty t p \<Longrightarrow> sub (put t p s) p = s"
  by (induction rule: skel_induct) auto

lemma put_sub: "skel ty t p \<Longrightarrow> put t p (sub t p) = t"
  by (induction rule: skel_induct) auto

lemma size_put: "skel ty t p \<Longrightarrow> size (put t p s) + size (sub t p) = size t + size s"
  by (induction rule: skel_induct) auto

lemma skel_length: "skel ty t p \<Longrightarrow> length p + size (sub t p) \<le> size t"
  by (induction rule: skel_induct) auto

lemma tested_put: "skel ty t p \<Longrightarrow> tested_syms (put t p s) \<subseteq> tested_syms t \<union> tested_syms s"
  by (induction rule: skel_induct) auto

lemma tested_sub: "skel ty t p \<Longrightarrow> tested_syms (sub t p) \<subseteq> tested_syms t"
  by (induction rule: skel_induct) auto

lemma yn_free_put: "skel ty t p \<Longrightarrow> \<not> yn_free s \<Longrightarrow> \<not> yn_free (put t p s)"
  by (induction rule: skel_induct) (auto dest: yn_free_alloc)

lemma yn_free_put_const:
  "skel ty t p \<Longrightarrow> p \<noteq> [] \<Longrightarrow> s = e_symbol symbol_yes \<or> s = e_symbol symbol_no \<Longrightarrow>
   \<not> yn_free (put t p s)"
proof (induction rule: skel_induct)
  case (left l r p)
  then show ?case by (cases p) (auto dest: yn_free_alloc)
next
  case (right l r p)
  then show ?case by (cases p) (auto dest: yn_free_alloc)
qed simp

text \<open>A leaf of the skeleton can be exchanged without changing the skeleton.\<close>

lemma skel_leaf: "is_conn ty \<Longrightarrow> etype t \<noteq> ty \<Longrightarrow> skel ty t q \<longleftrightarrow> q = []"
  by (cases q) (auto simp: split_at_None_iff [symmetric])

lemma skel_put:
  "skel ty t p \<Longrightarrow> is_conn ty \<Longrightarrow> etype (sub t p) \<noteq> ty \<Longrightarrow> etype s \<noteq> ty \<Longrightarrow>
   skel ty (put t p s) q \<longleftrightarrow> skel ty t q"
proof (induction arbitrary: q rule: skel_induct)
  case (left l r p)
  then show ?case by (cases q) auto
next
  case (right l r p)
  then show ?case by (cases q) auto
qed (simp add: skel_leaf)

text \<open>The value splits into that of a node and that of the rest of the tree.\<close>

lemma put_val:
  "skel ty t p \<Longrightarrow> valuation_ok sy V \<Longrightarrow>
   expr_val V (put t p s) = tri_op ty (expr_val V (put t p (e_symbol (unit_sym ty)))) (expr_val V s)"
proof (induction rule: skel_induct)
  case (here t)
  show ?case by (simp add: expr_val_unit [OF here] del: expr_val.simps)
next
  case (left l r p)
  then show ?case by (simp add: expr_val_alloc_two tri_op_ac)
next
  case (right l r p)
  then show ?case by (simp add: expr_val_alloc_two tri_op_ac)
qed

text \<open>Two different leaves are independent.\<close>

lemma leaves_independent:
  "skel ty t p \<Longrightarrow> is_conn ty \<Longrightarrow> skel ty t q \<Longrightarrow> p \<noteq> q \<Longrightarrow> etype (sub t p) \<noteq> ty \<Longrightarrow>
   etype (sub t q) \<noteq> ty \<Longrightarrow> sub (put t p s) q = sub t q"
proof (induction arbitrary: q rule: skel_induct)
  case (here t)
  then show ?case by (simp add: skel_leaf)
next
  case (left l r p)
  then show ?case by (cases q) auto
next
  case (right l r p)
  then show ?case by (cases q) (auto, metis dir.exhaust)
qed

lemma put_same_val:
  assumes "skel ty t p" "valuation_ok sy V" "expr_val V s = expr_val V (sub t p)"
  shows "expr_val V (put t p s) = expr_val V t"
  by (metis assms put_val put_sub)

section \<open>\<^verbatim>\<open>expr_eliminate_dups1\<close>\<close>

definition expr_join :: "(sym \<Rightarrow> symbol) \<Rightarrow> expr_type \<Rightarrow> expr \<Rightarrow> expr \<Rightarrow> expr option" where
  "expr_join sy ty e1 e2 =
     (if ty = E_OR then expr_join_or sy e1 e2
      else if ty = E_AND then expr_join_and sy e1 e2 else None)"

text \<open>The result is the tree with the number of increments of \<^verbatim>\<open>trans_count\<close>; \<open>None\<close>
  is out of fuel.\<close>

fun expr_eliminate_dups1 ::
  "nat \<Rightarrow> (sym \<Rightarrow> symbol) \<Rightarrow> expr_type \<Rightarrow> expr \<Rightarrow> dir list \<Rightarrow> dir list \<Rightarrow> (expr \<times> nat) option" where
  "expr_eliminate_dups1 0 sy ty t p1 p2 = None"
| "expr_eliminate_dups1 (Suc n) sy ty t p1 p2 =
     (if etype (sub t p1) = ty then do {
        (t', c) \<leftarrow> expr_eliminate_dups1 n sy ty t (p1 @ [DL]) p2;
        (t'', d) \<leftarrow> expr_eliminate_dups1 n sy ty t' (p1 @ [DR]) p2;
        Some (t'', c + d) }
      else if etype (sub t p2) = ty then do {
        (t', c) \<leftarrow> expr_eliminate_dups1 n sy ty t p1 (p2 @ [DL]);
        (t'', d) \<leftarrow> expr_eliminate_dups1 n sy ty t' p1 (p2 @ [DR]);
        Some (t'', c + d) }
      else if p1 = p2 then Some (t, 0)
      else do {
        (t', c) \<leftarrow>
          (if is_conn (etype (sub t p1)) then do {
             (e, c) \<leftarrow> expr_eliminate_dups1 n sy (etype (sub t p1)) (sub t p1) [] [];
             Some (put t p1 e, c) }
           else Some (t, 0));
        case expr_join sy ty (sub t' p1) (sub t' p2) of
          None \<Rightarrow> Some (t', c)
        | Some tmp \<Rightarrow> Some (put (put t' p1 (e_symbol (unit_sym ty))) p2 tmp, c + 1) })"

text \<open>
  What a walk guarantees for the tree it returns with a count: the skeleton is the same,
  the tree is no larger and tests no new symbol, it is the same tree unless something was
  counted, and then a constant is left for \<^verbatim>\<open>expr_eliminate_yn\<close>; and its value is the
  same: in the three-valued logic (\<open>two\<close> false) or for two-valued valuations only.
\<close>

definition dups_ok ::
  "bool \<Rightarrow> (sym \<Rightarrow> symbol) \<Rightarrow> expr_type \<Rightarrow> expr \<Rightarrow> expr \<times> nat \<Rightarrow> bool" where
  "dups_ok two sy ty t res \<longleftrightarrow> (case res of (t', c) \<Rightarrow>
     (\<forall>q. skel ty t' q = skel ty t q) \<and> size t' \<le> size t \<and>
     tested_syms t' \<subseteq> tested_syms t \<union> {symbol_yes, symbol_no} \<and>
     (if c = 0 then t' = t else \<not> yn_free t') \<and>
     (\<forall>V. valuation_ok sy V \<longrightarrow> (two \<longrightarrow> two_valued V \<and> symbol_mod \<notin> tested_syms t) \<longrightarrow>
        expr_val V t' = expr_val V t))"

lemma dups_ok_refl [simp]: "dups_ok two sy ty t (t, 0)"
  by (auto simp: dups_ok_def)

lemma dups_ok_trans:
  assumes 1: "dups_ok two sy ty t (t', c)" and 2: "dups_ok two sy ty t' (t'', d)"
  shows "dups_ok two sy ty t (t'', c + d)"
proof -
  have "symbol_mod \<notin> tested_syms t \<Longrightarrow> symbol_mod \<notin> tested_syms t'"
    using 1 by (auto simp: dups_ok_def)
  moreover have "tested_syms t'' \<subseteq> tested_syms t \<union> {symbol_yes, symbol_no}"
    using 1 2 by (auto simp: dups_ok_def)
  ultimately show ?thesis using 1 2 by (simp add: dups_ok_def split: if_splits)
qed

text \<open>A node of the skeleton stays one; used to move a call's guarantee past another call.\<close>

lemma dups_ok_skel: "dups_ok two sy ty t (t', c) \<Longrightarrow> skel ty t' q = skel ty t q"
  by (simp add: dups_ok_def)

lemma skel_snoc: "skel ty t (p @ [d]) \<longleftrightarrow> skel ty t p \<and> is_conn ty \<and> etype (sub t p) = ty"
proof (induction p arbitrary: t)
  case Nil
  show ?case
    using split_at_None_iff [of ty t]
    by (cases "split_at ty t") (auto simp: split_at_Some_iff)
next
  case (Cons a p)
  show ?case
  proof (cases "split_at ty t")
    case (Some lr)
    then obtain l r where lr: "is_conn ty" "t = expr_alloc_two ty l r"
      by (cases lr) (auto simp: split_at_Some_iff)
    then show ?thesis using Cons by simp
  qed simp
qed

lemma dups_ok_put:
  assumes p: "skel ty t p" "is_conn ty" "etype (sub t p) \<noteq> ty"
    and ok: "dups_ok two sy (etype (sub t p)) (sub t p) (s, c)" and s: "etype s \<noteq> ty"
  shows "dups_ok two sy ty t (put t p s, c)"
proof -
  have "size (put t p s) \<le> size t"
    using size_put [OF p(1), of s] ok by (auto simp: dups_ok_def)
  moreover have "tested_syms (put t p s) \<subseteq> tested_syms t \<union> {symbol_yes, symbol_no}"
    using tested_put [OF p(1), of s] tested_sub [OF p(1)] ok by (auto simp: dups_ok_def)
  moreover have "if c = 0 then put t p s = t else \<not> yn_free (put t p s)"
    using ok put_sub [OF p(1)] yn_free_put [OF p(1)] by (auto simp: dups_ok_def)
  moreover have "expr_val V (put t p s) = expr_val V t"
    if "valuation_ok sy V" "two \<longrightarrow> two_valued V \<and> symbol_mod \<notin> tested_syms t" for V
    using put_same_val [OF p(1) that(1)] ok that tested_sub [OF p(1)]
    by (auto simp: dups_ok_def)
  ultimately show ?thesis
    using skel_put [OF p s] by (simp add: dups_ok_def)
qed

text \<open>The join of two leaves: its size, the symbols it tests, its value.\<close>

lemma expr_join_val:
  "valuation_ok sy V \<Longrightarrow> expr_join sy ty e1 e2 = Some e \<Longrightarrow>
   expr_val V e = tri_op ty (expr_val V e1) (expr_val V e2)"
  by (auto simp: expr_join_def expr_join_or_val expr_join_and_val split: if_splits)

lemma join_eq_ne_shape:
  "join_eq_ne sy e1 e2 = Some e \<Longrightarrow> size e = 0 \<and> \<not> is_conn (etype e) \<and> tested_syms e \<subseteq> {symbol_no}"
  by (erule join_eq_ne_SomeE) (simp add: is_conn_def)

lemma expr_join_shape:
  assumes "expr_join sy ty e1 e2 = Some e"
  shows "e = e1 \<or> (size e = 0 \<and> \<not> is_conn (etype e) \<and>
    tested_syms e \<subseteq> tested_syms e1 \<union> tested_syms e2 \<union> {symbol_yes, symbol_no})"
proof (cases "expr_eq e1 e2")
  case True
  with assms show ?thesis by (auto simp: expr_join_def expr_join_or_def expr_join_and_def split: if_splits)
next
  case ne: False
  show ?thesis
  proof (cases "ty = E_OR")
    case True
    with assms have j: "expr_join_or sy e1 e2 = Some e" by (simp add: expr_join_def)
    with ne obtain a where a: "join_sym1 e1 = Some a" "join_sym2 e2 = Some a"
      by (auto simp: expr_join_or_def split: option.splits if_splits)
    from expr_join_or_cases [OF j ne a] show ?thesis by (elim disjE conjE; simp add: is_conn_def)
  next
    case False
    with assms have j: "expr_join_and sy e1 e2 = Some e" by (simp add: expr_join_def split: if_splits)
    with ne obtain a where a: "join_sym1 e1 = Some a" "join_sym2 e2 = Some a"
      by (auto simp: expr_join_and_def split: option.splits if_splits)
    from expr_join_and_cases [OF j ne a] show ?thesis
      by (elim disjE conjE; auto dest!: join_eq_ne_shape simp: is_conn_def)
  qed
qed

text \<open>The step at two leaves.\<close>

lemma dups1_join_ok:
  assumes ty: "is_conn ty" and p: "skel ty t p1" "skel ty t p2" "p1 \<noteq> p2"
    and leaf: "etype (sub t p1) \<noteq> ty" "etype (sub t p2) \<noteq> ty"
    and j: "expr_join sy ty (sub t p1) (sub t p2) = Some tmp"
  shows "dups_ok two sy ty t (put (put t p1 (e_symbol (unit_sym ty))) p2 tmp, Suc 0)"
proof -
  let ?u = "e_symbol (unit_sym ty)"
  let ?t1 = "put t p1 ?u"
  have u: "etype ?u \<noteq> ty" "size ?u = 0" using ty by (auto simp: is_conn_def)
  have e2: "sub ?t1 p2 = sub t p2"
    by (rule leaves_independent [OF p(1) ty p(2,3) leaf])
  have p2: "skel ty ?t1 p2" using skel_put [OF p(1) ty leaf(1) u(1)] p(2) by simp
  have tmp: "etype tmp \<noteq> ty" "size tmp \<le> size (sub t p1)"
    "tested_syms tmp \<subseteq> tested_syms t \<union> {symbol_yes, symbol_no}"
    using expr_join_shape [OF j] leaf ty tested_sub [OF p(1)] tested_sub [OF p(2)]
    by (auto simp: is_conn_def)
  have e1: "sub (put ?t1 p2 tmp) p1 = ?u"
    using leaves_independent [OF p2 ty _ p(3) [symmetric]] sub_put [OF p(1)] u(1) leaf(2) e2
      skel_put [OF p(1) ty leaf(1) u(1)] p(1) by simp
  have sk: "skel ty (put ?t1 p2 tmp) q = skel ty t q" for q
    using skel_put [OF p2 ty _ tmp(1)] skel_put [OF p(1) ty leaf(1) u(1)] e2 leaf(2) by simp
  have "p1 \<noteq> []" using p leaf by (auto simp: skel_leaf [OF ty])
  then have "\<not> yn_free (put ?t1 p2 tmp)"
    using yn_free_put_const [of ty "put ?t1 p2 tmp" p1 ?u] put_sub [of ty "put ?t1 p2 tmp" p1]
      e1 sk p(1) by (cases ty) auto
  moreover have "size (put ?t1 p2 tmp) \<le> size t"
    using size_put [OF p(1), of ?u] size_put [OF p2, of tmp] u(2) tmp(2) by simp
  moreover have "tested_syms ?u \<subseteq> {symbol_yes, symbol_no}" by (cases ty) auto
  then have "tested_syms (put ?t1 p2 tmp) \<subseteq> tested_syms t \<union> {symbol_yes, symbol_no}"
    using tested_put [OF p(1), of ?u] tested_put [OF p2, of tmp] tmp(3) by blast
  moreover have "expr_val V (put ?t1 p2 tmp) = expr_val V t" if V: "valuation_ok sy V" for V
  proof -
    have "expr_val V t = tri_op ty (expr_val V ?t1) (expr_val V (sub t p1))"
      using put_val [OF p(1) V] put_sub [OF p(1)] by metis
    also have "expr_val V ?t1 = tri_op ty (expr_val V (put ?t1 p2 ?u)) (expr_val V (sub t p2))"
      using put_val [OF p2 V] put_sub [OF p2] e2 by metis
    finally show ?thesis
      using put_val [OF p2 V, of tmp] expr_join_val [OF V j] by (simp add: tri_op_ac)
  qed
  ultimately show ?thesis using sk by (simp add: dups_ok_def)
qed

lemma is_conn_etype_alloc: "is_conn (etype e) \<Longrightarrow> skel (etype e) e [DL]"
  by (cases e) (auto simp: is_conn_def)

lemma dups_ok_etype:
  "dups_ok two sy (etype e) e (e', c) \<Longrightarrow> is_conn (etype e) \<Longrightarrow> etype e' = etype e"
  using is_conn_etype_alloc [of e] skel_snoc [of "etype e" e' "[]" DL]
  by (simp add: dups_ok_def del: skel.simps)

lemma dups_ok_leaf:
  assumes "dups_ok two sy ty t (t', c)" "skel ty t p" "is_conn ty"
  shows "etype (sub t' p) = ty \<longleftrightarrow> etype (sub t p) = ty"
  using dups_ok_skel [OF assms(1), of "p @ [DL]"] dups_ok_skel [OF assms(1), of p] assms(2,3)
  by (simp add: skel_snoc)

lemma dups1_ok:
  "expr_eliminate_dups1 n sy ty t p1 p2 = Some (t', c) \<Longrightarrow> is_conn ty \<Longrightarrow>
   skel ty t p1 \<Longrightarrow> skel ty t p2 \<Longrightarrow> dups_ok two sy ty t (t', c)"
proof (induction n arbitrary: ty t p1 p2 t' c)
  case (Suc n)
  note ty = Suc.prems(2) and p = Suc.prems(3,4) and run = Suc.prems(1)
  have two_calls: "dups_ok two sy ty t (t', c)"
    if "expr_eliminate_dups1 n sy ty t q1 q2 = Some (s, a)" "skel ty t q1" "skel ty t q2"
      "expr_eliminate_dups1 n sy ty s r1 r2 = Some (t', b)" "skel ty t r1" "skel ty t r2"
      "c = a + b" for s a b q1 q2 r1 r2
  proof -
    have 1: "dups_ok two sy ty t (s, a)" using Suc.IH that ty by blast
    have "dups_ok two sy ty s (t', b)"
      using Suc.IH [OF that(4) ty] that(5,6) dups_ok_skel [OF 1] by simp
    from dups_ok_trans [OF 1 this] that(7) show ?thesis by simp
  qed
  consider "etype (sub t p1) = ty" | "etype (sub t p1) \<noteq> ty" "etype (sub t p2) = ty"
    | "etype (sub t p1) \<noteq> ty" "etype (sub t p2) \<noteq> ty" "p1 = p2"
    | "etype (sub t p1) \<noteq> ty" "etype (sub t p2) \<noteq> ty" "p1 \<noteq> p2" by blast
  then show ?case
  proof cases
    case 1
    with run obtain s a b where "expr_eliminate_dups1 n sy ty t (p1 @ [DL]) p2 = Some (s, a)"
      "expr_eliminate_dups1 n sy ty s (p1 @ [DR]) p2 = Some (t', b)" "c = a + b"
      by (auto elim!: bind_eq_SomeE)
    with two_calls 1 p ty show ?thesis by (simp add: skel_snoc)
  next
    case 2
    with run obtain s a b where "expr_eliminate_dups1 n sy ty t p1 (p2 @ [DL]) = Some (s, a)"
      "expr_eliminate_dups1 n sy ty s p1 (p2 @ [DR]) = Some (t', b)" "c = a + b"
      by (auto elim!: bind_eq_SomeE)
    with two_calls 2 p ty show ?thesis by (simp add: skel_snoc)
  next
    case 3
    with run show ?thesis by simp
  next
    case 4
    define e where "e = sub t p1"
    with run 4 obtain s a where s: "dups_ok two sy ty t (s, a)"
      and last: "(case expr_join sy ty (sub s p1) (sub s p2) of None \<Rightarrow> Some (s, a)
        | Some tmp \<Rightarrow> Some (put (put s p1 (e_symbol (unit_sym ty))) p2 tmp, a + 1)) = Some (t', c)"
    proof (cases "is_conn (etype e)")
      case True
      with run 4 e_def obtain s a where s: "expr_eliminate_dups1 n sy (etype e) e [] [] = Some (s, a)"
        and last: "(case expr_join sy ty (sub (put t p1 s) p1) (sub (put t p1 s) p2) of None \<Rightarrow> Some (put t p1 s, a)
        | Some tmp \<Rightarrow> Some (put (put (put t p1 s) p1 (e_symbol (unit_sym ty))) p2 tmp, a + 1)) = Some (t', c)"
        by (auto elim!: bind_eq_SomeE)
      have ok: "dups_ok two sy (etype e) e (s, a)" using Suc.IH [OF s True] by simp
      from that [OF dups_ok_put [OF p(1) ty, of two sy s a] last] show ?thesis
        using 4 ok dups_ok_etype [OF ok True] e_def by simp
    next
      case False
      with that [of t 0] run 4 e_def show ?thesis by simp
    qed
    show ?thesis
    proof (cases "expr_join sy ty (sub s p1) (sub s p2)")
      case None
      with last s show ?thesis by simp
    next
      case (Some tmp)
      have "dups_ok two sy ty s (put (put s p1 (e_symbol (unit_sym ty))) p2 tmp, Suc 0)"
        using dups1_join_ok [OF ty _ _ 4(3) _ _ Some] p 4 dups_ok_leaf [OF s _ ty] dups_ok_skel [OF s]
        by simp
      from dups_ok_trans [OF s this] last Some show ?thesis by simp
    qed
  qed
qed simp

text \<open>
  The fuel. A walk descends along skeleton paths, no longer than the tree, and starts a new
  walk only in a proper subtree: a tree of size \<open>k\<close> needs at most \<open>2 * k + 1\<close> nested
  calls before a walk in a smaller one.
\<close>

definition dups_fuel :: "expr \<Rightarrow> nat" where
  "dups_fuel t = 2 * (size t + 1) * (size t + 1)"

lemma leaf_not_root:
  "is_conn ty \<Longrightarrow> skel ty t p \<Longrightarrow> skel ty t q \<Longrightarrow> p \<noteq> q \<Longrightarrow> etype (sub t p) \<noteq> ty \<Longrightarrow>
   size (sub t p) < size t"
  using skel_length [of ty t p] by (cases p) (auto simp: skel_leaf)

lemma fuel_smaller:
  assumes "k < K" and "2 * (K + 1) * (K + 1) < Suc n + l" "l \<le> 2 * K"
  shows "2 * (k + 1) * (k + 1) < (n :: nat)"
proof -
  have "(k + 1) * (k + 1) \<le> K * K" using assms(1) by (intro mult_mono) auto
  moreover have "2 * (K + 1) * (K + 1) = 2 * (K * K) + 4 * K + 2" by algebra
  ultimately show ?thesis using assms by simp
qed

lemma dups1_total:
  "is_conn ty \<Longrightarrow> skel ty t p1 \<Longrightarrow> skel ty t p2 \<Longrightarrow> size t \<le> K \<Longrightarrow>
   2 * (K + 1) * (K + 1) < n + length p1 + length p2 \<Longrightarrow>
   \<exists>res. expr_eliminate_dups1 n sy ty t p1 p2 = Some res"
proof (induction n arbitrary: ty t p1 p2 K)
  case 0
  have "length p1 \<le> K" "length p2 \<le> K"
    using skel_length [OF 0(2)] skel_length [OF 0(3)] 0(4) by simp_all
  moreover have "2 * (K + 1) * (K + 1) = 2 * (K * K) + 4 * K + 2" by algebra
  ultimately have False using 0(5) by simp
  then show ?case ..
next
  case (Suc n)
  note ty = Suc.prems(1) and p = Suc.prems(2,3) and K = Suc.prems(4,5)
  have two_calls: "\<exists>s a t' b. expr_eliminate_dups1 n sy ty t q1 q2 = Some (s, a) \<and>
      expr_eliminate_dups1 n sy ty s r1 r2 = Some (t', b)"
    if "skel ty t q1" "skel ty t q2" "skel ty t r1" "skel ty t r2"
      "length q1 + length q2 = length p1 + length p2 + 1"
      "length r1 + length r2 = length p1 + length p2 + 1" for q1 q2 r1 r2
  proof -
    from Suc.IH [OF ty that(1,2) K(1)] K(2) that(5) obtain s a
      where 1: "expr_eliminate_dups1 n sy ty t q1 q2 = Some (s, a)" by fastforce
    have ok: "dups_ok False sy ty t (s, a)" by (rule dups1_ok [OF 1 ty that(1,2)])
    then have "size s \<le> K" using K(1) by (simp add: dups_ok_def)
    from Suc.IH [OF ty _ _ this, of r1 r2] that(3,4,6) K(2) dups_ok_skel [OF ok] 1
    show ?thesis by fastforce
  qed
  consider "etype (sub t p1) = ty" | "etype (sub t p1) \<noteq> ty" "etype (sub t p2) = ty"
    | "etype (sub t p1) \<noteq> ty" "etype (sub t p2) \<noteq> ty" "p1 = p2"
    | "etype (sub t p1) \<noteq> ty" "etype (sub t p2) \<noteq> ty" "p1 \<noteq> p2" by blast
  then show ?case
  proof cases
    case 1
    with two_calls [of "p1 @ [DL]" p2 "p1 @ [DR]" p2] p ty show ?thesis by (auto simp: skel_snoc)
  next
    case 2
    with two_calls [of p1 "p2 @ [DL]" p1 "p2 @ [DR]"] p ty show ?thesis by (auto simp: skel_snoc)
  next
    case 3
    then show ?thesis by simp
  next
    case 4
    let ?e = "sub t p1"
    have lp: "length p1 + length p2 \<le> 2 * K"
      using skel_length [OF p(1)] skel_length [OF p(2)] K(1) by simp
    have "size ?e < K" using leaf_not_root [OF ty p 4(3,1)] K(1) by simp
    from fuel_smaller [OF this _ lp] K(2)
    have "2 * (size ?e + 1) * (size ?e + 1) < n" by simp
    with Suc.IH [of "etype ?e" ?e "[]" "[]" "size ?e"]
    have "is_conn (etype ?e) \<Longrightarrow> \<exists>res. expr_eliminate_dups1 n sy (etype ?e) ?e [] [] = Some res"
      by simp
    with 4 show ?thesis by (cases "is_conn (etype ?e)") (auto split: option.split)
  qed
qed

section \<open>\<^verbatim>\<open>expr_eliminate_dups2\<close>\<close>

text \<open>The rules on a leaf \<open>e1\<close> that is a connective: \<open>(FOO || BAR) && (!FOO && !BAR) -> n\<close>
  and its dual. The result is the constant that replaces \<open>e1\<close>.\<close>

definition dups2_const :: "(sym \<Rightarrow> symbol) \<Rightarrow> expr \<Rightarrow> expr \<Rightarrow> sym option" where
  "dups2_const sy e1 e2 =
     (if etype e1 = E_OR then
        (case expr_extract_eq_and (expr_transform sy (e_not e1)) e2 of (tmp, tmp1, tmp2) \<Rightarrow>
           if expr_is_yes (Some tmp1) then Some symbol_no else None)
      else if etype e1 = E_AND then
        (case expr_extract_eq_or (expr_transform sy (e_not e1)) e2 of (tmp, tmp1, tmp2) \<Rightarrow>
           if expr_is_no (Some tmp1) then Some symbol_yes else None)
      else None)"

text \<open>
  Unlike in \<^verbatim>\<open>expr_eliminate_dups1\<close>, the second test has no \<^verbatim>\<open>return\<close>: after it has
  walked into both children of \<open>e2\<close>, the code goes on with the rules for \<open>e1\<close> and the
  whole of \<open>e2\<close>.
\<close>

fun expr_eliminate_dups2 ::
  "nat \<Rightarrow> (sym \<Rightarrow> symbol) \<Rightarrow> expr_type \<Rightarrow> expr \<Rightarrow> dir list \<Rightarrow> dir list \<Rightarrow> (expr \<times> nat) option" where
  "expr_eliminate_dups2 0 sy ty t p1 p2 = None"
| "expr_eliminate_dups2 (Suc n) sy ty t p1 p2 =
     (if etype (sub t p1) = ty then do {
        (t', c) \<leftarrow> expr_eliminate_dups2 n sy ty t (p1 @ [DL]) p2;
        (t'', d) \<leftarrow> expr_eliminate_dups2 n sy ty t' (p1 @ [DR]) p2;
        Some (t'', c + d) }
      else do {
        (t', c) \<leftarrow>
          (if etype (sub t p2) = ty then do {
             (s, c) \<leftarrow> expr_eliminate_dups2 n sy ty t p1 (p2 @ [DL]);
             (s', d) \<leftarrow> expr_eliminate_dups2 n sy ty s p1 (p2 @ [DR]);
             Some (s', c + d) }
           else Some (t, 0));
        if p1 = p2 then Some (t', c)
        else if is_conn (etype (sub t' p1)) then do {
          (e, d) \<leftarrow> expr_eliminate_dups2 n sy (etype (sub t' p1)) (sub t' p1) [] [];
          let s = put t' p1 e;
          case dups2_const sy (sub s p1) (sub s p2) of
            None \<Rightarrow> Some (s, c + d)
          | Some k \<Rightarrow> Some (put s p1 (e_symbol k), c + d + 1) }
        else Some (t', c) })"

lemma dups2_const_conn:
  assumes "is_conn ty" "is_conn (etype e1)" "etype e1 \<noteq> ty"
  shows "dups2_const sy e1 e2 =
    (case extract_eq_yn ty (expr_transform sy (e_not e1)) e2 of (tmp, tmp1, tmp2) \<Rightarrow>
       if tmp1 = e_symbol (unit_sym ty) then Some (unit_sym (etype e1)) else None)"
  using assms
  by (auto simp: dups2_const_def is_conn_def expr_extract_eq_and_def expr_extract_eq_or_def
      split: prod.split)

lemma skel_val_absorb:
  "skel ty t p \<Longrightarrow> tri_op ty (expr_val V t) (expr_val V (sub t p)) = expr_val V t"
proof (induction rule: skel_induct)
  case (left l r p)
  then show ?case by (simp add: expr_val_alloc_two) (metis tri_op_assoc tri_op_comm)
next
  case (right l r p)
  then show ?case by (simp add: expr_val_alloc_two) (metis tri_op_assoc tri_op_comm)
qed simp

text \<open>If the negation of \<open>e1\<close> is implied part by part by \<open>e2\<close>, its value is absorbed by
  that of \<open>e2\<close>.\<close>

lemma dups2_const_absorb:
  assumes V: "valuation_ok sy V" and ty: "is_conn ty" "is_conn (etype e1)" "etype e1 \<noteq> ty"
    and k: "dups2_const sy e1 e2 = Some k"
  shows "k = unit_sym (etype e1)"
    "tri_op ty (expr_val V e2) (EXPR_NOT (expr_val V e1)) = expr_val V e2"
proof -
  obtain tmp t1 t2 where x: "extract_eq_yn ty (expr_transform sy (e_not e1)) e2 = (tmp, t1, t2)"
    by (metis prod_cases3)
  from k x show "k = unit_sym (etype e1)"
    by (simp add: dups2_const_conn [OF ty] split: if_splits)
  have t1: "t1 = e_symbol (unit_sym ty)"
    using k x by (simp add: dups2_const_conn [OF ty] split: if_splits)
  from x show "tri_op ty (expr_val V e2) (EXPR_NOT (expr_val V e1)) = expr_val V e2"
  proof (rule extract_eq_yn_sound [OF V ty(1)])
    assume "expr_val V (expr_transform sy (e_not e1)) = tri_op ty (common_val V ty tmp) (expr_val V t1)"
      and e2: "expr_val V e2 = tri_op ty (common_val V ty tmp) (expr_val V t2)"
    then have "EXPR_NOT (expr_val V e1) = common_val V ty tmp"
      using t1 unit_sym_val [OF V] expr_transform_val [OF V]
      by (simp del: expr_transform.simps expr_val.simps(1))
    with e2 show ?thesis by (simp add: tri_op_ac)
  qed
qed

lemma two_valued_contradiction:
  "x \<noteq> tri_mod \<Longrightarrow> is_conn ty \<Longrightarrow> is_conn ty' \<Longrightarrow> ty' \<noteq> ty \<Longrightarrow>
   tri_op ty a (tri_op ty x (EXPR_NOT x)) = unit_val ty'"
  by (cases x) (auto simp: is_conn_def unit_val_def)

lemma dups2_const_ok:
  assumes ty: "is_conn ty" and p: "skel ty t p1" "skel ty t p2" "p1 \<noteq> p2"
    and leaf: "etype (sub t p1) \<noteq> ty" "is_conn (etype (sub t p1))"
    and k: "dups2_const sy (sub t p1) (sub t p2) = Some k"
  shows "dups_ok True sy ty t (put t p1 (e_symbol k), Suc 0)"
proof -
  let ?e1 = "sub t p1" and ?k = "e_symbol k"
  have root: "p1 \<noteq> []" using p leaf(1) by (auto simp: skel_leaf [OF ty])
  have kk: "k = unit_sym (etype ?e1)"
    using k by (auto simp: dups2_const_conn [OF ty leaf(2,1)] split: prod.splits if_splits)
  then have k_const: "k = symbol_yes \<or> k = symbol_no" by (cases "etype ?e1") auto
  have k_leaf: "etype ?k \<noteq> ty" using ty by (auto simp: is_conn_def)
  have "expr_val V (put t p1 ?k) = expr_val V t"
    if V: "valuation_ok sy V" and two: "two_valued V" "symbol_mod \<notin> tested_syms t" for V
  proof -
    let ?x = "expr_val V ?e1"
    have x: "?x \<noteq> tri_mod"
      using two_valued_not_mod [OF two(1)] two(2) tested_sub [OF p(1)] by blast
    have "expr_val V t = tri_op ty (expr_val V t) (tri_op ty ?x (EXPR_NOT ?x))"
      using skel_val_absorb [OF p(1), of V] skel_val_absorb [OF p(2), of V]
        dups2_const_absorb(2) [OF V ty leaf(2,1) k] by (metis tri_op_assoc)
    then have "expr_val V t = unit_val (etype ?e1)"
      using two_valued_contradiction [OF x ty leaf(2,1)] by metis
    moreover have "expr_val V (put t p1 ?k) = unit_val (etype ?e1)"
    proof -
      have "tri_op ty a (unit_val (etype ?e1)) = unit_val (etype ?e1)" for a
        using ty leaf by (auto simp: is_conn_def unit_val_def)
      then show ?thesis
        using put_val [OF p(1) V, of ?k] unit_sym_val [OF V, of "etype ?e1"] kk by simp
    qed
    ultimately show ?thesis by simp
  qed
  moreover have "size (put t p1 ?k) \<le> size t" using size_put [OF p(1), of ?k] by simp
  moreover have "tested_syms (put t p1 ?k) \<subseteq> tested_syms t \<union> {symbol_yes, symbol_no}"
    using tested_put [OF p(1), of ?k] k_const by auto
  moreover have "\<not> yn_free (put t p1 ?k)"
    using yn_free_put_const [OF p(1) root] k_const by blast
  ultimately show ?thesis
    using skel_put [OF p(1) ty leaf(1) k_leaf] by (simp add: dups_ok_def)
qed

lemma dups2_ok:
  "expr_eliminate_dups2 n sy ty t p1 p2 = Some (t', c) \<Longrightarrow> is_conn ty \<Longrightarrow>
   skel ty t p1 \<Longrightarrow> skel ty t p2 \<Longrightarrow> dups_ok True sy ty t (t', c)"
proof (induction n arbitrary: ty t p1 p2 t' c)
  case (Suc n)
  note ty = Suc.prems(2) and p = Suc.prems(3,4) and run = Suc.prems(1)
  have two_calls: "dups_ok True sy ty t (u, a + b)"
    if "expr_eliminate_dups2 n sy ty t q1 q2 = Some (s, a)" "skel ty t q1" "skel ty t q2"
      "expr_eliminate_dups2 n sy ty s r1 r2 = Some (u, b)" "skel ty t r1" "skel ty t r2"
    for s a u b q1 q2 r1 r2
  proof -
    have 1: "dups_ok True sy ty t (s, a)" using Suc.IH that ty by blast
    have "dups_ok True sy ty s (u, b)"
      using Suc.IH [OF that(4) ty] that(5,6) dups_ok_skel [OF 1] by simp
    from dups_ok_trans [OF 1 this] show ?thesis .
  qed
  show ?case
  proof (cases "etype (sub t p1) = ty")
    case True
    with run obtain s a b where "expr_eliminate_dups2 n sy ty t (p1 @ [DL]) p2 = Some (s, a)"
      "expr_eliminate_dups2 n sy ty s (p1 @ [DR]) p2 = Some (t', b)" "c = a + b"
      by (auto elim!: bind_eq_SomeE)
    with two_calls True p ty show ?thesis by (auto simp: skel_snoc)
  next
    case False
    with run obtain s a where
      s: "(if etype (sub t p2) = ty then do {
             (s, c) \<leftarrow> expr_eliminate_dups2 n sy ty t p1 (p2 @ [DL]);
             (s', d) \<leftarrow> expr_eliminate_dups2 n sy ty s p1 (p2 @ [DR]);
             Some (s', c + d) }
           else Some (t, 0)) = Some (s, a)"
      and rest: "(if p1 = p2 then Some (s, a)
        else if is_conn (etype (sub s p1)) then do {
          (e, d) \<leftarrow> expr_eliminate_dups2 n sy (etype (sub s p1)) (sub s p1) [] [];
          let s = put s p1 e;
          case dups2_const sy (sub s p1) (sub s p2) of
            None \<Rightarrow> Some (s, a + d)
          | Some k \<Rightarrow> Some (put s p1 (e_symbol k), a + d + 1) }
        else Some (s, a)) = Some (t', c)"
      by (auto elim!: bind_eq_SomeE)
    have ok: "dups_ok True sy ty t (s, a)"
    proof (cases "etype (sub t p2) = ty")
      case True
      with s obtain u x y where "expr_eliminate_dups2 n sy ty t p1 (p2 @ [DL]) = Some (u, x)"
        "expr_eliminate_dups2 n sy ty u p1 (p2 @ [DR]) = Some (s, y)" "a = x + y"
        by (auto elim!: bind_eq_SomeE)
      with two_calls True p ty show ?thesis by (auto simp: skel_snoc)
    qed (use s in simp)
    note sk = dups_ok_skel [OF ok]
    have leaf: "etype (sub s p1) \<noteq> ty" using dups_ok_leaf [OF ok p(1) ty] False by simp
    show ?thesis
    proof (cases "p1 \<noteq> p2 \<and> is_conn (etype (sub s p1))")
      case True
      with rest obtain e d where e: "expr_eliminate_dups2 n sy (etype (sub s p1)) (sub s p1) [] [] = Some (e, d)"
        and last: "(case dups2_const sy (sub (put s p1 e) p1) (sub (put s p1 e) p2) of
            None \<Rightarrow> Some (put s p1 e, a + d)
          | Some k \<Rightarrow> Some (put (put s p1 e) p1 (e_symbol k), a + d + 1)) = Some (t', c)"
        by (auto simp: Let_def elim!: bind_eq_SomeE)
      have oe: "dups_ok True sy (etype (sub s p1)) (sub s p1) (e, d)"
        using Suc.IH [OF e] True by simp
      have ee: "etype e = etype (sub s p1)" using dups_ok_etype [OF oe] True by simp
      have in_s: "skel ty s p1" "skel ty s p2" using sk p by simp_all
      have os: "dups_ok True sy ty s (put s p1 e, d)"
        by (rule dups_ok_put [OF in_s(1) ty leaf oe]) (use ee leaf in simp)
      note os' = dups_ok_trans [OF ok os]
      show ?thesis
      proof (cases "dups2_const sy (sub (put s p1 e) p1) (sub (put s p1 e) p2)")
        case None
        with last os' show ?thesis by simp
      next
        case (Some k)
        have "dups_ok True sy ty (put s p1 e) (put (put s p1 e) p1 (e_symbol k), Suc 0)"
          using dups2_const_ok [OF ty _ _ _ _ _ Some] dups_ok_skel [OF os] in_s sub_put [OF in_s(1)]
            ee leaf True by simp
        from dups_ok_trans [OF os' this] last Some show ?thesis by simp
      qed
    qed (use rest ok in \<open>auto split: if_splits\<close>)
  qed
qed simp

lemma dups2_total:
  "is_conn ty \<Longrightarrow> skel ty t p1 \<Longrightarrow> skel ty t p2 \<Longrightarrow> size t \<le> K \<Longrightarrow>
   2 * (K + 1) * (K + 1) < n + length p1 + length p2 \<Longrightarrow>
   \<exists>res. expr_eliminate_dups2 n sy ty t p1 p2 = Some res"
proof (induction n arbitrary: ty t p1 p2 K)
  case 0
  have "length p1 \<le> K" "length p2 \<le> K"
    using skel_length [OF 0(2)] skel_length [OF 0(3)] 0(4) by simp_all
  moreover have "2 * (K + 1) * (K + 1) = 2 * (K * K) + 4 * K + 2" by algebra
  ultimately have False using 0(5) by simp
  then show ?case ..
next
  case (Suc n)
  note ty = Suc.prems(1) and p = Suc.prems(2,3) and K = Suc.prems(4,5)
  have two_calls: "\<exists>s a t' b. expr_eliminate_dups2 n sy ty t q1 q2 = Some (s, a) \<and>
      expr_eliminate_dups2 n sy ty s r1 r2 = Some (t', b) \<and> dups_ok True sy ty t (t', a + b)"
    if "skel ty t q1" "skel ty t q2" "skel ty t r1" "skel ty t r2"
      "length q1 + length q2 = length p1 + length p2 + 1"
      "length r1 + length r2 = length p1 + length p2 + 1" for q1 q2 r1 r2
  proof -
    from Suc.IH [OF ty that(1,2) K(1)] K(2) that(5) obtain s a
      where 1: "expr_eliminate_dups2 n sy ty t q1 q2 = Some (s, a)" by fastforce
    have ok: "dups_ok True sy ty t (s, a)" by (rule dups2_ok [OF 1 ty that(1,2)])
    then have K': "size s \<le> K" using K(1) by (simp add: dups_ok_def)
    have r: "skel ty s r1" "skel ty s r2" using dups_ok_skel [OF ok] that by simp_all
    from Suc.IH [OF ty r K'] that(6) K(2) obtain u b
      where 2: "expr_eliminate_dups2 n sy ty s r1 r2 = Some (u, b)" by fastforce
    from dups_ok_trans [OF ok dups2_ok [OF 2 ty r]] 1 2 show ?thesis by blast
  qed
  show ?case
  proof (cases "etype (sub t p1) = ty")
    case True
    with two_calls [of "p1 @ [DL]" p2 "p1 @ [DR]" p2] p ty show ?thesis by (auto simp: skel_snoc)
  next
    case False
    obtain s a where
      s: "(if etype (sub t p2) = ty then do {
             (s, c) \<leftarrow> expr_eliminate_dups2 n sy ty t p1 (p2 @ [DL]);
             (s', d) \<leftarrow> expr_eliminate_dups2 n sy ty s p1 (p2 @ [DR]);
             Some (s', c + d) }
           else Some (t, 0)) = Some (s, a)"
      and ok: "dups_ok True sy ty t (s, a)"
      using two_calls [of p1 "p2 @ [DL]" p1 "p2 @ [DR]"] p ty
      by (cases "etype (sub t p2) = ty") (auto simp: skel_snoc)
    have in_s: "skel ty s p1" "skel ty s p2" using dups_ok_skel [OF ok] p by simp_all
    have leaf: "etype (sub s p1) \<noteq> ty" using dups_ok_leaf [OF ok p(1) ty] False by simp
    have "\<exists>res. expr_eliminate_dups2 n sy (etype (sub s p1)) (sub s p1) [] [] = Some res"
      if ne: "p1 \<noteq> p2" and "is_conn (etype (sub s p1))"
    proof -
      have "size (sub s p1) < K"
        using leaf_not_root [OF ty in_s ne leaf] K(1) ok by (simp add: dups_ok_def)
      moreover have "length p1 + length p2 \<le> 2 * K"
        using skel_length [OF p(1)] skel_length [OF p(2)] K(1) by simp
      ultimately have "2 * (size (sub s p1) + 1) * (size (sub s p1) + 1) < n"
        using fuel_smaller [of _ K n "length p1 + length p2"] K(2) by simp
      with Suc.IH [OF that(2), of "sub s p1" "[]" "[]" "size (sub s p1)"] show ?thesis by simp
    qed
    with s False show ?thesis by (auto simp: Let_def split: option.split)
  qed
qed

declare expr_eliminate_dups1.simps [simp del] expr_eliminate_dups2.simps [simp del]

section \<open>\<^verbatim>\<open>expr_eliminate_dups\<close>\<close>

text \<open>One round of the loop: the tree and \<^verbatim>\<open>trans_count\<close> after both walks.\<close>

definition dups_round :: "(sym \<Rightarrow> symbol) \<Rightarrow> expr \<Rightarrow> (expr \<times> nat) option" where
  "dups_round sy e =
     (if is_conn (etype e) then do {
        (e', c) \<leftarrow> expr_eliminate_dups1 (Suc (dups_fuel e)) sy (etype e) e [] [];
        (e'', d) \<leftarrow> expr_eliminate_dups2 (Suc (dups_fuel e')) sy (etype e') e' [] [];
        Some (e'', c + d) }
      else Some (e, 0))"

fun dups_loop :: "nat \<Rightarrow> (sym \<Rightarrow> symbol) \<Rightarrow> expr \<Rightarrow> expr option" where
  "dups_loop 0 sy e = None"
| "dups_loop (Suc n) sy e =
     do { (e', c) \<leftarrow> dups_round sy e;
          if c = 0 then Some e' else dups_loop n sy (expr_eliminate_yn e') }"

definition expr_eliminate_dups :: "(sym \<Rightarrow> symbol) \<Rightarrow> expr \<Rightarrow> expr option" where
  "expr_eliminate_dups sy e = dups_loop (Suc (size e)) sy e"

lemma dups_round_ok:
  obtains e' c where "dups_round sy e = Some (e', c)" "dups_ok True sy (etype e) e (e', c)"
proof (cases "is_conn (etype e)")
  case True
  obtain e' c where 1: "expr_eliminate_dups1 (Suc (dups_fuel e)) sy (etype e) e [] [] = Some (e', c)"
    using dups1_total [OF True, of e "[]" "[]" "size e" "Suc (dups_fuel e)" sy]
    by (auto simp: dups_fuel_def)
  have ok: "dups_ok True sy (etype e) e (e', c)" by (rule dups1_ok [OF 1 True]) simp_all
  have e': "etype e' = etype e" by (rule dups_ok_etype [OF ok True])
  obtain e'' d where 2: "expr_eliminate_dups2 (Suc (dups_fuel e')) sy (etype e') e' [] [] = Some (e'', d)"
    using dups2_total [of "etype e'" e' "[]" "[]" "size e'" "Suc (dups_fuel e')" sy] True e'
    by (auto simp: dups_fuel_def)
  have "dups_ok True sy (etype e) e' (e'', d)" using dups2_ok [OF 2] True e' by simp
  from dups_ok_trans [OF ok this] that [of e'' "c + d"] 1 2 True show thesis
    by (simp add: dups_round_def)
next
  case False
  with that [of e 0] show thesis by (simp add: dups_round_def)
qed

text \<open>Every counted round leaves a constant, so \<^verbatim>\<open>expr_eliminate_yn\<close> shrinks the tree.\<close>

lemma eliminate_yn_less: "\<not> yn_free e \<Longrightarrow> size (expr_eliminate_yn e) < size e"
proof (induction e rule: expr_eliminate_yn.induct)
  case (1 l r)
  have "size (expr_eliminate_yn l) \<le> size l" "size (expr_eliminate_yn r) \<le> size r"
    by (rule eliminate_yn_size)+
  with 1 show ?case
    using eliminate_yn_fixed [of l] eliminate_yn_fixed [of r] by (auto simp: Let_def)
next
  case (2 l r)
  have "size (expr_eliminate_yn l) \<le> size l" "size (expr_eliminate_yn r) \<le> size r"
    by (rule eliminate_yn_size)+
  with 2 show ?case
    using eliminate_yn_fixed [of l] eliminate_yn_fixed [of r] by (auto simp: Let_def)
qed auto

text \<open>The loop, with its fuel: enough for every tree, and then independent of it.\<close>

lemma dups_loop_total:
  "size e < n \<Longrightarrow> \<exists>e'. dups_loop n sy e = Some e'"
proof (induction n arbitrary: e)
  case (Suc n)
  obtain e' c where r: "dups_round sy e = Some (e', c)" "dups_ok True sy (etype e) e (e', c)"
    by (rule dups_round_ok)
  have "size (expr_eliminate_yn e') < n" if "c \<noteq> 0"
    using r(2) that eliminate_yn_less [of e'] Suc.prems by (simp add: dups_ok_def)
  with r(1) Suc.IH [of "expr_eliminate_yn e'"] show ?case by simp
qed simp

lemma dups_loop_more: "dups_loop n sy e = Some e' \<Longrightarrow> n \<le> m \<Longrightarrow> dups_loop m sy e = Some e'"
proof (induction n arbitrary: e m)
  case (Suc n)
  then obtain k where "m = Suc k" "n \<le> k" by (cases m) auto
  with Suc show ?case by (auto elim!: bind_eq_SomeE split: if_splits)
qed simp

lemma dups_loop_enough: "size e < n \<Longrightarrow> dups_loop n sy e = expr_eliminate_dups sy e"
  using dups_loop_total [of e "Suc (size e)" sy] dups_loop_more [of "Suc (size e)" sy e _ n]
  by (auto simp: expr_eliminate_dups_def simp del: dups_loop.simps)

text \<open>The recursion of the C loop, without fuel.\<close>

lemma eliminate_dups_rec:
  "expr_eliminate_dups sy e =
     do { (e', c) \<leftarrow> dups_round sy e;
          if c = 0 then Some e' else expr_eliminate_dups sy (expr_eliminate_yn e') }"
proof -
  obtain e' c where r: "dups_round sy e = Some (e', c)" "dups_ok True sy (etype e) e (e', c)"
    by (rule dups_round_ok)
  have "size (expr_eliminate_yn e') < size e" if "c \<noteq> 0"
    using r(2) that eliminate_yn_less [of e'] by (simp add: dups_ok_def)
  with r(1) dups_loop_enough [of "expr_eliminate_yn e'" "size e" sy] show ?thesis
    by (simp add: expr_eliminate_dups_def [of sy e])
qed

lemma eliminate_yn_tested: "tested_syms (expr_eliminate_yn e) \<subseteq> tested_syms e"
  by (induction e rule: expr_eliminate_yn.induct) (auto simp: Let_def)

lemma dups_loop_val:
  assumes V: "valuation_ok sy V" "two_valued V"
  shows "dups_loop n sy e = Some e' \<Longrightarrow> symbol_mod \<notin> tested_syms e \<Longrightarrow>
    expr_val V e' = expr_val V e"
proof (induction n arbitrary: e)
  case (Suc n)
  obtain u c where r: "dups_round sy e = Some (u, c)" "dups_ok True sy (etype e) e (u, c)"
    by (rule dups_round_ok)
  then have u: "expr_val V u = expr_val V e" "symbol_mod \<notin> tested_syms u"
    using V Suc.prems(2) by (auto simp: dups_ok_def)
  show ?case
  proof (cases "c = 0")
    case True
    with Suc.prems r u show ?thesis by simp
  next
    case False
    with Suc.prems r have "dups_loop n sy (expr_eliminate_yn u) = Some e'" by simp
    from Suc.IH [OF this] u eliminate_yn_tested [of u] show ?thesis
      by (auto simp: eliminate_yn_val [OF V(1)])
  qed
qed simp

lemma eliminate_dups_total: "\<exists>e'. expr_eliminate_dups sy e = Some e'"
  using dups_loop_total [of e "Suc (size e)" sy] by (simp add: expr_eliminate_dups_def)

lemma eliminate_dups_val:
  "valuation_ok sy V \<Longrightarrow> two_valued V \<Longrightarrow> symbol_mod \<notin> tested_syms e \<Longrightarrow>
   expr_eliminate_dups sy e = Some e' \<Longrightarrow> expr_val V e' = expr_val V e"
  by (simp add: expr_eliminate_dups_def dups_loop_val del: dups_loop.simps)

text \<open>The result is a fixed point of the loop body.\<close>

lemma dups_loop_fixed:
  "dups_loop n sy e = Some e' \<Longrightarrow> dups_round sy e' = Some (e', 0)"
proof (induction n arbitrary: e)
  case (Suc n)
  obtain u c where r: "dups_round sy e = Some (u, c)" "dups_ok True sy (etype e) e (u, c)"
    by (rule dups_round_ok)
  with Suc show ?case by (cases "c = 0") (auto simp: dups_ok_def)
qed simp

lemma eliminate_dups_idem:
  "expr_eliminate_dups sy e = Some e' \<Longrightarrow> expr_eliminate_dups sy e' = Some e'"
  using dups_loop_fixed [of "Suc (size e)" sy e e'] eliminate_dups_rec [of sy e']
  by (simp add: expr_eliminate_dups_def [of sy e] del: dups_loop.simps)

end
