(* ===== verification/ExprPrint.thy ===== *)
theory ExprPrint
  imports ExprDups
begin

text \<open>
  Printing of expressions, and \<^verbatim>\<open>expr_simplify_unmet_dep\<close>, from the end of
  \<^verbatim>\<open>expr.c\<close>. \<^verbatim>\<open>expr_print\<close> hands its output to a callback piece by piece; the model
  returns the list of the calls, each a symbol (or NULL) and a string (or NULL).
\<close>

section \<open>\<^verbatim>\<open>expr_compare_type\<close>\<close>

text \<open>The cases of the \<^verbatim>\<open>switch\<close> fall through, from the type that binds tightest to the
  loosest; \<open>type_chain t\<close> is the part of the chain that a \<^verbatim>\<open>case t\<close> enters.\<close>

fun type_chain :: "expr_type \<Rightarrow> expr_type list" where
  "type_chain E_EQUAL = [E_NOT, E_AND, E_OR, E_LIST, E_NONE]"
| "type_chain E_UNEQUAL = [E_NOT, E_AND, E_OR, E_LIST, E_NONE]"
| "type_chain E_NOT = [E_AND, E_OR, E_LIST, E_NONE]"
| "type_chain E_AND = [E_OR, E_LIST, E_NONE]"
| "type_chain E_OR = [E_LIST, E_NONE]"
| "type_chain E_LIST = [E_NONE]"
| "type_chain _ = []"

definition expr_compare_type :: "expr_type \<Rightarrow> expr_type \<Rightarrow> int" where
  "expr_compare_type t1 t2 =
     (if t1 = t2 then 0 else if t2 \<in> set (type_chain t1) then 1 else -1)"

lemma compare_type_asym: "expr_compare_type t1 t2 = 1 \<Longrightarrow> expr_compare_type t2 t1 = -1"
  by (cases t1; cases t2; simp add: expr_compare_type_def)

lemma compare_type_trans:
  "expr_compare_type t1 t2 = 1 \<Longrightarrow> expr_compare_type t2 t3 = 1 \<Longrightarrow> expr_compare_type t1 t3 = 1"
  by (cases t1; cases t2; cases t3; simp add: expr_compare_type_def)

section \<open>\<^verbatim>\<open>expr_print\<close>\<close>

type_synonym piece = "sym option \<times> string option"

abbreviation lit :: "string \<Rightarrow> piece" where "lit s \<equiv> (None, Some s)"

definition left_piece :: "(sym \<Rightarrow> symbol) \<Rightarrow> sym \<Rightarrow> piece" where
  "left_piece sy s = (case s_name (sy s) of Some n \<Rightarrow> (Some s, Some n) | None \<Rightarrow> lit ''<choice>'')"

definition right_piece :: "(sym \<Rightarrow> symbol) \<Rightarrow> sym \<Rightarrow> piece" where
  "right_piece sy s = (Some s, s_name (sy s))"

definition parens :: "expr_type \<Rightarrow> expr_type \<Rightarrow> piece list \<Rightarrow> piece list" where
  "parens prevtoken ty out =
     (if expr_compare_type prevtoken ty > 0 then lit ''('' # out @ [lit '')''] else out)"

fun expr_print1 :: "(sym \<Rightarrow> symbol) \<Rightarrow> expr \<Rightarrow> expr_type \<Rightarrow> piece list" where
  "expr_print1 sy (e_symbol s) prev = parens prev E_SYMBOL [left_piece sy s]"
| "expr_print1 sy (e_not e) prev = parens prev E_NOT (lit ''!'' # expr_print1 sy e E_NOT)"
| "expr_print1 sy (e_equal a b) prev =
     parens prev E_EQUAL [left_piece sy a, lit ''='', right_piece sy b]"
| "expr_print1 sy (e_unequal a b) prev =
     parens prev E_UNEQUAL [left_piece sy a, lit ''!='', right_piece sy b]"
| "expr_print1 sy (e_or l r) prev =
     parens prev E_OR (expr_print1 sy l E_OR @ lit '' || '' # expr_print1 sy r E_OR)"
| "expr_print1 sy (e_and l r) prev =
     parens prev E_AND (expr_print1 sy l E_AND @ lit '' && '' # expr_print1 sy r E_AND)"
| "expr_print1 sy (e_list l s) prev =
     parens prev E_LIST (right_piece sy s #
       (case l of None \<Rightarrow> [] | Some l' \<Rightarrow> lit '' ^ '' # expr_print1 sy l' E_LIST))"
| "expr_print1 sy (e_range a b) prev =
     parens prev E_RANGE [lit ''['', right_piece sy a, lit '' '', right_piece sy b, lit '']'']"
| "expr_print1 sy e_none prev = parens prev E_NONE [lit ''<unknown type 0>'']"

fun expr_print :: "(sym \<Rightarrow> symbol) \<Rightarrow> expr option \<Rightarrow> expr_type \<Rightarrow> piece list" where
  "expr_print sy None prev = [lit ''y'']"
| "expr_print sy (Some e) prev = expr_print1 sy e prev"

text \<open>\<^verbatim>\<open>expr_fprint\<close>: the strings, one after the other (NULL crashes in \<^verbatim>\<open>strlen\<close>).\<close>

definition expr_fprint :: "(sym \<Rightarrow> symbol) \<Rightarrow> expr option \<Rightarrow> string option" where
  "expr_fprint sy e =
     (let out = map snd (expr_print sy e E_NONE) in
      if None \<in> set out then None else Some (concat (map the out)))"

section \<open>Reading the output back\<close>

text \<open>
  The grammar of \<^verbatim>\<open>zconf.y\<close> on these pieces, by its precedences (\<^verbatim>\<open>||\<close> below
  \<^verbatim>\<open>&&\<close> below the comparisons below \<^verbatim>\<open>!\<close>, all left associative), as the language
  a recursive-descent reader accepts: \<open>reads k ts e\<close> for \<open>k\<close> = 0 an expression, 1 a
  conjunction, 2 an operand.
\<close>

inductive reads :: "nat \<Rightarrow> piece list \<Rightarrow> expr \<Rightarrow> bool" where
  rd_or: "reads 0 ts e1 \<Longrightarrow> reads 1 us e2 \<Longrightarrow> reads 0 (ts @ lit '' || '' # us) (e_or e1 e2)"
| rd_0: "reads 1 ts e \<Longrightarrow> reads 0 ts e"
| rd_and: "reads 1 ts e1 \<Longrightarrow> reads 2 us e2 \<Longrightarrow> reads 1 (ts @ lit '' && '' # us) (e_and e1 e2)"
| rd_1: "reads 2 ts e \<Longrightarrow> reads 1 ts e"
| rd_not: "reads 2 ts e \<Longrightarrow> reads 2 (lit ''!'' # ts) (e_not e)"
| rd_paren: "reads 0 ts e \<Longrightarrow> reads 2 (lit ''('' # ts @ [lit '')'']) e"
| rd_symbol: "reads 2 [(Some s, n)] (e_symbol s)"
| rd_equal: "reads 2 [(Some a, n), lit ''='', (Some b, m)] (e_equal a b)"
| rd_unequal: "reads 2 [(Some a, n), lit ''!='', (Some b, m)] (e_unequal a b)"

text \<open>Printing loses the association of a chain of the same connective only.\<close>

fun reassoc :: "expr_type \<Rightarrow> expr option \<Rightarrow> expr \<Rightarrow> expr" where
  "reassoc ty acc (e_or l r) =
     (if ty = E_OR then reassoc E_OR (Some (reassoc E_OR acc l)) r
      else case acc of None \<Rightarrow> reassoc E_OR (Some (reassoc E_OR None l)) r
        | Some a \<Rightarrow> expr_alloc_two ty a (reassoc E_OR (Some (reassoc E_OR None l)) r))"
| "reassoc ty acc (e_and l r) =
     (if ty = E_AND then reassoc E_AND (Some (reassoc E_AND acc l)) r
      else case acc of None \<Rightarrow> reassoc E_AND (Some (reassoc E_AND None l)) r
        | Some a \<Rightarrow> expr_alloc_two ty a (reassoc E_AND (Some (reassoc E_AND None l)) r))"
| "reassoc ty acc (e_not e) =
     (case acc of None \<Rightarrow> e_not (reassoc E_NONE None e)
        | Some a \<Rightarrow> expr_alloc_two ty a (e_not (reassoc E_NONE None e)))"
| "reassoc ty acc e = (case acc of None \<Rightarrow> e | Some a \<Rightarrow> expr_alloc_two ty a e)"

lemma reassoc_val:
  "(\<forall>a. acc = Some a \<longrightarrow> is_conn ty) \<Longrightarrow>
   expr_val V (reassoc ty acc e) =
     (case acc of None \<Rightarrow> expr_val V e | Some a \<Rightarrow> tri_op ty (expr_val V a) (expr_val V e))"
proof (induction ty acc e rule: reassoc.induct)
  case (1 ty acc l r)
  then show ?case
    by (cases acc) (auto simp: expr_val_alloc_two tri_simps max.assoc)
next
  case (2 ty acc l r)
  then show ?case
    by (cases acc) (auto simp: expr_val_alloc_two tri_simps min.assoc)
qed (auto simp: expr_val_alloc_two split: option.splits)

lemma reassoc_None: "reassoc ty None e = reassoc ty' None e"
  by (cases e) auto

lemma reads_up: "reads 2 ts e \<Longrightarrow> k \<le> 2 \<Longrightarrow> reads k ts e"
  using rd_0 rd_1 by (metis One_nat_def Suc_1 le_SucE le_zero_eq)

definition named :: "(sym \<Rightarrow> symbol) \<Rightarrow> bool" where
  "named sy \<longleftrightarrow> (\<forall>s. s_name (sy s) \<noteq> None)"

lemma namedD: "named sy \<Longrightarrow> \<exists>n. s_name (sy s) = Some n"
  by (simp add: named_def)

fun read_level :: "expr_type \<Rightarrow> nat" where
  "read_level E_AND = 1"
| "read_level E_NOT = 2"
| "read_level _ = 0"

text \<open>The three ways an expression is printed: on its own, after an \<^verbatim>\<open>||\<close>, after an
  \<^verbatim>\<open>&&\<close>.\<close>

definition print_reads :: "(sym \<Rightarrow> symbol) \<Rightarrow> expr \<Rightarrow> bool" where
  "print_reads sy e \<longleftrightarrow>
     (\<forall>prev \<in> {E_NONE, E_OR, E_AND, E_NOT}.
        reads (read_level prev) (expr_print1 sy e prev) (reassoc E_NONE None e)) \<and>
     (\<forall>ts a. reads 0 ts a \<longrightarrow>
        reads 0 (ts @ lit '' || '' # expr_print1 sy e E_OR) (reassoc E_OR (Some a) e)) \<and>
     (\<forall>ts a. reads 1 ts a \<longrightarrow>
        reads 1 (ts @ lit '' && '' # expr_print1 sy e E_AND) (reassoc E_AND (Some a) e))"

text \<open>An operand is read the same everywhere.\<close>

lemma print_reads_operand:
  assumes "reads 2 out (reassoc E_NONE None e)"
    and "\<And>prev. prev \<in> {E_NONE, E_OR, E_AND, E_NOT} \<Longrightarrow> expr_print1 sy e prev = out"
    and "\<And>a. reassoc E_OR (Some a) e = e_or a (reassoc E_NONE None e)"
    and "\<And>a. reassoc E_AND (Some a) e = e_and a (reassoc E_NONE None e)"
  shows "print_reads sy e"
  unfolding print_reads_def using assms reads_up [OF assms(1)]
  by (auto intro: rd_or rd_and [unfolded One_nat_def])

lemma print_reads_conn:
  assumes "print_reads sy l" "print_reads sy r"
  shows "print_reads sy (e_or l r)" "print_reads sy (e_and l r)"
proof -
  note d = assms [unfolded print_reads_def]
  let ?o = "expr_print1 sy l E_OR @ lit '' || '' # expr_print1 sy r E_OR"
  let ?a = "expr_print1 sy l E_AND @ lit '' && '' # expr_print1 sy r E_AND"
  have "reads 0 (expr_print1 sy l E_OR) (reassoc E_OR None l)"
    using d(1) reassoc_None [of E_NONE l E_OR] by simp
  then have o: "reads 0 ?o (reassoc E_NONE None (e_or l r))"
    using d(2) by simp
  have o2: "reads 2 (lit ''('' # ?o @ [lit '')'']) (reassoc E_NONE None (e_or l r))"
    by (rule rd_paren [OF o])
  have "reads 1 (expr_print1 sy l E_AND) (reassoc E_AND None l)"
    using d(1) reassoc_None [of E_NONE l E_AND] by simp
  then have a: "reads 1 ?a (reassoc E_NONE None (e_and l r))"
    using d(2) by simp
  have a2: "reads 2 (lit ''('' # ?a @ [lit '')'']) (reassoc E_NONE None (e_and l r))"
    by (rule rd_paren [OF rd_0 [OF a]])
  show "print_reads sy (e_or l r)"
    unfolding print_reads_def
  proof (intro conjI allI impI ballI)
    fix prev assume "prev \<in> {E_NONE, E_OR, E_AND, E_NOT}"
    then show "reads (read_level prev) (expr_print1 sy (e_or l r) prev) (reassoc E_NONE None (e_or l r))"
      using o o2 rd_1 by (auto simp: parens_def expr_compare_type_def)
  next
    fix ts b assume "reads 0 ts b"
    with d have "reads 0 ((ts @ lit '' || '' # expr_print1 sy l E_OR) @ lit '' || '' # expr_print1 sy r E_OR)
      (reassoc E_OR (Some (reassoc E_OR (Some b) l)) r)" by blast
    then show "reads 0 (ts @ lit '' || '' # expr_print1 sy (e_or l r) E_OR) (reassoc E_OR (Some b) (e_or l r))"
      by (simp add: parens_def expr_compare_type_def)
  next
    fix ts b assume "reads 1 ts b"
    from rd_and [OF this o2]
    show "reads 1 (ts @ lit '' && '' # expr_print1 sy (e_or l r) E_AND) (reassoc E_AND (Some b) (e_or l r))"
      by (simp add: parens_def expr_compare_type_def)
  qed
  show "print_reads sy (e_and l r)"
    unfolding print_reads_def
  proof (intro conjI allI impI ballI)
    fix prev assume "prev \<in> {E_NONE, E_OR, E_AND, E_NOT}"
    then show "reads (read_level prev) (expr_print1 sy (e_and l r) prev) (reassoc E_NONE None (e_and l r))"
      using a a2 rd_0 by (auto simp: parens_def expr_compare_type_def)
  next
    fix ts b assume "reads 1 ts b"
    with d have "reads 1 ((ts @ lit '' && '' # expr_print1 sy l E_AND) @ lit '' && '' # expr_print1 sy r E_AND)
      (reassoc E_AND (Some (reassoc E_AND (Some b) l)) r)" by blast
    then show "reads 1 (ts @ lit '' && '' # expr_print1 sy (e_and l r) E_AND) (reassoc E_AND (Some b) (e_and l r))"
      by (simp add: parens_def expr_compare_type_def)
  next
    fix ts b assume "reads 0 ts b"
    from rd_or [OF this a]
    show "reads 0 (ts @ lit '' || '' # expr_print1 sy (e_and l r) E_OR) (reassoc E_OR (Some b) (e_and l r))"
      by (simp add: parens_def expr_compare_type_def)
  qed
qed

lemma print_reads_all: "named sy \<Longrightarrow> dep_expr e \<Longrightarrow> print_reads sy e"
proof (induction e)
  case (e_not e)
  then have "reads 2 (expr_print1 sy e E_NOT) (reassoc E_NONE None e)"
    by (simp add: print_reads_def)
  from rd_not [OF this] show ?case
    by (intro print_reads_operand [where out = "lit ''!'' # expr_print1 sy e E_NOT"])
      (auto simp: parens_def expr_compare_type_def)
next
  case (e_symbol s)
  then obtain n where "s_name (sy s) = Some n" by (auto simp: named_def)
  then show ?case
    by (intro print_reads_operand [where out = "[(Some s, Some n)]"])
      (auto simp: parens_def expr_compare_type_def left_piece_def intro: rd_symbol)
next
  case (e_equal a b)
  then obtain n m where "s_name (sy a) = Some n" "s_name (sy b) = Some m"
    using namedD by meson
  then show ?case
    by (intro print_reads_operand [where out = "[(Some a, Some n), lit ''='', (Some b, Some m)]"])
      (auto simp: parens_def expr_compare_type_def left_piece_def right_piece_def intro: rd_equal)
next
  case (e_unequal a b)
  then obtain n m where "s_name (sy a) = Some n" "s_name (sy b) = Some m"
    using namedD by meson
  then show ?case
    by (intro print_reads_operand [where out = "[(Some a, Some n), lit ''!='', (Some b, Some m)]"])
      (auto simp: parens_def expr_compare_type_def left_piece_def right_piece_def intro: rd_unequal)
qed (use print_reads_conn in auto)

lemma expr_print_reads:
  assumes "named sy" "dep_expr e"
  shows "\<exists>e'. reads 0 (expr_print sy (Some e) E_NONE) e' \<and> (\<forall>V. expr_val V e' = expr_val V e)"
  using print_reads_all [OF assms] reassoc_val [of None E_NONE]
  by (intro exI [of _ "reassoc E_NONE None e"]) (simp add: print_reads_def)

section \<open>\<^verbatim>\<open>expr_simplify_unmet_dep\<close>\<close>

text \<open>\<open>None\<close>: on a comparison or a list the C loop goes on to read a symbol as an
  expression.\<close>

fun leftmost_symbol :: "expr \<Rightarrow> expr option" where
  "leftmost_symbol (e_symbol s) = Some (e_symbol s)"
| "leftmost_symbol (e_or l r) = leftmost_symbol l"
| "leftmost_symbol (e_and l r) = leftmost_symbol l"
| "leftmost_symbol (e_not e) = leftmost_symbol e"
| "leftmost_symbol _ = None"

text \<open>The outer option is undefined behaviour, the inner one NULL.\<close>

definition expr_get_leftmost_symbol :: "expr option \<Rightarrow> expr option option" where
  "expr_get_leftmost_symbol e =
     (case e of None \<Rightarrow> Some None | Some e' \<Rightarrow> map_option Some (leftmost_symbol e'))"

fun expr_simplify_unmet_dep :: "(sym \<Rightarrow> symbol) \<Rightarrow> expr \<Rightarrow> expr \<Rightarrow> expr option option" where
  "expr_simplify_unmet_dep sy (e_or l r) e2 =
     do { a \<leftarrow> expr_simplify_unmet_dep sy l e2;
          b \<leftarrow> expr_simplify_unmet_dep sy r e2;
          Some (expr_alloc_and a b) }"
| "expr_simplify_unmet_dep sy (e_and l r) e2 =
     do { e \<leftarrow> expr_eliminate_dups sy (e_and (e_and l r) e2);
          expr_get_leftmost_symbol (if \<not> expr_eq e (e_and l r) then Some (e_and l r) else None) }"
| "expr_simplify_unmet_dep sy e1 e2 = expr_get_leftmost_symbol (Some e1)"

text \<open>The reverse dependencies the code builds start with the selecting symbol, so the
  search ends.\<close>

fun rev_dep_shape :: "expr \<Rightarrow> bool" where
  "rev_dep_shape (e_or l r) = (rev_dep_shape l \<and> rev_dep_shape r)"
| "rev_dep_shape e = (leftmost_symbol e \<noteq> None)"

fun symbol_conj :: "expr \<Rightarrow> bool" where
  "symbol_conj (e_and l r) = (symbol_conj l \<and> symbol_conj r)"
| "symbol_conj (e_symbol s) = True"
| "symbol_conj _ = False"

lemma leftmost_is_symbol: "leftmost_symbol e = Some e' \<Longrightarrow> symbol_conj e'"
  by (induction e) auto

lemma simplify_unmet_dep_defined:
  "rev_dep_shape e1 \<Longrightarrow> \<exists>r. expr_simplify_unmet_dep sy e1 e2 = Some r \<and> (\<forall>e. r = Some e \<longrightarrow> symbol_conj e)"
proof (induction sy e1 e2 rule: expr_simplify_unmet_dep.induct)
  case (1 sy l r e2)
  then obtain a b where "expr_simplify_unmet_dep sy l e2 = Some a" "\<forall>e. a = Some e \<longrightarrow> symbol_conj e"
    "expr_simplify_unmet_dep sy r e2 = Some b" "\<forall>e. b = Some e \<longrightarrow> symbol_conj e" by auto
  then show ?case by (cases a; cases b) auto
next
  case (2 sy l r e2)
  obtain e where "expr_eliminate_dups sy (e_and (e_and l r) e2) = Some e"
    using eliminate_dups_total by blast
  with 2 show ?case
    by (auto simp: expr_get_leftmost_symbol_def dest: leftmost_is_symbol)
qed (auto simp: expr_get_leftmost_symbol_def dest: leftmost_is_symbol)

end
