(* ===== verification/Samples.thy ===== *)
theory Samples
  imports ExprPrint
begin

text \<open>
  Concrete symbols and valuations on which the witnesses of the expression theorems are
  evaluated: two tristate symbols, a bool and a string symbol, and their values.
\<close>

fun sample_sy :: "sym \<Rightarrow> symbol" where
  "sample_sy (Sym 0) = (fresh_symbol (Some ''A'') {}) \<lparr>s_type := S_TRISTATE\<rparr>"
| "sample_sy (Sym (Suc 0)) = (fresh_symbol (Some ''B'') {}) \<lparr>s_type := S_TRISTATE\<rparr>"
| "sample_sy (Sym (Suc (Suc 0))) = (fresh_symbol (Some ''BOOL'') {}) \<lparr>s_type := S_BOOLEAN\<rparr>"
| "sample_sy (Sym i) = (fresh_symbol (Some ''S'') {}) \<lparr>s_type := S_STRING\<rparr>"
| "sample_sy s = static_symbols s"

fun sample_val :: "tristate \<Rightarrow> tristate \<Rightarrow> valuation" where
  "sample_val a b (Sym 0) = (a, tri_string a)"
| "sample_val a b (Sym (Suc 0)) = (b, tri_string b)"
| "sample_val a b (Sym (Suc (Suc 0))) = (tri_yes, ''y'')"
| "sample_val a b (Sym i) = (tri_no, ''text'')"
| "sample_val a b symbol_yes = (tri_yes, ''y'')"
| "sample_val a b symbol_mod = (tri_mod, ''m'')"
| "sample_val a b symbol_no = (tri_no, ''n'')"
| "sample_val a b symbol_empty = (tri_no, [])"

abbreviation "sA \<equiv> Sym 0"
abbreviation "sB \<equiv> Sym (Suc 0)"
abbreviation "sBOOL \<equiv> Sym (Suc (Suc 0))"

lemma sample_type:
  "s_type (sample_sy x) \<in> {S_BOOLEAN, S_TRISTATE} \<Longrightarrow> x \<in> {sA, sB, sBOOL}"
  "s_type (sample_sy x) = S_BOOLEAN \<Longrightarrow> x = sBOOL"
  by (cases x rule: sample_sy.cases; simp add: static_symbol_simps)+

lemma sample_const:
  "SYMBOL_CONST \<in> s_flags (sample_sy x) \<Longrightarrow> x \<in> {symbol_yes, symbol_mod, symbol_no}"
  by (cases x rule: sample_sy.cases) (auto simp: static_symbol_simps)

lemma sample_ok: "valuation_ok sample_sy (sample_val a b)"
  unfolding valuation_ok_def
proof (intro conjI allI impI)
  fix x assume "s_type (sample_sy x) \<in> {S_BOOLEAN, S_TRISTATE}"
  from sample_type(1) [OF this] show "snd (sample_val a b x) = tri_string (fst (sample_val a b x))"
    by auto
next
  fix x y
  assume "SYMBOL_CONST \<in> s_flags (sample_sy x) \<and> SYMBOL_CONST \<in> s_flags (sample_sy y) \<and>
    snd (sample_val a b x) = snd (sample_val a b y)"
  then show "x = y" using sample_const [of x] sample_const [of y] by auto
qed (auto dest: sample_type(2))

lemma sample_two_valued: "a \<noteq> tri_mod \<Longrightarrow> b \<noteq> tri_mod \<Longrightarrow> two_valued (sample_val a b)"
  unfolding two_valued_def
proof (intro allI impI)
  fix x assume "fst (sample_val a b x) = tri_mod" "a \<noteq> tri_mod" "b \<noteq> tri_mod"
  then show "x = symbol_mod" by (cases x rule: sample_sy.cases) auto
qed

lemma sample_named: "named sample_sy"
  unfolding named_def
proof
  fix s show "s_name (sample_sy s) \<noteq> None"
    by (cases s rule: sample_sy.cases) (auto simp: static_symbol_simps)
qed

end
