(* ===== verification/ExprProps.thy ===== *)
theory ExprProps
  imports Samples
begin

text \<open>
  The correctness of the expression component: the theorems that the rest of kconfig relies
  on, each with a concrete instance.
\<close>

section \<open>Rewriting one expression\<close>

text \<open>C37 \<^verbatim>\<open>expr_transform\<close> keeps the value of an expression in the three-valued logic and
  pushes every negation of a dependency expression to a symbol that is no constant.\<close>

theorem transform_correct:
  assumes "valuation_ok sy V" "const_types sy" "dep_expr e"
  shows "expr_val V (expr_transform sy e) = expr_val V e \<and> nnf (expr_transform sy e)"
  using assms expr_transform_val expr_transform_nnf by blast

theorem transform_correct_witness:
  "expr_val (sample_val tri_mod tri_no)
     (expr_transform sample_sy (e_not (e_or (e_symbol sA) (e_equal sBOOL symbol_no)))) = tri_mod"
  using transform_correct [OF sample_ok [of tri_mod tri_no],
      of "e_not (e_or (e_symbol sA) (e_equal sBOOL symbol_no))"]
  by (simp add: const_types_def static_symbol_simps tri_simps max_def)

text \<open>\<^verbatim>\<open>expr_eliminate_yn\<close> keeps the value, leaves no constant y or n under a
  connective, changes nothing else (an expression without such a constant is returned as it
  is) and otherwise makes the tree smaller.\<close>

theorem eliminate_yn_correct:
  assumes "valuation_ok sy V"
  shows "expr_val V (expr_eliminate_yn e) = expr_val V e \<and> yn_free (expr_eliminate_yn e) \<and>
    (if yn_free e then expr_eliminate_yn e = e else size (expr_eliminate_yn e) < size e)"
  using eliminate_yn_val [OF assms] eliminate_yn_free eliminate_yn_fixed eliminate_yn_less by simp

theorem eliminate_yn_correct_witness:
  "size (expr_eliminate_yn (e_and (e_symbol symbol_yes) (e_symbol sA))) < 1 \<and>
   expr_val (sample_val tri_mod tri_no)
     (expr_eliminate_yn (e_and (e_symbol symbol_yes) (e_symbol sA))) = tri_mod"
  using eliminate_yn_correct [OF sample_ok [of tri_mod tri_no], of "e_and (e_symbol symbol_yes) (e_symbol sA)"]
  by (simp add: tri_simps)

section \<open>Two expressions\<close>



text \<open>\<^verbatim>\<open>expr_extract_eq_and\<close> and \<^verbatim>\<open>expr_extract_eq_or\<close> factor the common operands
  out of two expressions: each expression has the value of the common part joined with what
  is left of it, by the connective.\<close>

theorem extract_eq_correct:
  assumes V: "valuation_ok sy V"
    and a: "expr_extract_eq_and e1 e2 = (tmp, e1', e2')"
    and o: "expr_extract_eq_or f1 f2 = (tmp', f1', f2')"
  shows "expr_val V e1 = min (common_val V E_AND tmp) (expr_val V e1') \<and>
    expr_val V e2 = min (common_val V E_AND tmp) (expr_val V e2') \<and>
    expr_val V f1 = max (common_val V E_OR tmp') (expr_val V f1') \<and>
    expr_val V f2 = max (common_val V E_OR tmp') (expr_val V f2')"
proof -
  have "expr_val V e1 = min (common_val V E_AND tmp) (expr_val V e1') \<and>
      expr_val V e2 = min (common_val V E_AND tmp) (expr_val V e2')"
    using a [unfolded expr_extract_eq_and_def] by (rule extract_eq_yn_sound [OF V is_conn_simps(2)]) simp
  moreover have "expr_val V f1 = max (common_val V E_OR tmp') (expr_val V f1') \<and>
      expr_val V f2 = max (common_val V E_OR tmp') (expr_val V f2')"
    using o [unfolded expr_extract_eq_or_def] by (rule extract_eq_yn_sound [OF V is_conn_simps(1)]) simp
  ultimately show ?thesis by blast
qed

theorem extract_eq_correct_witness:
  "expr_extract_eq_and (e_and (e_symbol sA) (e_symbol sB)) (e_symbol sB) =
     (Some (e_symbol sB), e_symbol sA, e_symbol symbol_yes) \<and>
   expr_val (sample_val tri_mod tri_yes) (e_and (e_symbol sA) (e_symbol sB)) = tri_mod"
proof -
  have a: "expr_extract_eq_and (e_and (e_symbol sA) (e_symbol sB)) (e_symbol sB) =
     (Some (e_symbol sB), e_symbol sA, e_symbol symbol_yes)" by code_simp
  have o: "expr_extract_eq_or (e_symbol sA) (e_symbol sA) =
     (Some (e_symbol sA), e_symbol symbol_no, e_symbol symbol_no)" by code_simp
  show ?thesis using a extract_eq_correct [OF sample_ok [of tri_mod tri_yes] a o] by (simp add: min_def)
qed

text \<open>The join of two operands, when a rule of \<^verbatim>\<open>expr_join_or\<close> or
  \<^verbatim>\<open>expr_join_and\<close> applies, has the value of the disjunction or the conjunction in the
  three-valued logic.\<close>

theorem expr_join_correct:
  assumes "valuation_ok sy V"
  shows "(expr_join_or sy e1 e2 = Some e \<longrightarrow> expr_val V e = expr_val V (e_or e1 e2)) \<and>
    (expr_join_and sy f1 f2 = Some f \<longrightarrow> expr_val V f = expr_val V (e_and f1 f2))"
  using expr_join_or_val [OF assms] expr_join_and_val [OF assms] by (simp_all add: tri_simps)

theorem expr_join_correct_witness:
  "expr_val (sample_val tri_mod tri_no) (e_unequal sA symbol_no) =
   expr_val (sample_val tri_mod tri_no) (e_or (e_equal sA symbol_yes) (e_equal sA symbol_mod))"
proof -
  have "expr_join_or sample_sy (e_equal sA symbol_yes) (e_equal sA symbol_mod) = Some (e_unequal sA symbol_no)"
    by (simp add: expr_join_or_def static_symbol_simps)
  with expr_join_correct [OF sample_ok] show ?thesis by blast
qed

section \<open>Elimination of duplicates\<close>

text \<open>The first walk of \<^verbatim>\<open>expr_eliminate_dups\<close>, over all pairs of operands of a chain,
  returns, keeps the value in the three-valued logic, does not make the tree larger, and
  leaves the tree alone unless it counts a change.\<close>

theorem eliminate_dups1_correct:
  assumes "is_conn (etype e)"
  shows "\<exists>e' c. expr_eliminate_dups1 (Suc (dups_fuel e)) sy (etype e) e [] [] = Some (e', c) \<and>
    (\<forall>V. valuation_ok sy V \<longrightarrow> expr_val V e' = expr_val V e) \<and> size e' \<le> size e \<and>
    (c = 0 \<longrightarrow> e' = e)"
proof -
  obtain e' c where 1: "expr_eliminate_dups1 (Suc (dups_fuel e)) sy (etype e) e [] [] = Some (e', c)"
    using dups1_total [OF assms, of e "[]" "[]" "size e" "Suc (dups_fuel e)" sy]
    by (auto simp: dups_fuel_def)
  have "dups_ok False sy (etype e) e (e', c)" by (rule dups1_ok [OF 1 assms]) simp_all
  then show ?thesis using 1 by (auto simp: dups_ok_def)
qed

theorem eliminate_dups1_correct_witness:
  "\<exists>e' c. expr_eliminate_dups1 (Suc (dups_fuel (e_or (e_symbol sA) (e_symbol sA)))) sample_sy E_OR
     (e_or (e_symbol sA) (e_symbol sA)) [] [] = Some (e', c) \<and>
     expr_val (sample_val tri_mod tri_no) e' = tri_mod"
proof -
  obtain e' c where "expr_eliminate_dups1 (Suc (dups_fuel (e_or (e_symbol sA) (e_symbol sA)))) sample_sy E_OR
     (e_or (e_symbol sA) (e_symbol sA)) [] [] = Some (e', c)"
    "\<forall>V. valuation_ok sample_sy V \<longrightarrow> expr_val V e' = expr_val V (e_or (e_symbol sA) (e_symbol sA))"
    using eliminate_dups1_correct [of "e_or (e_symbol sA) (e_symbol sA)" sample_sy] by auto
  then show ?thesis using sample_ok by (auto simp: tri_simps)
qed

text \<open>C35 \<^verbatim>\<open>expr_eliminate_dups\<close> ends for every expression, keeps its value for every
  two-valued valuation (no symbol is m, and the constant m does not occur as an operand),
  and a second run changes nothing.\<close>

theorem eliminate_dups_correct:
  assumes "symbol_mod \<notin> tested_syms e"
  shows "\<exists>e'. expr_eliminate_dups sy e = Some e' \<and> expr_eliminate_dups sy e' = Some e' \<and>
    (\<forall>V. valuation_ok sy V \<longrightarrow> two_valued V \<longrightarrow> expr_val V e' = expr_val V e)"
  using eliminate_dups_total [of sy e] eliminate_dups_val [OF _ _ assms] eliminate_dups_idem [of sy e]
  by blast

definition dups_example :: expr where
  "dups_example = e_and (e_or (e_symbol sA) (e_symbol sB)) (e_and (e_not (e_symbol sA)) (e_not (e_symbol sB)))"

lemma dups_example_result: "expr_eliminate_dups sample_sy dups_example = Some (e_symbol symbol_no)"
  by code_simp

theorem eliminate_dups_correct_witness:
  "expr_val (sample_val tri_yes tri_no) dups_example = tri_no"
proof -
  have "symbol_mod \<notin> tested_syms dups_example" by (simp add: dups_example_def)
  from eliminate_dups_correct [OF this, of sample_sy] dups_example_result
  have "expr_val (sample_val tri_yes tri_no) (e_symbol symbol_no) =
      expr_val (sample_val tri_yes tri_no) dups_example"
    using sample_ok [of tri_yes tri_no] sample_two_valued [of tri_yes tri_no] by (simp del: expr_val.simps)
  then show ?thesis by simp
qed


section \<open>Comparison and printing\<close>



text \<open>C40 What \<^verbatim>\<open>expr_print\<close> prints for a dependency expression over named symbols can be
  read back by the grammar of expressions, with a result that has the same value under every
  valuation: the parentheses it prints are enough.\<close>

theorem expr_print_correct:
  assumes "named sy" "dep_expr e"
  shows "\<exists>e'. reads 0 (expr_print sy (Some e) E_NONE) e' \<and> (\<forall>V. expr_val V e' = expr_val V e)"
  by (rule expr_print_reads [OF assms])

theorem expr_print_correct_witness:
  "\<exists>e'. reads 0 (expr_print sample_sy (Some (e_not (e_or (e_symbol sA) (e_symbol sB)))) E_NONE) e'"
  using expr_print_correct [OF sample_named, of "e_not (e_or (e_symbol sA) (e_symbol sB))"] by auto

text \<open>\<^verbatim>\<open>expr_simplify_unmet_dep\<close>, which names the symbol that selects against a
  dependency, is defined (its walk to the leftmost symbol ends at a symbol) on every reverse
  dependency, and what it returns is a symbol or a conjunction of symbols.\<close>

theorem simplify_unmet_dep_correct:
  assumes "rev_dep_shape e1"
  shows "\<exists>r. expr_simplify_unmet_dep sy e1 e2 = Some r \<and> (\<forall>e. r = Some e \<longrightarrow> symbol_conj e)"
  by (rule simplify_unmet_dep_defined [OF assms])

theorem simplify_unmet_dep_correct_witness:
  "\<exists>r. expr_simplify_unmet_dep sample_sy (e_and (e_symbol sA) (e_equal sB symbol_yes)) (e_symbol sBOOL) = Some r"
  using simplify_unmet_dep_correct [of "e_and (e_symbol sA) (e_equal sB symbol_yes)" sample_sy "e_symbol sBOOL"]
  by (simp del: expr_simplify_unmet_dep.simps) blast

end
