(* ===== verification/Cstring.thy ===== *)
theory Cstring
  imports Kdata
begin

text \<open>
  The functions of the C library on strings that the programs call. A C string is the list of
  its characters before the terminating NUL. Characters are compared by code, in the C locale.
\<close>

section \<open>Character classes\<close>

definition code :: "char \<Rightarrow> nat" where
  "code c = of_char c"

definition isdigit :: "char \<Rightarrow> bool" where
  "isdigit c \<longleftrightarrow> 48 \<le> code c \<and> code c \<le> 57"

definition isspace :: "char \<Rightarrow> bool" where
  "isspace c \<longleftrightarrow> code c = 32 \<or> (9 \<le> code c \<and> code c \<le> 13)"

definition isupper :: "char \<Rightarrow> bool" where
  "isupper c \<longleftrightarrow> 65 \<le> code c \<and> code c \<le> 90"

definition islower :: "char \<Rightarrow> bool" where
  "islower c \<longleftrightarrow> 97 \<le> code c \<and> code c \<le> 122"

definition isalnum :: "char \<Rightarrow> bool" where
  "isalnum c \<longleftrightarrow> isdigit c \<or> isupper c \<or> islower c"

definition isxdigit :: "char \<Rightarrow> bool" where
  "isxdigit c \<longleftrightarrow> isdigit c \<or> (65 \<le> code c \<and> code c \<le> 70) \<or> (97 \<le> code c \<and> code c \<le> 102)"

definition tolower :: "char \<Rightarrow> char" where
  "tolower c = (if isupper c then char_of (code c + 32) else c)"

definition toupper :: "char \<Rightarrow> char" where
  "toupper c = (if islower c then char_of (code c - 32) else c)"

lemma code_char_of [simp]: "n < 256 \<Longrightarrow> code (char_of n) = n"
  by (simp add: code_def of_char_of)

lemma code_inject: "code c = code d \<longleftrightarrow> c = d"
  by (simp add: code_def)

lemma code_less: "code c < 256"
  by (simp add: code_def)

text \<open>The size of a buffer for a path, of \<^verbatim>\<open>limits.h\<close>.\<close>

definition PATH_MAX :: nat where "PATH_MAX = 4096"

section \<open>Numbers\<close>

definition digit :: "nat \<Rightarrow> char" where
  "digit d = (if d < 10 then char_of (48 + d) else char_of (87 + d))"

text \<open>The value of a digit in a base up to 16.\<close>

definition digit_val :: "nat \<Rightarrow> char \<Rightarrow> nat option" where
  "digit_val b c =
     (let d = (if isdigit c then code c - 48
               else if 97 \<le> code c \<and> code c \<le> 102 then code c - 87
               else if 65 \<le> code c \<and> code c \<le> 70 then code c - 55 else 255)
      in if d < b then Some d else None)"

fun digits :: "nat \<Rightarrow> nat \<Rightarrow> string \<Rightarrow> nat" where
  "digits b acc [] = acc"
| "digits b acc (c # s) =
     (case digit_val b c of None \<Rightarrow> acc | Some d \<Rightarrow> digits b (acc * b + d) s)"

definition LLONG_MAX :: int where "LLONG_MAX = 0x7FFFFFFFFFFFFFFF"
definition LLONG_MIN :: int where "LLONG_MIN = - 0x8000000000000000"

definition skip_0x :: "nat \<Rightarrow> string \<Rightarrow> string" where
  "skip_0x b s =
     (if b = 16 \<and> take 1 s = ''0'' \<and> (take 1 (drop 1 s) = ''x'' \<or> take 1 (drop 1 s) = ''X'')
      then drop 2 s else s)"

text \<open>\<^verbatim>\<open>strtoll(s, NULL, base)\<close> for the bases 10 and 16: white space, a sign, a prefix
  0x in base 16, the longest run of digits, clamped to the range of \<^verbatim>\<open>long long\<close>.\<close>

definition strtoll :: "nat \<Rightarrow> string \<Rightarrow> int" where
  "strtoll b s =
     (let s1 = dropWhile isspace s;
          neg = (take 1 s1 = ''-'');
          s2 = (if take 1 s1 = ''-'' \<or> take 1 s1 = ''+'' then drop 1 s1 else s1);
          n = int (digits b 0 (skip_0x b s2))
      in max LLONG_MIN (min LLONG_MAX (if neg then - n else n)))"

fun nat_base :: "nat \<Rightarrow> nat \<Rightarrow> string" where
  "nat_base b n =
     (if b < 2 \<or> n < b then [digit n] else nat_base b (n div b) @ [digit (n mod b)])"

declare nat_base.simps [simp del]

text \<open>\<^verbatim>\<open>sprintf\<close> with \<^verbatim>\<open>%lld\<close> and with \<^verbatim>\<open>0x%llx\<close> (the two's complement of a
  negative number).\<close>

definition print_lld :: "int \<Rightarrow> string" where
  "print_lld v = (if v < 0 then ''-'' @ nat_base 10 (nat (- v)) else nat_base 10 (nat v))"

definition print_0xllx :: "int \<Rightarrow> string" where
  "print_0xllx v = ''0x'' @ nat_base 16 (nat (v mod 2 ^ 64))"

lemma digit_val_digit: "d < b \<Longrightarrow> b \<le> 16 \<Longrightarrow> digit_val b (digit d) = Some d"
  by (auto simp: digit_val_def digit_def isdigit_def)

lemma isdigit_digit: "d < 10 \<Longrightarrow> isdigit (digit d)"
  by (simp add: isdigit_def digit_def)

lemma isxdigit_digit: "d < 16 \<Longrightarrow> isxdigit (digit d)"
  by (simp add: isxdigit_def isdigit_def digit_def)

lemma digits_append:
  "\<forall>c \<in> set s. digit_val b c \<noteq> None \<Longrightarrow> digits b acc (s @ t) = digits b (digits b acc s) t"
  by (induction s arbitrary: acc) auto

lemma nat_base_digits:
  "2 \<le> b \<Longrightarrow> b \<le> 16 \<Longrightarrow> \<forall>c \<in> set (nat_base b n). digit_val b c \<noteq> None"
proof (induction b n rule: nat_base.induct)
  case (1 b n)
  then show ?case
    by (subst nat_base.simps) (auto simp: digit_val_digit)
qed

lemma digits_nat_base: "2 \<le> b \<Longrightarrow> b \<le> 16 \<Longrightarrow> digits b 0 (nat_base b n) = n"
proof (induction b n rule: nat_base.induct)
  case (1 b n)
  show ?case
  proof (cases "n < b")
    case True
    with 1 show ?thesis by (simp add: nat_base.simps [of b n] digit_val_digit)
  next
    case False
    with 1 have "digits b 0 (nat_base b (n div b)) = n div b" by simp
    with 1 False show ?thesis
      by (simp add: nat_base.simps [of b n] digits_append nat_base_digits digit_val_digit)
  qed
qed

lemma nat_base_hd:
  "2 \<le> b \<Longrightarrow> b \<le> 16 \<Longrightarrow> \<exists>d s. nat_base b n = digit d # s \<and> d < b \<and> (d = 0 \<longrightarrow> n = 0 \<and> s = [])"
proof (induction b n rule: nat_base.induct)
  case (1 b n)
  show ?case
  proof (cases "n < b")
    case True
    with 1 show ?thesis by (auto simp: nat_base.simps [of b n])
  next
    case False
    with 1 obtain d s where *: "nat_base b (n div b) = digit d # s" "d < b"
      "d = 0 \<longrightarrow> n div b = 0 \<and> s = []" by auto
    have "n div b \<noteq> 0" using False 1 by (simp add: div_eq_0_iff)
    with 1 * False show ?thesis by (auto simp: nat_base.simps [of b n])
  qed
qed

lemma digit_not_special: "d < 16 \<Longrightarrow> digit d \<noteq> CHR ''-'' \<and> digit d \<noteq> CHR ''+'' \<and>
    digit d \<noteq> CHR ''x'' \<and> digit d \<noteq> CHR ''X'' \<and> \<not> isspace (digit d)"
  unfolding code_inject [symmetric]
  by (auto simp: digit_def isspace_def code_def)

lemma digit_eq_0: "d < 16 \<Longrightarrow> digit d = CHR ''0'' \<longleftrightarrow> d = 0"
  unfolding code_inject [symmetric] by (auto simp: digit_def code_def)

lemma skip_0x_10 [simp]: "skip_0x 10 s = s"
  by (simp add: skip_0x_def)

text \<open>Reading back what \<^verbatim>\<open>sprintf\<close> printed.\<close>

lemma strtoll_print_lld:
  assumes "LLONG_MIN \<le> v" "v \<le> LLONG_MAX"
  shows "strtoll 10 (print_lld v) = v"
proof -
  obtain d s where n: "nat_base 10 (nat \<bar>v\<bar>) = digit d # s" "d < 10"
    using nat_base_hd [of 10 "nat \<bar>v\<bar>"] by auto
  have v: "digits 10 0 (digit d # s) = nat \<bar>v\<bar>"
    using digits_nat_base [of 10 "nat \<bar>v\<bar>"] n by simp
  have c: "digit d \<noteq> CHR ''-''" "digit d \<noteq> CHR ''+''" "\<not> isspace (digit d)" "\<not> isspace CHR ''-''"
    using digit_not_special [of d] n(2) by (auto simp: isspace_def code_def)
  show ?thesis
    using n v c assms
    by (cases "v < 0") (simp_all add: strtoll_def print_lld_def Let_def del: digits.simps)
qed

lemma strtoll_print_0xllx:
  assumes "0 \<le> v" "v \<le> LLONG_MAX"
  shows "strtoll 16 (print_0xllx v) = v"
proof -
  have "v mod 2 ^ 64 = v" using assms by (intro mod_pos_pos_trivial) (auto simp: LLONG_MAX_def)
  then have p: "print_0xllx v = ''0x'' @ nat_base 16 (nat v)" by (simp add: print_0xllx_def)
  have "\<not> isspace CHR ''0''" by (simp add: isspace_def code_def)
  then have "strtoll 16 (print_0xllx v) =
      max LLONG_MIN (min LLONG_MAX (int (digits 16 0 (nat_base 16 (nat v)))))"
    by (simp add: p strtoll_def skip_0x_def Let_def del: digits.simps)
  also have "\<dots> = v"
    using assms by (simp add: digits_nat_base LLONG_MIN_def max_def min_def)
  finally show ?thesis .
qed

lemma strtoll_bounds: "LLONG_MIN \<le> strtoll b s" "strtoll b s \<le> LLONG_MAX"
  by (auto simp: strtoll_def Let_def LLONG_MAX_def LLONG_MIN_def)

section \<open>\<^verbatim>\<open>strcmp\<close>\<close>

text \<open>The sign of the comparison of two strings as \<^verbatim>\<open>unsigned char\<close> sequences.\<close>

fun strcmp :: "string \<Rightarrow> string \<Rightarrow> int" where
  "strcmp [] [] = 0"
| "strcmp [] (d # t) = -1"
| "strcmp (c # s) [] = 1"
| "strcmp (c # s) (d # t) =
     (if code c < code d then -1 else if code d < code c then 1 else strcmp s t)"

lemma strcmp_eq_0 [simp]: "strcmp s t = 0 \<longleftrightarrow> s = t"
proof (induction s t rule: strcmp.induct)
  case (4 c s d t)
  then show ?case using code_inject [of c d] by auto
qed auto

lemma strcmp_antisym: "strcmp t s = - strcmp s t"
  by (induction s t rule: strcmp.induct) simp_all

lemma strcmp_range: "strcmp s t = -1 \<or> strcmp s t = 0 \<or> strcmp s t = 1"
  by (induction s t rule: strcmp.induct) simp_all

lemma strcmp_trans: "strcmp s t \<le> 0 \<Longrightarrow> strcmp t u \<le> 0 \<Longrightarrow> strcmp s u \<le> 0"
proof (induction s t arbitrary: u rule: strcmp.induct)
  case (4 c s d t)
  show ?case
  proof (cases u)
    case Nil
    with "4.prems" show ?thesis by simp
  next
    case (Cons e v)
    with "4.prems" "4.IH" [of v] show ?thesis by (simp split: if_splits)
  qed
next
  case (2 d t)
  then show ?case by (cases u) simp_all
qed simp_all

end
