(* ===== verification/Symstate.thy ===== *)
theory Symstate
  imports ExprPrint Cstring
begin

text \<open>
  The state of kconfig and the operations of \<^verbatim>\<open>symbol.c\<close> that do not calculate values:
  the symbols, properties and menus by address, the global variables, and the flags that mark
  a change.
\<close>

section \<open>The state\<close>

text \<open>\<open>k_all\<close> lists the symbols of the hash table, the buckets one after the other (the four
  static symbols are not in it).\<close>

record kconf =
  k_sym :: "sym \<Rightarrow> symbol"
  k_prop :: "pid \<Rightarrow> property"
  k_menu :: "mid \<Rightarrow> menu"
  k_all :: "sym list"
  k_modules_sym :: "sym option"
  k_modules_val :: tristate
  k_change_count :: int

definition upd_sym :: "sym \<Rightarrow> (symbol \<Rightarrow> symbol) \<Rightarrow> kconf \<Rightarrow> kconf" where
  "upd_sym s f k = k\<lparr>k_sym := (k_sym k)(s := f (k_sym k s))\<rparr>"

definition upd_prop :: "pid \<Rightarrow> (property \<Rightarrow> property) \<Rightarrow> kconf \<Rightarrow> kconf" where
  "upd_prop p f k = k\<lparr>k_prop := (k_prop k)(p := f (k_prop k p))\<rparr>"

definition upd_menu :: "mid \<Rightarrow> (menu \<Rightarrow> menu) \<Rightarrow> kconf \<Rightarrow> kconf" where
  "upd_menu m f k = k\<lparr>k_menu := (k_menu k)(m := f (k_menu k m))\<rparr>"

definition flag_on :: "symbol_flag \<Rightarrow> sym \<Rightarrow> kconf \<Rightarrow> kconf" where
  "flag_on f s = upd_sym s (s_flags_update (insert f))"

definition flag_off :: "symbol_flag \<Rightarrow> sym \<Rightarrow> kconf \<Rightarrow> kconf" where
  "flag_off f s = upd_sym s (s_flags_update (\<lambda>F. F - {f}))"

definition set_curr :: "sym \<Rightarrow> symbol_value \<Rightarrow> kconf \<Rightarrow> kconf" where
  "set_curr s v = upd_sym s (s_curr_update (\<lambda>_. v))"

definition set_prop_visible :: "pid \<Rightarrow> tristate \<Rightarrow> kconf \<Rightarrow> kconf" where
  "set_prop_visible p t = upd_prop p (p_visible_update (ev_tri_update (\<lambda>_. t)))"

lemmas upd_defs = upd_sym_def upd_prop_def upd_menu_def flag_on_def flag_off_def set_curr_def
  set_prop_visible_def

definition has_flag :: "kconf \<Rightarrow> sym \<Rightarrow> symbol_flag \<Rightarrow> bool" where
  "has_flag k s f \<longleftrightarrow> f \<in> s_flags (k_sym k s)"

lemma upd_sym_simps [simp]:
  "k_sym (upd_sym s f k) = (k_sym k)(s := f (k_sym k s))"
  "k_prop (upd_sym s f k) = k_prop k" "k_menu (upd_sym s f k) = k_menu k"
  "k_all (upd_sym s f k) = k_all k" "k_modules_sym (upd_sym s f k) = k_modules_sym k"
  "k_modules_val (upd_sym s f k) = k_modules_val k"
  "k_change_count (upd_sym s f k) = k_change_count k"
  by (simp_all add: upd_sym_def)

lemma upd_prop_simps [simp]:
  "k_prop (upd_prop p g k) = (k_prop k)(p := g (k_prop k p))"
  "k_sym (upd_prop p g k) = k_sym k" "k_menu (upd_prop p g k) = k_menu k"
  "k_all (upd_prop p g k) = k_all k" "k_modules_sym (upd_prop p g k) = k_modules_sym k"
  "k_modules_val (upd_prop p g k) = k_modules_val k"
  "k_change_count (upd_prop p g k) = k_change_count k"
  by (simp_all add: upd_prop_def)

lemma upd_menu_simps [simp]:
  "k_menu (upd_menu m h k) = (k_menu k)(m := h (k_menu k m))"
  "k_sym (upd_menu m h k) = k_sym k" "k_prop (upd_menu m h k) = k_prop k"
  "k_all (upd_menu m h k) = k_all k" "k_modules_sym (upd_menu m h k) = k_modules_sym k"
  "k_modules_val (upd_menu m h k) = k_modules_val k"
  "k_change_count (upd_menu m h k) = k_change_count k"
  by (simp_all add: upd_menu_def)

section \<open>Properties of a symbol\<close>

definition for_all_properties :: "kconf \<Rightarrow> sym \<Rightarrow> prop_type \<Rightarrow> pid list" where
  "for_all_properties k s t = filter (\<lambda>p. p_type (k_prop k p) = t) (s_prop (k_sym k s))"

definition for_all_prompts :: "kconf \<Rightarrow> sym \<Rightarrow> pid list" where
  "for_all_prompts k s = filter (\<lambda>p. p_text (k_prop k p) \<noteq> None) (s_prop (k_sym k s))"

definition first_of :: "'a list \<Rightarrow> 'a option" where
  "first_of xs = (case xs of [] \<Rightarrow> None | x # _ \<Rightarrow> Some x)"

definition sym_get_choice_prop :: "kconf \<Rightarrow> sym \<Rightarrow> pid option" where
  "sym_get_choice_prop k s = first_of (for_all_properties k s P_CHOICE)"

definition sym_get_env_prop :: "kconf \<Rightarrow> sym \<Rightarrow> pid option" where
  "sym_get_env_prop k s = first_of (for_all_properties k s P_ENV)"

text \<open>On an E_LIST the code reads the link to the next list node as a symbol; its callers
  pass properties over an E_SYMBOL only, and the model answers NULL.\<close>

definition prop_get_symbol :: "kconf \<Rightarrow> pid \<Rightarrow> sym option" where
  "prop_get_symbol k p = (case p_expr (k_prop k p) of Some (e_symbol s) \<Rightarrow> Some s | _ \<Rightarrow> None)"

definition choice_list :: "kconf \<Rightarrow> pid \<Rightarrow> sym list" where
  "choice_list k p = expr_list_for_each_sym (p_expr (k_prop k p))"

fun prop_get_type_name :: "prop_type \<Rightarrow> string" where
  "prop_get_type_name P_PROMPT = ''prompt''"
| "prop_get_type_name P_ENV = ''env''"
| "prop_get_type_name P_COMMENT = ''comment''"
| "prop_get_type_name P_MENU = ''menu''"
| "prop_get_type_name P_DEFAULT = ''default''"
| "prop_get_type_name P_CHOICE = ''choice''"
| "prop_get_type_name P_SELECT = ''select''"
| "prop_get_type_name P_RANGE = ''range''"
| "prop_get_type_name P_SYMBOL = ''symbol''"
| "prop_get_type_name P_UNKNOWN = ''unknown''"

section \<open>Types\<close>

definition sym_get_type :: "kconf \<Rightarrow> sym \<Rightarrow> symbol_type" where
  "sym_get_type k s =
     (if s_type (k_sym k s) = S_TRISTATE then
        (if has_flag k s SYMBOL_CHOICEVAL \<and> s_visible (k_sym k s) = tri_yes then S_BOOLEAN
         else if k_modules_val k = tri_no then S_BOOLEAN else S_TRISTATE)
      else s_type (k_sym k s))"

fun sym_type_name :: "symbol_type \<Rightarrow> string" where
  "sym_type_name S_BOOLEAN = ''boolean''"
| "sym_type_name S_TRISTATE = ''tristate''"
| "sym_type_name S_INT = ''integer''"
| "sym_type_name S_HEX = ''hex''"
| "sym_type_name S_STRING = ''string''"
| "sym_type_name S_UNKNOWN = ''unknown''"
| "sym_type_name S_OTHER = ''???''"

lemma sym_get_type_simps:
  "s_type (k_sym k s) \<noteq> S_TRISTATE \<Longrightarrow> sym_get_type k s = s_type (k_sym k s)"
  "s_type (k_sym k s) = S_TRISTATE \<Longrightarrow> sym_get_type k s = S_BOOLEAN \<or> sym_get_type k s = S_TRISTATE"
  "k_modules_val k = tri_no \<Longrightarrow> sym_get_type k s \<noteq> S_TRISTATE"
  by (auto simp: sym_get_type_def)

section \<open>Marking changes\<close>

definition mark_menu :: "pid \<Rightarrow> kconf \<Rightarrow> kconf" where
  "mark_menu p k = (case p_menu (k_prop k p) of
     None \<Rightarrow> k | Some m \<Rightarrow> upd_menu m (m_changed_update (\<lambda>_. True)) k)"

definition mark_changed :: "symbol \<Rightarrow> symbol" where
  "mark_changed = s_flags_update (insert SYMBOL_CHANGED)"

lemma mark_changed_simps [simp]:
  "s_flags (mark_changed x) = insert SYMBOL_CHANGED (s_flags x)"
  "s_name (mark_changed x) = s_name x" "s_type (mark_changed x) = s_type x"
  "s_curr (mark_changed x) = s_curr x" "s_def (mark_changed x) = s_def x"
  "s_visible (mark_changed x) = s_visible x" "s_prop (mark_changed x) = s_prop x"
  "s_dir_dep (mark_changed x) = s_dir_dep x" "s_rev_dep (mark_changed x) = s_rev_dep x"
  "mark_changed (mark_changed x) = mark_changed x"
  by (simp_all add: mark_changed_def)

definition sym_set_changed :: "sym \<Rightarrow> kconf \<Rightarrow> kconf" where
  "sym_set_changed s k = fold mark_menu (s_prop (k_sym k s)) (flag_on SYMBOL_CHANGED s k)"

text \<open>The loop over all symbols leaves out those of type S_OTHER.\<close>

definition for_all_symbols :: "kconf \<Rightarrow> sym list" where
  "for_all_symbols k = filter (\<lambda>s. s_type (k_sym k s) \<noteq> S_OTHER) (k_all k)"

definition sym_set_all_changed :: "kconf \<Rightarrow> kconf" where
  "sym_set_all_changed k = fold sym_set_changed (for_all_symbols k) k"

lemma mark_menu_frame [simp]:
  "k_sym (mark_menu p k) = k_sym k" "k_prop (mark_menu p k) = k_prop k"
  "k_all (mark_menu p k) = k_all k" "k_modules_sym (mark_menu p k) = k_modules_sym k"
  "k_modules_val (mark_menu p k) = k_modules_val k"
  "k_change_count (mark_menu p k) = k_change_count k"
  by (simp_all add: mark_menu_def split: option.split)

lemma fold_mark_menu_frame [simp]:
  "k_sym (fold mark_menu ps k) = k_sym k" "k_prop (fold mark_menu ps k) = k_prop k"
  "k_all (fold mark_menu ps k) = k_all k" "k_modules_sym (fold mark_menu ps k) = k_modules_sym k"
  "k_modules_val (fold mark_menu ps k) = k_modules_val k"
  "k_change_count (fold mark_menu ps k) = k_change_count k"
  by (induction ps arbitrary: k) simp_all

text \<open>Marking a symbol changes its flag CHANGED and the marks of its menus, nothing else.\<close>

lemma sym_set_changed_frame [simp]:
  "k_sym (sym_set_changed s k) =
     (k_sym k)(s := mark_changed (k_sym k s))"
  "k_prop (sym_set_changed s k) = k_prop k"
  "k_all (sym_set_changed s k) = k_all k" "k_modules_sym (sym_set_changed s k) = k_modules_sym k"
  "k_modules_val (sym_set_changed s k) = k_modules_val k"
  "k_change_count (sym_set_changed s k) = k_change_count k"
  by (simp_all add: sym_set_changed_def flag_on_def mark_changed_def)

lemma fold_set_changed_frame [simp]:
  "k_sym (fold sym_set_changed ss k) = (\<lambda>t. if t \<in> set ss
     then mark_changed (k_sym k t) else k_sym k t)"
  "k_prop (fold sym_set_changed ss k) = k_prop k"
  "k_all (fold sym_set_changed ss k) = k_all k"
  "k_modules_sym (fold sym_set_changed ss k) = k_modules_sym k"
  "k_modules_val (fold sym_set_changed ss k) = k_modules_val k"
  "k_change_count (fold sym_set_changed ss k) = k_change_count k"
  by (induction ss arbitrary: k) (auto simp: fun_eq_iff)

lemma sym_set_all_changed_frame [simp]:
  "k_sym (sym_set_all_changed k) = (\<lambda>t. if t \<in> set (for_all_symbols k)
     then mark_changed (k_sym k t) else k_sym k t)"
  "k_prop (sym_set_all_changed k) = k_prop k"
  "k_all (sym_set_all_changed k) = k_all k"
  "k_modules_sym (sym_set_all_changed k) = k_modules_sym k"
  "k_modules_val (sym_set_all_changed k) = k_modules_val k"
  "k_change_count (sym_set_all_changed k) = k_change_count k"
  by (simp_all add: sym_set_all_changed_def)

end
