(* ===== verification/Symcalc.thy ===== *)
theory Symcalc
  imports Symstate
begin

text \<open>
  The calculation of values: \<^verbatim>\<open>sym_calc_value\<close> of \<^verbatim>\<open>symbol.c\<close> with all it calls
  (\<^verbatim>\<open>expr_calc_value\<close>, the visibility, the defaults, the choice, the range). The functions
  of the code call each other through \<^verbatim>\<open>sym_calc_value\<close>: each takes it as its argument
  \<open>cv\<close>, and the last definition ties the knot with fuel. A result is the new state, with a
  value where the code returns one; \<open>None\<close> is a NULL dereference, a pointer read at a wrong
  type, or out of fuel.
\<close>

type_synonym calc = "sym \<Rightarrow> kconf \<Rightarrow> kconf option"

section \<open>The value of an expression\<close>

text \<open>\<^verbatim>\<open>sym_calc_value(NULL)\<close> returns at once.\<close>

definition calc_opt :: "calc \<Rightarrow> sym option \<Rightarrow> kconf \<Rightarrow> kconf option" where
  "calc_opt cv so k = (case so of None \<Rightarrow> Some k | Some s \<Rightarrow> cv s k)"

fun cval_string :: "cval \<Rightarrow> string option" where
  "cval_string (VStr x) = Some x"
| "cval_string VNull = None"
| "cval_string (VSym s) = None"

text \<open>Every caller goes on to read the string, so NULL is \<open>None\<close>.\<close>

definition sym_get_string_value :: "calc \<Rightarrow> sym \<Rightarrow> kconf \<Rightarrow> (string \<times> kconf) option" where
  "sym_get_string_value cv s k =
     (if s_type (k_sym k s) = S_BOOLEAN \<or> s_type (k_sym k s) = S_TRISTATE then
        (case sv_tri (s_curr (k_sym k s)) of
           tri_no \<Rightarrow> Some (''n'', k)
         | tri_mod \<Rightarrow> do {
             k \<leftarrow> calc_opt cv (k_modules_sym k) k;
             m \<leftarrow> k_modules_sym k;
             Some (if sv_tri (s_curr (k_sym k m)) = tri_no then ''n'' else ''m'', k) }
         | tri_yes \<Rightarrow> Some (''y'', k))
      else map_option (\<lambda>x. (x, k)) (cval_string (sv_val (s_curr (k_sym k s)))))"

definition calc_strings :: "calc \<Rightarrow> sym \<Rightarrow> sym \<Rightarrow> kconf \<Rightarrow> (bool \<times> kconf) option" where
  "calc_strings cv a b k = do {
     k \<leftarrow> cv a k;
     k \<leftarrow> cv b k;
     (str1, k) \<leftarrow> sym_get_string_value cv a k;
     (str2, k) \<leftarrow> sym_get_string_value cv b k;
     Some (strcmp str1 str2 = 0, k) }"

fun expr_calc_value1 :: "calc \<Rightarrow> expr \<Rightarrow> kconf \<Rightarrow> (tristate \<times> kconf) option" where
  "expr_calc_value1 cv (e_symbol s) k =
     do { k \<leftarrow> cv s k; Some (sv_tri (s_curr (k_sym k s)), k) }"
| "expr_calc_value1 cv (e_and l r) k =
     do { (v1, k) \<leftarrow> expr_calc_value1 cv l k;
          (v2, k) \<leftarrow> expr_calc_value1 cv r k;
          Some (EXPR_AND v1 v2, k) }"
| "expr_calc_value1 cv (e_or l r) k =
     do { (v1, k) \<leftarrow> expr_calc_value1 cv l k;
          (v2, k) \<leftarrow> expr_calc_value1 cv r k;
          Some (EXPR_OR v1 v2, k) }"
| "expr_calc_value1 cv (e_not e) k =
     do { (v1, k) \<leftarrow> expr_calc_value1 cv e k; Some (EXPR_NOT v1, k) }"
| "expr_calc_value1 cv (e_equal a b) k =
     do { (eq, k) \<leftarrow> calc_strings cv a b k; Some (if eq then tri_yes else tri_no, k) }"
| "expr_calc_value1 cv (e_unequal a b) k =
     do { (eq, k) \<leftarrow> calc_strings cv a b k; Some (if eq then tri_no else tri_yes, k) }"
| "expr_calc_value1 cv (e_list l s) k = Some (tri_no, k)"
| "expr_calc_value1 cv (e_range a b) k = Some (tri_no, k)"
| "expr_calc_value1 cv e_none k = Some (tri_no, k)"

definition expr_calc_value :: "calc \<Rightarrow> expr option \<Rightarrow> kconf \<Rightarrow> (tristate \<times> kconf) option" where
  "expr_calc_value cv e k = (case e of None \<Rightarrow> Some (tri_yes, k) | Some e' \<Rightarrow> expr_calc_value1 cv e' k)"

section \<open>Properties whose condition holds\<close>

text \<open>\<^verbatim>\<open>prop->visible.tri = expr_calc_value(prop->visible.expr)\<close>\<close>

definition calc_prop_visible :: "calc \<Rightarrow> pid \<Rightarrow> kconf \<Rightarrow> (tristate \<times> kconf) option" where
  "calc_prop_visible cv p k = do {
     (t, k) \<leftarrow> expr_calc_value cv (ev_expr (p_visible (k_prop k p))) k;
     Some (t, set_prop_visible p t k) }"

fun first_visible :: "calc \<Rightarrow> pid list \<Rightarrow> kconf \<Rightarrow> (pid option \<times> kconf) option" where
  "first_visible cv [] k = Some (None, k)"
| "first_visible cv (p # ps) k = do {
     (t, k) \<leftarrow> calc_prop_visible cv p k;
     if t \<noteq> tri_no then Some (Some p, k) else first_visible cv ps k }"

definition sym_get_default_prop :: "calc \<Rightarrow> sym \<Rightarrow> kconf \<Rightarrow> (pid option \<times> kconf) option" where
  "sym_get_default_prop cv s k = first_visible cv (for_all_properties k s P_DEFAULT) k"

definition sym_get_range_prop :: "calc \<Rightarrow> sym \<Rightarrow> kconf \<Rightarrow> (pid option \<times> kconf) option" where
  "sym_get_range_prop cv s k = first_visible cv (for_all_properties k s P_RANGE) k"

section \<open>Ranges\<close>

fun type_base :: "symbol_type \<Rightarrow> nat \<Rightarrow> nat" where
  "type_base S_INT base = 10"
| "type_base S_HEX base = 16"
| "type_base _ base = base"

definition sym_get_range_val :: "calc \<Rightarrow> sym \<Rightarrow> nat \<Rightarrow> kconf \<Rightarrow> (int \<times> kconf) option" where
  "sym_get_range_val cv s base k = do {
     k \<leftarrow> cv s k;
     str \<leftarrow> cval_string (sv_val (s_curr (k_sym k s)));
     Some (strtoll (type_base (s_type (k_sym k s)) base) str, k) }"

fun range_syms :: "expr option \<Rightarrow> (sym \<times> sym) option" where
  "range_syms (Some (e_range a b)) = Some (a, b)"
| "range_syms _ = None"

definition print_number :: "symbol_type \<Rightarrow> int \<Rightarrow> string" where
  "print_number ty v = (if ty = S_INT then print_lld v else print_0xllx v)"

definition set_curr_val :: "sym \<Rightarrow> cval \<Rightarrow> kconf \<Rightarrow> kconf" where
  "set_curr_val s v k = set_curr s ((s_curr (k_sym k s))\<lparr>sv_val := v\<rparr>) k"

definition clamp_range :: "calc \<Rightarrow> sym \<Rightarrow> pid \<Rightarrow> kconf \<Rightarrow> kconf option" where
  "clamp_range cv s p k = do {
     let ty = s_type (k_sym k s);
     let base = type_base ty 0;
     str \<leftarrow> cval_string (sv_val (s_curr (k_sym k s)));
     let val = strtoll base str;
     (lo, hi) \<leftarrow> range_syms (p_expr (k_prop k p));
     (val2, k) \<leftarrow> sym_get_range_val cv lo base k;
     if val < val2 then Some (set_curr_val s (VStr (print_number ty val2)) k)
     else do {
       (val2, k) \<leftarrow> sym_get_range_val cv hi base k;
       if val \<le> val2 then Some k
       else Some (set_curr_val s (VStr (print_number ty val2)) k) } }"

definition sym_validate_range :: "calc \<Rightarrow> sym \<Rightarrow> kconf \<Rightarrow> kconf option" where
  "sym_validate_range cv s k =
     (if s_type (k_sym k s) \<noteq> S_INT \<and> s_type (k_sym k s) \<noteq> S_HEX then Some k
      else do {
        (po, k) \<leftarrow> sym_get_range_prop cv s k;
        case po of None \<Rightarrow> Some k | Some p \<Rightarrow> clamp_range cv s p k })"

section \<open>Visibility\<close>

fun prompts_visible :: "calc \<Rightarrow> pid list \<Rightarrow> tristate \<Rightarrow> kconf \<Rightarrow> (tristate \<times> kconf) option" where
  "prompts_visible cv [] tri k = Some (tri, k)"
| "prompts_visible cv (p # ps) tri k = do {
     (t, k) \<leftarrow> calc_prop_visible cv p k;
     prompts_visible cv ps (EXPR_OR tri t) k }"

definition set_visible :: "sym \<Rightarrow> tristate \<Rightarrow> kconf \<Rightarrow> kconf" where
  "set_visible s tri k = (if s_visible (k_sym k s) \<noteq> tri
     then sym_set_changed s (upd_sym s (s_visible_update (\<lambda>_. tri)) k) else k)"

definition set_dir_dep :: "sym \<Rightarrow> tristate \<Rightarrow> kconf \<Rightarrow> kconf" where
  "set_dir_dep s tri k = (if ev_tri (s_dir_dep (k_sym k s)) \<noteq> tri
     then sym_set_changed s (upd_sym s (s_dir_dep_update (ev_tri_update (\<lambda>_. tri))) k) else k)"

definition set_rev_dep :: "sym \<Rightarrow> tristate \<Rightarrow> kconf \<Rightarrow> kconf" where
  "set_rev_dep s tri k = (if ev_tri (s_rev_dep (k_sym k s)) \<noteq> tri
     then sym_set_changed s (upd_sym s (s_rev_dep_update (ev_tri_update (\<lambda>_. tri))) k) else k)"

definition calc_dir_dep :: "calc \<Rightarrow> sym \<Rightarrow> kconf \<Rightarrow> kconf option" where
  "calc_dir_dep cv s k = do {
     (tri, k) \<leftarrow> (if ev_expr (s_dir_dep (k_sym k s)) \<noteq> None
                   then expr_calc_value cv (ev_expr (s_dir_dep (k_sym k s))) k else Some (tri_yes, k));
     Some (set_dir_dep s (if tri = tri_mod then tri_yes else tri) k) }"

definition calc_rev_dep :: "calc \<Rightarrow> sym \<Rightarrow> kconf \<Rightarrow> kconf option" where
  "calc_rev_dep cv s k = do {
     (tri, k) \<leftarrow> (if ev_expr (s_rev_dep (k_sym k s)) \<noteq> None
                   then expr_calc_value cv (ev_expr (s_rev_dep (k_sym k s))) k else Some (tri_no, k));
     Some (set_rev_dep s (if tri = tri_mod \<and> sym_get_type k s = S_BOOLEAN then tri_yes else tri) k) }"

definition sym_calc_visibility :: "calc \<Rightarrow> sym \<Rightarrow> kconf \<Rightarrow> kconf option" where
  "sym_calc_visibility cv s k = do {
     (tri, k) \<leftarrow> prompts_visible cv (for_all_prompts k s) tri_no k;
     let tri = (if tri = tri_mod \<and> (s_type (k_sym k s) \<noteq> S_TRISTATE \<or> k_modules_val k = tri_no)
                then tri_yes else tri);
     let k = set_visible s tri k;
     if has_flag k s SYMBOL_CHOICEVAL then Some k
     else do { k \<leftarrow> calc_dir_dep cv s k; calc_rev_dep cv s k } }"

section \<open>Choices\<close>

fun choice_visible_default :: "calc \<Rightarrow> pid list \<Rightarrow> kconf \<Rightarrow> (sym option \<times> kconf) option" where
  "choice_visible_default cv [] k = Some (None, k)"
| "choice_visible_default cv (p # ps) k = do {
     (t, k) \<leftarrow> calc_prop_visible cv p k;
     if t = tri_no then choice_visible_default cv ps k
     else do {
       d \<leftarrow> prop_get_symbol k p;
       if s_visible (k_sym k d) \<noteq> tri_no then Some (Some d, k)
       else choice_visible_default cv ps k } }"

definition sym_choice_default :: "calc \<Rightarrow> sym \<Rightarrow> kconf \<Rightarrow> (sym option \<times> kconf) option" where
  "sym_choice_default cv s k = do {
     (d, k) \<leftarrow> choice_visible_default cv (for_all_properties k s P_DEFAULT) k;
     if d \<noteq> None then Some (d, k)
     else do {
       p \<leftarrow> sym_get_choice_prop k s;
       Some (List.find (\<lambda>x. s_visible (k_sym k x) \<noteq> tri_no) (choice_list k p), k) } }"

fun calc_visibilities :: "calc \<Rightarrow> sym list \<Rightarrow> symbol_flag set \<Rightarrow> kconf \<Rightarrow>
    (symbol_flag set \<times> kconf) option" where
  "calc_visibilities cv [] flags k = Some (flags, k)"
| "calc_visibilities cv (x # xs) flags k = do {
     k \<leftarrow> sym_calc_visibility cv x k;
     calc_visibilities cv xs
       (if s_visible (k_sym k x) \<noteq> tri_no then flags \<inter> s_flags (k_sym k x) else flags) k }"

text \<open>The user's choice \<^verbatim>\<open>def[S_DEF_USER].val\<close> as a symbol (a string there is a pointer read
  at a wrong type).\<close>

fun cval_sym :: "cval \<Rightarrow> sym option option" where
  "cval_sym VNull = Some None"
| "cval_sym (VSym s) = Some (Some s)"
| "cval_sym (VStr x) = None"

definition sym_calc_choice :: "calc \<Rightarrow> sym \<Rightarrow> kconf \<Rightarrow> (sym option \<times> kconf) option" where
  "sym_calc_choice cv s k = do {
     let flags = s_flags (k_sym k s);
     p \<leftarrow> sym_get_choice_prop k s;
     (flags, k) \<leftarrow> calc_visibilities cv (choice_list k p) flags k;
     let k = upd_sym s (s_flags_update (\<lambda>F. {f \<in> F. f \<in> flags \<or> f \<noteq> SYMBOL_DEF_USER})) k;
     user \<leftarrow> cval_sym (sv_val (s_def (k_sym k s) S_DEF_USER));
     if case user of Some d \<Rightarrow> s_visible (k_sym k d) \<noteq> tri_no | None \<Rightarrow> False then Some (user, k)
     else do {
       (d, k) \<leftarrow> sym_choice_default cv s k;
       Some (d, if d = None then set_curr s ((s_curr (k_sym k s))\<lparr>sv_tri := tri_no\<rparr>) k else k) } }"

text \<open>\<^verbatim>\<open>set_all_choice_values\<close> of \<^verbatim>\<open>confdata.c\<close>.\<close>

definition unset_def_user :: "sym \<Rightarrow> kconf \<Rightarrow> kconf" where
  "unset_def_user x k = (if has_flag k x SYMBOL_DEF_USER then k
     else upd_sym x (s_def_update (\<lambda>D. D(S_DEF_USER := (D S_DEF_USER)\<lparr>sv_tri := tri_no\<rparr>))) k)"

definition set_all_choice_values :: "sym \<Rightarrow> kconf \<Rightarrow> kconf option" where
  "set_all_choice_values c k = do {
     p \<leftarrow> sym_get_choice_prop k c;
     let k = fold unset_def_user (choice_list k p) k;
     let k = flag_on SYMBOL_DEF_USER c k;
     Some (flag_off SYMBOL_NEED_SET_CHOICE_VALUES c (flag_off SYMBOL_VALID c k)) }"

section \<open>\<^verbatim>\<open>sym_calc_value\<close>\<close>

text \<open>The first \<^verbatim>\<open>switch\<close>: the value to start from; \<open>None\<close> for the types without one.\<close>

definition start_value :: "kconf \<Rightarrow> sym \<Rightarrow> symbol_value option" where
  "start_value k s = (case s_type (k_sym k s) of
     S_INT \<Rightarrow> Some (s_curr (k_sym k symbol_empty))
   | S_HEX \<Rightarrow> Some (s_curr (k_sym k symbol_empty))
   | S_STRING \<Rightarrow> Some (s_curr (k_sym k symbol_empty))
   | S_BOOLEAN \<Rightarrow> Some (s_curr (k_sym k symbol_no))
   | S_TRISTATE \<Rightarrow> Some (s_curr (k_sym k symbol_no))
   | _ \<Rightarrow> None)"

text \<open>A bool or tristate symbol that takes no value from its choice: the user value or the
  default, joined with the reverse dependencies (label \<^verbatim>\<open>calc_newval\<close>). The warning on
  an unmet dependency is printed only, but the walk that prepares it must be defined.\<close>

definition tristate_default :: "calc \<Rightarrow> sym \<Rightarrow> tristate \<Rightarrow> kconf \<Rightarrow> (tristate \<times> kconf) option" where
  "tristate_default cv s tri k =
     (let k = (if ev_tri (s_rev_dep (k_sym k s)) \<noteq> tri_no then flag_on SYMBOL_WRITE s k else k) in
      if has_flag k s SYMBOL_CHOICE then Some (tri, k)
      else do {
        (po, k) \<leftarrow> sym_get_default_prop cv s k;
        case po of None \<Rightarrow> Some (tri, k)
        | Some p \<Rightarrow> do {
            (t, k) \<leftarrow> expr_calc_value cv (p_expr (k_prop k p)) (flag_on SYMBOL_WRITE s k);
            Some (EXPR_AND t (ev_tri (p_visible (k_prop k p))), k) } })"

definition unmet_dep_warning :: "sym \<Rightarrow> kconf \<Rightarrow> unit option" where
  "unmet_dep_warning s k =
     (let rev = s_rev_dep (k_sym k s); dir = s_dir_dep (k_sym k s) in
      if ev_tri dir = tri_no \<and> ev_tri rev \<noteq> tri_no then do {
        r \<leftarrow> ev_expr rev;
        d \<leftarrow> ev_expr dir;
        map_option (\<lambda>_. ()) (expr_simplify_unmet_dep (k_sym k) r d) }
      else Some ())"

definition calc_tristate :: "calc \<Rightarrow> sym \<Rightarrow> tristate \<Rightarrow> kconf \<Rightarrow> (tristate \<times> kconf) option" where
  "calc_tristate cv s tri k =
     (if has_flag k s SYMBOL_CHOICEVAL \<and> s_visible (k_sym k s) = tri_yes then do {
        p \<leftarrow> sym_get_choice_prop k s;
        c \<leftarrow> prop_get_symbol k p;
        Some (if sv_val (s_curr (k_sym k c)) = VSym s then tri_yes else tri_no, k) }
      else do {
        (tri, k) \<leftarrow>
          (let visible = s_visible (k_sym k s);
               k = (if visible \<noteq> tri_no then flag_on SYMBOL_WRITE s k else k) in
           if visible \<noteq> tri_no \<and> has_flag k s SYMBOL_DEF_USER
           then Some (EXPR_AND (sv_tri (s_def (k_sym k s) S_DEF_USER)) visible, k)
           else tristate_default cv s tri k);
        _ \<leftarrow> unmet_dep_warning s k;
        Some (EXPR_OR tri (ev_tri (s_rev_dep (k_sym k s))), k) })"

text \<open>The second \<^verbatim>\<open>switch\<close>.\<close>

definition string_default :: "calc \<Rightarrow> sym \<Rightarrow> cval \<Rightarrow> kconf \<Rightarrow> (cval \<times> kconf) option" where
  "string_default cv s val k = do {
     (po, k) \<leftarrow> sym_get_default_prop cv s k;
     case po of None \<Rightarrow> Some (val, k)
     | Some p \<Rightarrow>
         (case prop_get_symbol k p of None \<Rightarrow> Some (val, k)
          | Some ds \<Rightarrow> do {
              k \<leftarrow> cv ds (flag_on SYMBOL_WRITE s k);
              Some (sv_val (s_curr (k_sym k ds)), k) }) }"

definition calc_string :: "calc \<Rightarrow> sym \<Rightarrow> cval \<Rightarrow> kconf \<Rightarrow> (cval \<times> kconf) option" where
  "calc_string cv s val k =
     (let visible = s_visible (k_sym k s);
          k = (if visible \<noteq> tri_no then flag_on SYMBOL_WRITE s k else k) in
      if visible \<noteq> tri_no \<and> has_flag k s SYMBOL_DEF_USER
      then Some (sv_val (s_def (k_sym k s) S_DEF_USER), k)
      else string_default cv s val k)"

definition calc_newval :: "calc \<Rightarrow> sym \<Rightarrow> symbol_value \<Rightarrow> kconf \<Rightarrow> (symbol_value \<times> kconf) option" where
  "calc_newval cv s newval k =
     (if sym_get_type k s \<in> {S_BOOLEAN, S_TRISTATE} then do {
        (tri, k) \<leftarrow> calc_tristate cv s (sv_tri newval) k;
        let tri = (if tri = tri_mod \<and> sym_get_type k s = S_BOOLEAN then tri_yes else tri);
        Some (newval\<lparr>sv_tri := tri\<rparr>, k) }
      else if sym_get_type k s \<in> {S_STRING, S_HEX, S_INT} then do {
        (val, k) \<leftarrow> calc_string cv s (sv_val newval) k;
        Some (newval\<lparr>sv_val := val\<rparr>, k) }
      else Some (newval, k))"

text \<open>
  What happens once the value is stored. The code compares the old and the new value with
  \<^verbatim>\<open>memcmp\<close>, strings by address; the model compares their contents, so it marks fewer
  symbols as changed.
\<close>

definition note_change :: "sym \<Rightarrow> symbol_value \<Rightarrow> kconf \<Rightarrow> kconf" where
  "note_change s oldval k =
     (if oldval = s_curr (k_sym k s) then k
      else let k = sym_set_changed s k in
        if k_modules_sym k = Some s
        then (let k = sym_set_all_changed k in k\<lparr>k_modules_val := sv_tri (s_curr (k_sym k s))\<rparr>)
        else k)"

definition propagate_choice1 :: "sym \<Rightarrow> sym \<Rightarrow> kconf \<Rightarrow> kconf" where
  "propagate_choice1 s x k =
     (let k = (if has_flag k s SYMBOL_WRITE \<and> s_visible (k_sym k x) \<noteq> tri_no
               then flag_on SYMBOL_WRITE x k else k) in
      if has_flag k s SYMBOL_CHANGED then sym_set_changed x k else k)"

definition propagate_choice :: "sym \<Rightarrow> kconf \<Rightarrow> kconf option" where
  "propagate_choice s k =
     (if has_flag k s SYMBOL_CHOICE then do {
        p \<leftarrow> sym_get_choice_prop k s;
        Some (fold (propagate_choice1 s) (choice_list k p) k) }
      else Some k)"

definition finish_value :: "sym \<Rightarrow> symbol_value \<Rightarrow> kconf \<Rightarrow> kconf option" where
  "finish_value s oldval k = do {
     k \<leftarrow> propagate_choice s (note_change s oldval k);
     let k = (if has_flag k s SYMBOL_AUTO then flag_off SYMBOL_WRITE s k else k);
     if has_flag k s SYMBOL_NEED_SET_CHOICE_VALUES then set_all_choice_values s k else Some k }"

definition calc_value_body :: "calc \<Rightarrow> sym \<Rightarrow> symbol_value \<Rightarrow> symbol_value \<Rightarrow> kconf \<Rightarrow> kconf option" where
  "calc_value_body cv s oldval newval k = do {
     let k = (if has_flag k s SYMBOL_CHOICEVAL then k else flag_off SYMBOL_WRITE s k);
     k \<leftarrow> sym_calc_visibility cv s k;
     let k = set_curr s newval k;
     (newval, k) \<leftarrow> calc_newval cv s newval k;
     let k = set_curr s newval k;
     k \<leftarrow> (if has_flag k s SYMBOL_CHOICE \<and> sv_tri newval = tri_yes then do {
             (d, k) \<leftarrow> sym_calc_choice cv s k;
             Some (set_curr_val s (case d of None \<Rightarrow> VNull | Some x \<Rightarrow> VSym x) k) }
           else Some k);
     k \<leftarrow> sym_validate_range cv s k;
     finish_value s oldval k }"

text \<open>The choice of a choice value is calculated first, if its values are still to be set.\<close>

definition calc_need_choice :: "calc \<Rightarrow> sym \<Rightarrow> kconf \<Rightarrow> kconf option" where
  "calc_need_choice cv s k =
     (if has_flag k s SYMBOL_CHOICEVAL \<and> has_flag k s SYMBOL_NEED_SET_CHOICE_VALUES then
        (let k = flag_off SYMBOL_NEED_SET_CHOICE_VALUES s k in do {
           p \<leftarrow> sym_get_choice_prop k s;
           calc_opt cv (prop_get_symbol k p) k })
      else Some k)"

definition name_value :: "symbol \<Rightarrow> symbol_value" where
  "name_value x = \<lparr>sv_val = (case s_name x of None \<Rightarrow> VNull | Some n \<Rightarrow> VStr n), sv_tri = tri_no\<rparr>"

definition calc_value_tail :: "calc \<Rightarrow> sym \<Rightarrow> kconf \<Rightarrow> kconf option" where
  "calc_value_tail cv s k = (case start_value k s of
     None \<Rightarrow> Some (set_curr s (name_value (k_sym k s)) k)
   | Some newval \<Rightarrow> calc_value_body cv s (s_curr (k_sym k s)) newval k)"

definition calc_value_step :: "calc \<Rightarrow> calc" where
  "calc_value_step cv s k =
     (if has_flag k s SYMBOL_VALID then Some k
      else do {
        k \<leftarrow> calc_need_choice cv s k;
        calc_value_tail cv s (flag_on SYMBOL_VALID s k) })"

fun sym_calc_value :: "nat \<Rightarrow> calc" where
  "sym_calc_value 0 s k = None"
| "sym_calc_value (Suc n) s k = calc_value_step (sym_calc_value n) s k"

end
