(* ===== verification/Symframe.thy ===== *)
theory Symframe
  imports Symcalc
begin

text \<open>
  What every calculation keeps. \<open>calc_invariant\<close> is the interface between the calculation
  and a property of states: the few kinds of updates the calculation is made of. In it,
  \<open>sym_calc_value\<close> is shown to keep the property; the interpretations at the end give the
  frame of a calculation (what never changes, and what only decreases) and the type
  invariant of bool symbols.
\<close>

section \<open>The static symbols\<close>

definition static_syms :: "sym set" where
  "static_syms = {symbol_yes, symbol_mod, symbol_no, symbol_empty}"

text \<open>The static symbols are always valid, so they keep the values they are initialised with.\<close>

definition static_ok :: "kconf \<Rightarrow> bool" where
  "static_ok k \<longleftrightarrow> (\<forall>s \<in> static_syms. s_curr (k_sym k s) = s_curr (static_symbols s) \<and>
     has_flag k s SYMBOL_VALID \<and> \<not> has_flag k s SYMBOL_NEED_SET_CHOICE_VALUES)"

lemma static_ok_curr:
  "static_ok k \<Longrightarrow> s_curr (k_sym k symbol_no) = \<lparr>sv_val = VStr ''n'', sv_tri = tri_no\<rparr>"
  "static_ok k \<Longrightarrow> s_curr (k_sym k symbol_empty) = \<lparr>sv_val = VStr [], sv_tri = tri_no\<rparr>"
  by (auto simp: static_ok_def static_syms_def static_symbol_simps)

lemma start_value_static:
  "static_ok k \<Longrightarrow> start_value k s = Some v \<Longrightarrow> sv_tri v = tri_no \<and> (\<exists>x. sv_val v = VStr x)"
  by (auto simp: start_value_def static_ok_curr split: symbol_type.splits)

section \<open>The updates of a calculation\<close>

text \<open>A quiet update of a symbol: its visibility, the values of its dependencies, and the
  flags WRITE and CHANGED; it may drop DEF_USER.\<close>

definition dep_exprs :: "symbol \<Rightarrow> expr option \<times> expr option" where
  "dep_exprs x = (ev_expr (s_dir_dep x), ev_expr (s_rev_dep x))"

definition loud_flags :: "symbol \<Rightarrow> symbol_flag set" where
  "loud_flags x = s_flags x - {SYMBOL_WRITE, SYMBOL_CHANGED, SYMBOL_DEF_USER}"

definition quiet :: "(symbol \<Rightarrow> symbol) \<Rightarrow> bool" where
  "quiet f \<longleftrightarrow> (\<forall>x. s_name (f x) = s_name x \<and> s_type (f x) = s_type x \<and> s_curr (f x) = s_curr x \<and>
     s_def (f x) = s_def x \<and> s_prop (f x) = s_prop x \<and> dep_exprs (f x) = dep_exprs x \<and>
     loud_flags (f x) = loud_flags x \<and>
     (SYMBOL_DEF_USER \<in> s_flags (f x) \<longrightarrow> SYMBOL_DEF_USER \<in> s_flags x))"

lemmas quiet_defs = quiet_def dep_exprs_def loud_flags_def

text \<open>Reads that may fail, as calls.\<close>

lemma pure_calls [call_rules]:
  "(\<And>x. cval_string c = Some x \<Longrightarrow> Q1 x) \<Longrightarrow> post (cval_string c) Q1"
  "(\<And>x. k_modules_sym k = Some x \<Longrightarrow> Q2 x) \<Longrightarrow> post (k_modules_sym k) Q2"
  "(\<And>a b. range_syms e = Some (a, b) \<Longrightarrow> Q3 (a, b)) \<Longrightarrow> post (range_syms e) Q3"
  "(\<And>x. sym_get_choice_prop k s = Some x \<Longrightarrow> Q4 x) \<Longrightarrow> post (sym_get_choice_prop k s) Q4"
  "(\<And>x. prop_get_symbol k p = Some x \<Longrightarrow> Q5 x) \<Longrightarrow> post (prop_get_symbol k p) Q5"
  "(\<And>x. cval_sym c = Some x \<Longrightarrow> Q6 x) \<Longrightarrow> post (cval_sym c) Q6"
  "Q7 () \<Longrightarrow> post (unmet_dep_warning s k) Q7"
  "(\<And>x. set_all_choice_values s k = Some x \<Longrightarrow> Q8 x) \<Longrightarrow> post (set_all_choice_values s k) Q8"
  by (auto intro!: postI)

locale calc_invariant =
  fixes I :: "kconf \<Rightarrow> bool" and ty :: "sym \<Rightarrow> symbol_type"
  assumes static: "I k \<Longrightarrow> static_ok k"
    and types: "I k \<Longrightarrow> s_type (k_sym k s) = ty s"
    and quiet: "I k \<Longrightarrow> quiet f \<Longrightarrow> I (upd_sym s f k)"
    and menu: "I k \<Longrightarrow> I (upd_menu m (m_changed_update g) k)"
    and visible_prop: "I k \<Longrightarrow> I (set_prop_visible p t k)"
    and modules: "I k \<Longrightarrow> I (k\<lparr>k_modules_val := t\<rparr>)"
    and curr: "I k \<Longrightarrow> s \<notin> static_syms \<Longrightarrow> (ty s = S_BOOLEAN \<Longrightarrow> sv_tri v \<noteq> tri_mod) \<Longrightarrow>
      I (set_curr s v k)"
    and curr_val: "I k \<Longrightarrow> s \<notin> static_syms \<Longrightarrow> I (set_curr_val s w k)"
    and valid: "I k \<Longrightarrow> I (flag_on SYMBOL_VALID s k)"
    and need: "I k \<Longrightarrow> I (flag_off SYMBOL_NEED_SET_CHOICE_VALUES s k)"
    and set_all: "I k \<Longrightarrow> has_flag k c SYMBOL_NEED_SET_CHOICE_VALUES \<Longrightarrow>
      set_all_choice_values c k = Some k' \<Longrightarrow> I k'"
begin

lemma I_mark: "I k \<Longrightarrow> I (fold mark_menu ps k)"
  by (induction ps arbitrary: k) (auto simp: mark_menu_def intro: menu split: option.split)

lemma I_changed: "I k \<Longrightarrow> I (sym_set_changed s k)"
  unfolding sym_set_changed_def flag_on_def
  by (intro I_mark quiet) (auto simp: quiet_defs)

lemma I_all_changed: "I k \<Longrightarrow> I (sym_set_all_changed k)"
proof -
  have "I k \<Longrightarrow> I (fold sym_set_changed ss k)" for ss
    by (induction ss arbitrary: k) (auto intro: I_changed)
  then show "I k \<Longrightarrow> I (sym_set_all_changed k)" by (simp add: sym_set_all_changed_def)
qed

lemma I_write: "I k \<Longrightarrow> I (flag_on SYMBOL_WRITE s k)" "I k \<Longrightarrow> I (flag_off SYMBOL_WRITE s k)"
  unfolding flag_on_def flag_off_def by (intro quiet; auto simp: quiet_defs)+

lemma I_set_visible: "I k \<Longrightarrow> I (set_visible s t k)"
  unfolding set_visible_def by (auto simp: quiet_defs intro!: I_changed quiet)

lemma I_set_dep: "I k \<Longrightarrow> I (set_dir_dep s t k)" "I k \<Longrightarrow> I (set_rev_dep s t k)"
  unfolding set_dir_dep_def set_rev_dep_def by (auto simp: quiet_defs intro!: I_changed quiet)

lemma I_note_change: "I k \<Longrightarrow> I (note_change s v k)"
  by (auto simp: note_change_def Let_def intro: I_changed I_all_changed modules)

lemma I_propagate1: "I k \<Longrightarrow> I (propagate_choice1 s x k)"
  by (auto simp: propagate_choice1_def Let_def intro: I_changed I_write)

lemma I_propagate: "I k \<Longrightarrow> (\<And>k'. I k' \<Longrightarrow> Q k') \<Longrightarrow> post (propagate_choice s k) Q"
proof -
  have "I k \<Longrightarrow> I (fold (propagate_choice1 s) xs k)" for xs
    by (induction xs arbitrary: k) (auto intro: I_propagate1)
  then show "I k \<Longrightarrow> (\<And>k'. I k' \<Longrightarrow> Q k') \<Longrightarrow> post (propagate_choice s k) Q"
    by (auto simp: propagate_choice_def post_simps intro!: call_rules)
qed

lemma I_finish: "I k \<Longrightarrow> (\<And>k'. I k' \<Longrightarrow> Q k') \<Longrightarrow> post (finish_value s v k) Q"
  unfolding finish_value_def post_simps Let_def
  by (auto intro!: I_propagate I_note_change call_rules simp: post_simps intro: set_all I_write)

end

section \<open>The functions between two calls\<close>

locale calc_preserves = calc_invariant I ty
  for I :: "kconf \<Rightarrow> bool" and ty :: "sym \<Rightarrow> symbol_type" +
  fixes cv :: calc
  assumes cv [call_rules]: "I k \<Longrightarrow> (\<And>k'. I k' \<Longrightarrow> Q k') \<Longrightarrow> post (cv s k) Q"
begin

lemma P_opt [call_rules]: "I k \<Longrightarrow> (\<And>k'. I k' \<Longrightarrow> Q k') \<Longrightarrow> post (calc_opt cv so k) Q"
  by (auto simp: calc_opt_def post_simps intro: cv split: option.splits)

lemma P_string [call_rules]:
  "I k \<Longrightarrow> (\<And>x k'. I k' \<Longrightarrow> Q (x, k')) \<Longrightarrow> post (sym_get_string_value cv s k) Q"
  by (auto simp: sym_get_string_value_def post_simps intro!: call_rules split: tristate.splits)

lemma P_strings [call_rules]:
  "I k \<Longrightarrow> (\<And>x k'. I k' \<Longrightarrow> Q (x, k')) \<Longrightarrow> post (calc_strings cv a b k) Q"
  by (auto simp: calc_strings_def post_simps intro!: call_rules)

lemma P_expr1: "I k \<Longrightarrow> (\<And>x k'. I k' \<Longrightarrow> Q (x, k')) \<Longrightarrow> post (expr_calc_value1 cv e k) Q"
proof (induction e arbitrary: k Q)
  case (e_or l r)
  show ?case by (auto simp: post_simps e_or.prems intro!: e_or.IH)
next
  case (e_and l r)
  show ?case by (auto simp: post_simps e_and.prems intro!: e_and.IH)
next
  case (e_not e)
  show ?case by (auto simp: post_simps e_not.prems intro!: e_not.IH)
qed (auto simp: post_simps intro!: call_rules)

lemma P_expr [call_rules]:
  "I k \<Longrightarrow> (\<And>x k'. I k' \<Longrightarrow> Q (x, k')) \<Longrightarrow> post (expr_calc_value cv e k) Q"
  by (auto simp: expr_calc_value_def post_simps intro: P_expr1 split: option.splits)

lemma P_prop [call_rules]:
  "I k \<Longrightarrow> (\<And>x k'. I k' \<Longrightarrow> Q (x, k')) \<Longrightarrow> post (calc_prop_visible cv p k) Q"
  by (auto simp: calc_prop_visible_def post_simps visible_prop intro!: call_rules)

lemma P_first: "I k \<Longrightarrow> (\<And>x k'. I k' \<Longrightarrow> Q (x, k')) \<Longrightarrow> post (first_visible cv ps k) Q"
  by (induction ps arbitrary: k) (auto simp: post_simps intro!: call_rules)

lemma P_default [call_rules]:
  "I k \<Longrightarrow> (\<And>x k'. I k' \<Longrightarrow> Q (x, k')) \<Longrightarrow> post (sym_get_default_prop cv s k) Q"
  "I k \<Longrightarrow> (\<And>x k'. I k' \<Longrightarrow> Q (x, k')) \<Longrightarrow> post (sym_get_range_prop cv s k) Q"
  by (auto simp: sym_get_default_prop_def sym_get_range_prop_def intro: P_first)

lemma P_range_val [call_rules]:
  "I k \<Longrightarrow> (\<And>x k'. I k' \<Longrightarrow> Q (x, k')) \<Longrightarrow> post (sym_get_range_val cv s b k) Q"
  by (auto simp: sym_get_range_val_def post_simps intro!: call_rules)

lemma P_validate [call_rules]:
  "I k \<Longrightarrow> s \<notin> static_syms \<Longrightarrow> (\<And>k'. I k' \<Longrightarrow> Q k') \<Longrightarrow> post (sym_validate_range cv s k) Q"
  by (auto simp: sym_validate_range_def clamp_range_def Let_def post_simps curr_val
      intro!: call_rules split: option.splits)

lemma P_prompts [call_rules]:
  "I k \<Longrightarrow> (\<And>x k'. I k' \<Longrightarrow> Q (x, k')) \<Longrightarrow> post (prompts_visible cv ps t k) Q"
  by (induction ps arbitrary: k t) (auto simp: post_simps intro!: call_rules)

lemma P_visibility [call_rules]:
  "I k \<Longrightarrow> (\<And>k'. I k' \<Longrightarrow> Q k') \<Longrightarrow> post (sym_calc_visibility cv s k) Q"
  by (auto simp: sym_calc_visibility_def calc_dir_dep_def calc_rev_dep_def Let_def post_simps I_set_visible I_set_dep intro!: call_rules)

lemma P_choice_default:
  "I k \<Longrightarrow> (\<And>x k'. I k' \<Longrightarrow> Q (x, k')) \<Longrightarrow> post (choice_visible_default cv ps k) Q"
  by (induction ps arbitrary: k) (auto simp: post_simps intro!: call_rules)

lemma P_choice_default' [call_rules]:
  "I k \<Longrightarrow> (\<And>x k'. I k' \<Longrightarrow> Q (x, k')) \<Longrightarrow> post (sym_choice_default cv s k) Q"
  by (auto simp: sym_choice_default_def post_simps intro!: P_choice_default call_rules)

lemma P_visibilities [call_rules]:
  "I k \<Longrightarrow> (\<And>x k'. I k' \<Longrightarrow> Q (x, k')) \<Longrightarrow> post (calc_visibilities cv xs F k) Q"
  by (induction xs arbitrary: k F) (auto simp: post_simps intro!: call_rules)

lemma P_choice [call_rules]:
  assumes "I k" "s \<notin> static_syms" "\<And>x k'. I k' \<Longrightarrow> Q (x, k')"
  shows "post (sym_calc_choice cv s k) Q"
proof -
  have user: "I (upd_sym s (s_flags_update (\<lambda>F. {f \<in> F. f \<in> G \<or> f \<noteq> SYMBOL_DEF_USER})) k)"
    if "I k" for k G using that by (rule quiet) (auto simp: quiet_defs)
  have reset: "I (set_curr s ((s_curr (k_sym k s))\<lparr>sv_tri := tri_no\<rparr>) k)" if "I k" for k
    by (rule curr [OF that assms(2)]) simp
  show ?thesis
    unfolding sym_calc_choice_def Let_def post_simps
    by (auto simp: post_simps assms user reset intro!: call_rules)
qed

lemma P_tristate_default [call_rules]:
  "I k \<Longrightarrow> (\<And>x k'. I k' \<Longrightarrow> Q (x, k')) \<Longrightarrow> post (tristate_default cv s t k) Q"
  by (auto simp: tristate_default_def Let_def post_simps I_write
      intro!: call_rules split: option.splits)

lemma P_tristate [call_rules]:
  "I k \<Longrightarrow> (\<And>x k'. I k' \<Longrightarrow> Q (x, k')) \<Longrightarrow> post (calc_tristate cv s t k) Q"
  by (auto simp: calc_tristate_def Let_def post_simps I_write intro!: call_rules)

lemma P_calc_string [call_rules]:
  "I k \<Longrightarrow> (\<And>x k'. I k' \<Longrightarrow> Q (x, k')) \<Longrightarrow> post (calc_string cv s c k) Q"
  by (auto simp: calc_string_def string_default_def Let_def post_simps I_write intro!: call_rules split: option.splits)

lemma P_newval:
  "I k \<Longrightarrow> (\<And>w k'. I k' \<Longrightarrow> (sv_tri v = tri_no \<Longrightarrow> ty s = S_BOOLEAN \<Longrightarrow> sv_tri w \<noteq> tri_mod) \<Longrightarrow> Q (w, k')) \<Longrightarrow>
   post (calc_newval cv s v k) Q"
  by (auto simp: calc_newval_def Let_def post_simps types sym_get_type_simps intro!: call_rules)

lemma P_need: "I k \<Longrightarrow> (\<And>k'. I k' \<Longrightarrow> Q k') \<Longrightarrow> post (calc_need_choice cv s k) Q"
  by (auto simp: calc_need_choice_def Let_def post_simps need intro!: call_rules)

lemma P_body:
  assumes I: "I k" and s: "s \<notin> static_syms" and v: "sv_tri v = tri_no" and Q: "\<And>k'. I k' \<Longrightarrow> Q k'"
  shows "post (calc_value_body cv s old v k) Q"
proof -
  have c: "I (set_curr s w k)" if "I k" "ty s \<noteq> S_BOOLEAN \<or> sv_tri w \<noteq> tri_mod" for w k
    using curr [OF that(1) s] that(2) by blast
  show ?thesis
    unfolding calc_value_body_def Let_def post_simps
    using I s v by (auto simp: post_simps c I_write Q curr_val intro!: call_rules P_newval I_finish)
qed

lemma P_tail:
  assumes "I k" and s: "s \<notin> static_syms" and Q: "\<And>k'. I k' \<Longrightarrow> Q k'"
  shows "post (calc_value_tail cv s k) Q"
  using start_value_static [OF static [OF assms(1)]] P_body [OF assms(1) s _ Q]
    Q [OF curr [OF assms(1) s, of "name_value (k_sym k s)"]]
  by (auto simp: calc_value_tail_def post_simps name_value_def split: option.split)

lemma P_step:
  assumes "I k" and Q: "\<And>k'. I k' \<Longrightarrow> Q k'"
  shows "post (calc_value_step cv s k) Q"
proof (cases "has_flag k s SYMBOL_VALID")
  case True
  with assms show ?thesis by (simp add: calc_value_step_def post_simps)
next
  case False
  with static [OF assms(1)] have s: "s \<notin> static_syms" by (auto simp: static_ok_def)
  with False assms show ?thesis
    by (auto simp: calc_value_step_def post_simps valid intro!: P_need P_tail)
qed

end

context calc_invariant
begin

text \<open>The knot: \<open>sym_calc_value\<close> keeps every property that its updates keep.\<close>

lemma I_calc_value: "sym_calc_value n s k = Some k' \<Longrightarrow> I k \<Longrightarrow> I k'"
proof (induction n arbitrary: s k k')
  case (Suc n)
  have "calc_preserves I ty (sym_calc_value n)"
  proof
    fix k s Q assume "I k" and Q: "\<And>k'. I k' \<Longrightarrow> Q k'"
    then show "post (sym_calc_value n s k) Q" using Suc.IH by (auto intro: postI)
  qed
  from calc_preserves.P_step [OF this Suc.prems(2), of I] Suc.prems(1) show ?case
    by (auto dest: postD)
qed simp

end

section \<open>The frame of a calculation\<close>

text \<open>What a calculation never changes.\<close>

definition stable_flags :: "symbol \<Rightarrow> symbol_flag set" where
  "stable_flags x = loud_flags x - {SYMBOL_VALID, SYMBOL_NEED_SET_CHOICE_VALUES}"

definition static_view_sym where
  "static_view_sym x =
     (s_name x, s_type x, s_prop x, dep_exprs x, stable_flags x, \<lambda>i. sv_val (s_def x i))"

definition static_view_prop :: "property \<Rightarrow> property" where
  "static_view_prop = p_visible_update (ev_tri_update (\<lambda>_. tri_no))"

lemma static_view_prop_tri:
  "static_view_prop (p_visible_update (ev_tri_update f) p) = static_view_prop p"
  by (cases p; cases "p_visible p") (simp add: static_view_prop_def)

definition static_view where
  "static_view k = (\<lambda>s. static_view_sym (k_sym k s), \<lambda>p. static_view_prop (k_prop k p),
     k_all k, k_modules_sym k, k_change_count k)"

text \<open>
  What only decreases: a symbol not VALID weighs 1, and a mark NEED_SET_CHOICE_VALUES weighs
  2, because the symbol that loses it may become invalid again (\<open>set_all_choice_values\<close>).
\<close>

definition weight :: "kconf \<Rightarrow> sym \<Rightarrow> nat" where
  "weight k s = (if has_flag k s SYMBOL_VALID then 0 else 1) +
     (if has_flag k s SYMBOL_NEED_SET_CHOICE_VALUES then 2 else 0)"

definition calc_frame :: "kconf \<Rightarrow> kconf \<Rightarrow> bool" where
  "calc_frame k0 k \<longleftrightarrow>
     static_ok k \<and> static_view k = static_view k0 \<and> (\<forall>s. weight k s \<le> weight k0 s)"

lemma calc_frame_refl: "static_ok k \<Longrightarrow> calc_frame k k"
  by (simp add: calc_frame_def)

lemma calc_frame_trans: "calc_frame a b \<Longrightarrow> calc_frame b c \<Longrightarrow> calc_frame a c"
  by (auto simp: calc_frame_def intro: le_trans)

text \<open>An update of one symbol stays in the frame if it keeps the static view, the validity of
  the static symbols, and does not add weight.\<close>

lemma calc_frame_upd:
  assumes f: "calc_frame k0 k"
    and v: "static_view_sym (f (k_sym k s)) = static_view_sym (k_sym k s)"
    and st: "s \<in> static_syms \<Longrightarrow> s_curr (f (k_sym k s)) = s_curr (k_sym k s) \<and>
      SYMBOL_VALID \<in> s_flags (f (k_sym k s)) \<and> SYMBOL_NEED_SET_CHOICE_VALUES \<notin> s_flags (f (k_sym k s))"
    and w: "weight (upd_sym s f k) s \<le> weight k s"
  shows "calc_frame k0 (upd_sym s f k)"
proof -
  have "weight (upd_sym s f k) t = weight k t" if "t \<noteq> s" for t
    using that by (simp add: weight_def has_flag_def)
  then have "\<forall>t. weight (upd_sym s f k) t \<le> weight k0 t"
    using f w by (metis calc_frame_def le_trans)
  moreover have "static_view (upd_sym s f k) = static_view k"
    using v by (auto simp: static_view_def fun_eq_iff)
  moreover have "static_ok (upd_sym s f k)"
    using f st by (auto simp: calc_frame_def static_ok_def has_flag_def)
  ultimately show ?thesis using f by (simp add: calc_frame_def)
qed

lemmas frame_defs = static_view_sym_def stable_flags_def quiet_defs weight_def has_flag_def

lemma has_flag_loud:
  "loud_flags x = loud_flags y \<Longrightarrow> f \<notin> {SYMBOL_WRITE, SYMBOL_CHANGED, SYMBOL_DEF_USER} \<Longrightarrow>
   f \<in> s_flags x \<longleftrightarrow> f \<in> s_flags y"
  by (auto simp: loud_flags_def)

lemma frame_quiet: "calc_frame k0 k \<Longrightarrow> quiet f \<Longrightarrow> calc_frame k0 (upd_sym s f k)"
proof (rule calc_frame_upd)
  assume f: "calc_frame k0 k" "quiet f"
  let ?x = "k_sym k s"
  have l: "loud_flags (f ?x) = loud_flags ?x" using f(2) by (simp add: quiet_def)
  note fl = has_flag_loud [OF l, of SYMBOL_VALID] has_flag_loud [OF l, of SYMBOL_NEED_SET_CHOICE_VALUES]
  show "static_view_sym (f ?x) = static_view_sym ?x"
    using f(2) by (simp add: quiet_def static_view_sym_def stable_flags_def)
  show "weight (upd_sym s f k) s \<le> weight k s" using fl by (simp add: weight_def has_flag_def)
  show "s_curr (f ?x) = s_curr ?x \<and> SYMBOL_VALID \<in> s_flags (f ?x) \<and>
      SYMBOL_NEED_SET_CHOICE_VALUES \<notin> s_flags (f ?x)" if "s \<in> static_syms"
    using f fl that by (auto simp: calc_frame_def static_ok_def quiet_def has_flag_def)
qed

lemma frame_curr:
  "calc_frame k0 k \<Longrightarrow> s \<notin> static_syms \<Longrightarrow> calc_frame k0 (set_curr s v k)"
  unfolding set_curr_def by (rule calc_frame_upd) (simp_all add: frame_defs)

lemma frame_valid:
  "calc_frame k0 k \<Longrightarrow> calc_frame k0 (flag_on SYMBOL_VALID s k)"
  "calc_frame k0 k \<Longrightarrow> calc_frame k0 (flag_off SYMBOL_NEED_SET_CHOICE_VALUES s k)"
  unfolding flag_on_def flag_off_def
  by (rule calc_frame_upd; auto simp: frame_defs calc_frame_def static_ok_def)+

lemma frame_unset: "calc_frame k0 k \<Longrightarrow> calc_frame k0 (fold unset_def_user xs k)"
proof (induction xs arbitrary: k)
  case (Cons x xs)
  have st: "x \<in> static_syms \<Longrightarrow> SYMBOL_VALID \<in> s_flags (k_sym k x) \<and>
      SYMBOL_NEED_SET_CHOICE_VALUES \<notin> s_flags (k_sym k x)"
    using Cons.prems by (simp add: calc_frame_def static_ok_def has_flag_def)
  have "calc_frame k0 (unset_def_user x k)"
    unfolding unset_def_user_def
    by (simp add: Cons.prems, intro impI calc_frame_upd [OF Cons.prems])
      (use st in \<open>auto simp: frame_defs\<close>)
  with Cons.IH show ?case by simp
qed simp

lemma unset_flags [simp]: "s_flags (k_sym (fold unset_def_user xs k) s) = s_flags (k_sym k s)"
  by (induction xs arbitrary: k) (auto simp: unset_def_user_def)

lemma frame_set_all:
  assumes f: "calc_frame k0 k" and c: "has_flag k c SYMBOL_NEED_SET_CHOICE_VALUES"
    and r: "set_all_choice_values c k = Some k'"
  shows "calc_frame k0 k'"
proof -
  obtain p where k': "k' = flag_off SYMBOL_NEED_SET_CHOICE_VALUES c (flag_off SYMBOL_VALID c
      (flag_on SYMBOL_DEF_USER c (fold unset_def_user (choice_list k p) k)))"
    using r by (auto simp: set_all_choice_values_def Let_def elim!: bind_eq_SomeE)
  define k1 where "k1 = fold unset_def_user (choice_list k p) k"
  define g :: "symbol \<Rightarrow> symbol" where "g = s_flags_update (\<lambda>F. insert SYMBOL_DEF_USER F - {SYMBOL_VALID, SYMBOL_NEED_SET_CHOICE_VALUES})"
  have g: "k' = upd_sym c g k1"
  proof -
    have "(insert SYMBOL_DEF_USER F - {SYMBOL_VALID}) - {SYMBOL_NEED_SET_CHOICE_VALUES} =
        insert SYMBOL_DEF_USER F - {SYMBOL_VALID, SYMBOL_NEED_SET_CHOICE_VALUES}" for F by blast
    then show ?thesis
      by (simp add: k' k1_def [symmetric] g_def flag_on_def flag_off_def upd_sym_def comp_def)
  qed
  have k1: "calc_frame k0 k1" unfolding k1_def by (rule frame_unset [OF f])
  have need: "SYMBOL_NEED_SET_CHOICE_VALUES \<in> s_flags (k_sym k1 c)"
    using c by (simp add: k1_def has_flag_def)
  then have "c \<notin> static_syms" using k1 by (auto simp: calc_frame_def static_ok_def has_flag_def)
  then show ?thesis unfolding g using need
    by (intro calc_frame_upd [OF k1]) (auto simp: g_def frame_defs)
qed

interpretation frame: calc_invariant "calc_frame k0" "\<lambda>s. s_type (k_sym k0 s)" for k0
proof
  show "static_ok k" if "calc_frame k0 k" for k using that by (simp add: calc_frame_def)
  show "s_type (k_sym k s) = s_type (k_sym k0 s)" if "calc_frame k0 k" for k s
    using that by (auto simp: calc_frame_def static_view_def static_view_sym_def fun_eq_iff)
  show "calc_frame k0 (upd_menu m (m_changed_update g) k)" if "calc_frame k0 k" for m g k
    using that by (simp add: calc_frame_def static_ok_def static_view_def weight_def has_flag_def)
  show "calc_frame k0 (set_prop_visible p t k)" if "calc_frame k0 k" for p t k
    using that by (auto simp: set_prop_visible_def calc_frame_def static_ok_def static_view_def
        weight_def has_flag_def static_view_prop_tri fun_eq_iff)
  show "calc_frame k0 (k\<lparr>k_modules_val := t\<rparr>)" if "calc_frame k0 k" for k t
    using that by (simp add: calc_frame_def static_ok_def static_view_def weight_def has_flag_def)
  show "calc_frame k0 (set_curr_val s w k)" if "calc_frame k0 k" "s \<notin> static_syms" for s w k
    unfolding set_curr_val_def by (rule frame_curr [OF that])
qed (auto intro: frame_quiet frame_curr frame_valid frame_set_all)

lemma calc_value_frame:
  assumes "sym_calc_value n s k = Some k'" "static_ok k"
  shows "calc_frame k k'"
  by (rule frame.I_calc_value [OF assms(1) calc_frame_refl [OF assms(2)]])

end
