(* ===== verification/Symterm.thy ===== *)
theory Symterm
  imports Symframe
begin

text \<open>
  Consequences of the frame: bool symbols are never m, a symbol is valid after its
  calculation and a second calculation does nothing, and the calculation ends: beyond a
  bound that depends on the symbols still to calculate, more fuel changes nothing, so
  \<open>calc_value\<close> satisfies the recursion of the C code without fuel.
\<close>

section \<open>Values of bool symbols\<close>

definition bool_inv :: "(sym \<Rightarrow> symbol_type) \<Rightarrow> kconf \<Rightarrow> bool" where
  "bool_inv ty k \<longleftrightarrow> static_ok k \<and> (\<forall>s. s_type (k_sym k s) = ty s) \<and>
     (\<forall>s. ty s = S_BOOLEAN \<longrightarrow> sv_tri (s_curr (k_sym k s)) \<noteq> tri_mod)"

text \<open>An update in the frame that keeps the current values keeps the invariant.\<close>

lemma bool_inv_frame:
  assumes "bool_inv ty k" "calc_frame k k'"
    and "\<And>s. ty s = S_BOOLEAN \<Longrightarrow> sv_tri (s_curr (k_sym k s)) \<noteq> tri_mod \<Longrightarrow>
      sv_tri (s_curr (k_sym k' s)) \<noteq> tri_mod"
  shows "bool_inv ty k'"
  using assms frame.types [OF assms(2)] frame.static [OF assms(2)] by (auto simp: bool_inv_def)

lemma unset_curr [simp]: "s_curr (k_sym (fold unset_def_user xs k) s) = s_curr (k_sym k s)"
  by (induction xs arbitrary: k) (auto simp: unset_def_user_def)

lemma set_all_curr:
  "set_all_choice_values c k = Some k' \<Longrightarrow> s_curr (k_sym k' s) = s_curr (k_sym k s)"
  by (auto simp: set_all_choice_values_def Let_def flag_on_def flag_off_def elim!: bind_eq_SomeE)

interpretation bool_values: calc_invariant "bool_inv ty" ty for ty
proof
  fix k assume I: "bool_inv ty k"
  then have st: "static_ok k" by (simp add: bool_inv_def)
  note f = calc_frame_refl [OF st]
  show "static_ok k" by (rule st)
  show "s_type (k_sym k s) = ty s" for s using I by (simp add: bool_inv_def)
  show "bool_inv ty (upd_sym s g k)" if "quiet g" for s g
    by (rule bool_inv_frame [OF I frame.quiet [OF f that]]) (use that in \<open>auto simp: quiet_def\<close>)
  show "bool_inv ty (upd_menu m (m_changed_update g) k)" for m g
    using bool_inv_frame [OF I frame.menu [OF f]] by simp
  show "bool_inv ty (set_prop_visible p t k)" for p t
    using bool_inv_frame [OF I frame.visible_prop [OF f]] by (simp add: set_prop_visible_def)
  show "bool_inv ty (k\<lparr>k_modules_val := t\<rparr>)" for t
    using bool_inv_frame [OF I frame.modules [OF f]] by simp
  show "bool_inv ty (set_curr s v k)" if "s \<notin> static_syms" "ty s = S_BOOLEAN \<Longrightarrow> sv_tri v \<noteq> tri_mod" for s v
    by (rule bool_inv_frame [OF I frame_curr [OF f that(1)]])
      (use that(2) in \<open>auto simp: set_curr_def split: if_splits\<close>)
  show "bool_inv ty (set_curr_val s w k)" if "s \<notin> static_syms" for s w
    by (rule bool_inv_frame [OF I frame.curr_val [OF f that]])
      (auto simp: set_curr_val_def set_curr_def split: if_splits)
  show "bool_inv ty (flag_on SYMBOL_VALID s k)" for s
    by (rule bool_inv_frame [OF I frame.valid [OF f]]) (auto simp: flag_on_def split: if_splits)
  show "bool_inv ty (flag_off SYMBOL_NEED_SET_CHOICE_VALUES s k)" for s
    by (rule bool_inv_frame [OF I frame.need [OF f]]) (auto simp: flag_off_def split: if_splits)
  show "bool_inv ty k'" if "has_flag k c SYMBOL_NEED_SET_CHOICE_VALUES"
    "set_all_choice_values c k = Some k'" for c k'
    using bool_inv_frame [OF I frame.set_all [OF f that]] set_all_curr [OF that(2)] by simp
qed

lemma calc_value_bool:
  assumes "sym_calc_value n s k = Some k'" "bool_inv ty k"
  shows "bool_inv ty k'"
  by (rule bool_values.I_calc_value [OF assms])

section \<open>Validity\<close>

lemma calc_value_again: "has_flag k s SYMBOL_VALID \<Longrightarrow> sym_calc_value (Suc n) s k = Some k"
  by (simp add: calc_value_step_def)

lemma calc_preserves_frame: "calc_preserves (calc_frame k0) (\<lambda>s. s_type (k_sym k0 s)) (sym_calc_value n)"
proof
  fix k s Q assume "calc_frame k0 k" "\<And>k'. calc_frame k0 k' \<Longrightarrow> Q k'"
  then show "post (sym_calc_value n s k) Q"
    using frame.I_calc_value [of n s k _ k0] by (auto intro: postI)
qed

interpretation frame_calls: calc_preserves "calc_frame k0" "\<lambda>s. s_type (k_sym k0 s)" "sym_calc_value n" for k0 n
  by (rule calc_preserves_frame)

lemma weight_valid:
  "weight k' s \<le> weight k s \<Longrightarrow> has_flag k s SYMBOL_VALID \<Longrightarrow>
   \<not> has_flag k s SYMBOL_NEED_SET_CHOICE_VALUES \<Longrightarrow>
   has_flag k' s SYMBOL_VALID \<and> \<not> has_flag k' s SYMBOL_NEED_SET_CHOICE_VALUES"
  by (auto simp: weight_def split: if_splits)

lemma calc_frame_valid:
  "calc_frame k k' \<Longrightarrow> has_flag k s SYMBOL_VALID \<Longrightarrow>
   \<not> has_flag k s SYMBOL_NEED_SET_CHOICE_VALUES \<Longrightarrow>
   has_flag k' s SYMBOL_VALID \<and> \<not> has_flag k' s SYMBOL_NEED_SET_CHOICE_VALUES"
  by (rule weight_valid) (auto simp: calc_frame_def)

lemma static_ok_valid: "static_ok k \<Longrightarrow> static_ok (flag_on SYMBOL_VALID s k)"
  using frame.valid [OF calc_frame_refl] by (simp add: calc_frame_def)

lemma calc_value_valid:
  assumes run: "sym_calc_value n s k = Some k'" and st: "static_ok k"
    and need: "\<not> has_flag k s SYMBOL_NEED_SET_CHOICE_VALUES"
  shows "has_flag k' s SYMBOL_VALID"
proof (cases "has_flag k s SYMBOL_VALID")
  case True
  with run show ?thesis by (cases n) (auto simp: calc_value_step_def)
next
  case False
  obtain m where n: "n = Suc m" using run by (cases n) auto
  let ?k = "flag_on SYMBOL_VALID s k"
  have tail: "calc_value_tail (sym_calc_value m) s ?k = Some k'"
    using run n False need by (simp add: calc_value_step_def calc_need_choice_def)
  have f: "calc_frame ?k ?k" by (rule calc_frame_refl [OF static_ok_valid [OF st]])
  have s: "s \<notin> static_syms" using st False by (auto simp: static_ok_def)
  have "calc_frame ?k k'"
    using calc_preserves.P_tail [OF calc_preserves_frame f s, of "calc_frame ?k" m] tail
    by (auto dest: postD)
  then show ?thesis
    using calc_frame_valid [of ?k k' s] need by (auto simp: has_flag_def flag_on_def)
qed

section \<open>Fuel\<close>

text \<open>Two evaluators that agree on the states a calculation can reach give the same results.\<close>

lemma agree_bind: "m = m' \<Longrightarrow> post m' (\<lambda>x. f x = g x) \<Longrightarrow> m \<bind> f = m' \<bind> g"
  by (cases m') (auto simp: post_def)

locale calc_agree = calc_preserves "calc_frame k0" "\<lambda>s. s_type (k_sym k0 s)" cv
  for k0 :: kconf and cv :: calc +
  fixes cv' :: calc
  assumes agree: "calc_frame k0 k \<Longrightarrow> cv' s k = cv s k"
begin

abbreviation (input) F where "F \<equiv> calc_frame k0"

lemma A_opt: "F k \<Longrightarrow> calc_opt cv' so k = calc_opt cv so k"
  by (simp add: calc_opt_def agree split: option.split)

lemma A_string: "F k \<Longrightarrow> sym_get_string_value cv' s k = sym_get_string_value cv s k"
  by (auto simp: sym_get_string_value_def A_opt split: tristate.split)

lemma A_strings: "F k \<Longrightarrow> calc_strings cv' a b k = calc_strings cv a b k"
  by (auto simp: calc_strings_def agree A_string intro!: agree_bind call_rules)

lemma A_expr1: "F k \<Longrightarrow> expr_calc_value1 cv' e k = expr_calc_value1 cv e k"
  by (induction e arbitrary: k)
    (auto simp: agree A_strings intro!: agree_bind call_rules P_expr1)

lemma A_expr: "F k \<Longrightarrow> expr_calc_value cv' e k = expr_calc_value cv e k"
  by (simp add: expr_calc_value_def A_expr1 split: option.split)

lemma A_prop: "F k \<Longrightarrow> calc_prop_visible cv' p k = calc_prop_visible cv p k"
  by (auto simp: calc_prop_visible_def A_expr)

lemma A_first: "F k \<Longrightarrow> first_visible cv' ps k = first_visible cv ps k"
  by (induction ps arbitrary: k) (auto simp: A_prop intro!: agree_bind call_rules)

lemma A_default: "F k \<Longrightarrow> sym_get_default_prop cv' s k = sym_get_default_prop cv s k"
  "F k \<Longrightarrow> sym_get_range_prop cv' s k = sym_get_range_prop cv s k"
  by (simp_all add: sym_get_default_prop_def sym_get_range_prop_def A_first)

lemma A_range_val: "F k \<Longrightarrow> sym_get_range_val cv' s b k = sym_get_range_val cv s b k"
  by (auto simp: sym_get_range_val_def agree)

lemma A_validate: "F k \<Longrightarrow> sym_validate_range cv' s k = sym_validate_range cv s k"
  by (auto simp: sym_validate_range_def clamp_range_def Let_def A_default A_range_val
      intro!: agree_bind call_rules split: option.split)

lemma A_prompts: "F k \<Longrightarrow> prompts_visible cv' ps t k = prompts_visible cv ps t k"
  by (induction ps arbitrary: k t) (auto simp: A_prop intro!: agree_bind call_rules)

lemma A_visibility: "F k \<Longrightarrow> sym_calc_visibility cv' s k = sym_calc_visibility cv s k"
  unfolding sym_calc_visibility_def calc_dir_dep_def calc_rev_dep_def Let_def
  by (auto simp: A_prompts A_expr I_set_visible I_set_dep post_simps intro!: agree_bind call_rules)

lemma A_choice_default: "F k \<Longrightarrow> choice_visible_default cv' ps k = choice_visible_default cv ps k"
  by (induction ps arbitrary: k) (auto simp: A_prop intro!: agree_bind call_rules)

lemma A_choice_default': "F k \<Longrightarrow> sym_choice_default cv' s k = sym_choice_default cv s k"
  by (simp add: sym_choice_default_def A_choice_default)

lemma A_visibilities: "F k \<Longrightarrow> calc_visibilities cv' xs G k = calc_visibilities cv xs G k"
  by (induction xs arbitrary: k G) (auto simp: A_visibility intro!: agree_bind call_rules)

lemma A_choice: "F k \<Longrightarrow> sym_calc_choice cv' s k = sym_calc_choice cv s k"
proof -
  have user: "F (upd_sym s (s_flags_update (\<lambda>F. {f \<in> F. f \<in> G \<or> f \<noteq> SYMBOL_DEF_USER})) k)"
    if "F k" for k G using that by (rule quiet) (auto simp: quiet_defs)
  assume "F k"
  then show ?thesis
    unfolding sym_calc_choice_def Let_def
    by (auto simp: A_visibilities A_choice_default' user intro!: agree_bind call_rules)
qed

lemma A_tristate_default: "F k \<Longrightarrow> tristate_default cv' s t k = tristate_default cv s t k"
  unfolding tristate_default_def Let_def
  by (auto simp: A_default A_expr I_write intro!: agree_bind call_rules split: option.split)

lemma A_tristate: "F k \<Longrightarrow> calc_tristate cv' s t k = calc_tristate cv s t k"
  by (auto simp: calc_tristate_def Let_def A_tristate_default I_write)

lemma A_calc_string: "F k \<Longrightarrow> calc_string cv' s c k = calc_string cv s c k"
  unfolding calc_string_def string_default_def Let_def
  by (auto simp: A_default agree I_write intro!: agree_bind call_rules split: option.split)

lemma A_newval: "F k \<Longrightarrow> calc_newval cv' s v k = calc_newval cv s v k"
  by (simp add: calc_newval_def A_tristate A_calc_string)

lemma A_body: "F k \<Longrightarrow> s \<notin> static_syms \<Longrightarrow> calc_value_body cv' s old v k = calc_value_body cv s old v k"
  unfolding calc_value_body_def Let_def
  by (auto simp: A_visibility A_newval A_choice A_validate I_write frame_curr curr_val post_simps
      intro!: agree_bind call_rules P_newval)

lemma A_tail: "F k \<Longrightarrow> s \<notin> static_syms \<Longrightarrow> calc_value_tail cv' s k = calc_value_tail cv s k"
  by (simp add: calc_value_tail_def A_body split: option.split)

end

text \<open>The symbols still to calculate, each by its weight.\<close>

definition pending :: "kconf \<Rightarrow> sym set" where
  "pending k = {s. weight k s \<noteq> 0}"

definition todo :: "kconf \<Rightarrow> nat" where
  "todo k = (\<Sum>s \<in> pending k. weight k s)"

lemma todo_frame:
  assumes "calc_frame k k'" "finite (pending k)"
  shows "finite (pending k')" "todo k' \<le> todo k" "weight k' s < weight k s \<Longrightarrow> todo k' < todo k"
proof -
  have w: "\<forall>s. weight k' s \<le> weight k s" using assms(1) by (simp add: calc_frame_def)
  then have sub: "pending k' \<subseteq> pending k"
    unfolding pending_def by (metis (mono_tags, lifting) Collect_mono le_zero_eq)
  then show fin: "finite (pending k')" using assms(2) by (rule finite_subset)
  have t: "todo k' = (\<Sum>s \<in> pending k. weight k' s)"
    unfolding todo_def using sub assms(2)
    by (intro sum.mono_neutral_left) (auto simp: pending_def)
  show "todo k' \<le> todo k"
    by (subst t) (use w in \<open>auto simp: todo_def intro: sum_mono\<close>)
  show "todo k' < todo k" if l: "weight k' s < weight k s"
  proof -
    have "s \<in> pending k" using l by (simp add: pending_def)
    then show ?thesis
      by (subst t) (use w l assms(2) in \<open>auto simp: todo_def intro!: sum_strict_mono_ex1\<close>)
  qed
qed

lemma flag_valid_frame:
  assumes st: "static_ok k" and inv: "\<not> has_flag k s SYMBOL_VALID"
  shows "calc_frame k (flag_on SYMBOL_VALID s k)" "weight (flag_on SYMBOL_VALID s k) s < weight k s"
  using frame.valid [OF calc_frame_refl [OF st]] inv
  by (auto simp: weight_def has_flag_def flag_on_def)

lemma flag_need_frame:
  assumes st: "static_ok k" and need: "has_flag k s SYMBOL_NEED_SET_CHOICE_VALUES"
  shows "calc_frame k (flag_off SYMBOL_NEED_SET_CHOICE_VALUES s k)"
    "weight (flag_off SYMBOL_NEED_SET_CHOICE_VALUES s k) s < weight k s"
  using frame.need [OF calc_frame_refl [OF st]] need
  by (auto simp: weight_def has_flag_def flag_off_def)

text \<open>A step makes its calls in states with less to do.\<close>

lemma step_agree:
  assumes st: "static_ok k" and fin: "finite (pending k)"
    and agree: "\<And>s k'. static_ok k' \<Longrightarrow> finite (pending k') \<Longrightarrow> todo k' < todo k \<Longrightarrow>
      cv s k' = sym_calc_value n s k'"
  shows "calc_value_step (cv) s k = calc_value_step (sym_calc_value n) s k"
proof (cases "has_flag k s SYMBOL_VALID")
  case False
  then have s: "s \<notin> static_syms" using st by (auto simp: static_ok_def)
  have agree_below: "cv t k'' = sym_calc_value n t k''"
    if "calc_frame k k'" "calc_frame k' k''" "todo k' < todo k" for t k' k''
  proof (rule agree)
    show "static_ok k''" using that(2) by (simp add: calc_frame_def)
    show "finite (pending k'')" "todo k'' < todo k"
      using todo_frame [OF that(2)] todo_frame [OF that(1) fin] that(3) by auto
  qed
  have need: "calc_need_choice (cv) s k = calc_need_choice (sym_calc_value n) s k"
  proof (cases "has_flag k s SYMBOL_CHOICEVAL \<and> has_flag k s SYMBOL_NEED_SET_CHOICE_VALUES")
    case True
    let ?k = "flag_off SYMBOL_NEED_SET_CHOICE_VALUES s k"
    have "static_ok ?k" using flag_need_frame(1) [OF st, of s] True by (simp add: calc_frame_def)
    then have "cv t ?k = sym_calc_value n t ?k" for t
      using agree_below [of ?k ?k t] flag_need_frame [OF st, of s] True todo_frame(3) [OF _ fin]
        calc_frame_refl by blast
    with True show ?thesis
      by (auto simp: calc_need_choice_def calc_opt_def Let_def intro!: agree_bind call_rules
          split: option.split)
  qed (simp only: calc_need_choice_def if_False)
  have "post (calc_need_choice (sym_calc_value n) s k)
     (\<lambda>k'. calc_value_tail (cv) s (flag_on SYMBOL_VALID s k') =
           calc_value_tail (sym_calc_value n) s (flag_on SYMBOL_VALID s k'))"
  proof (rule calc_preserves.P_need [OF calc_preserves_frame calc_frame_refl [OF st]])
    fix k' assume k': "calc_frame k k'"
    let ?k = "flag_on SYMBOL_VALID s k'"
    have st': "static_ok k'" using k' by (simp add: calc_frame_def)
    have f: "calc_frame k ?k" using frame.valid [OF k'] .
    have "weight ?k s < weight k s"
      using k' False by (auto simp: calc_frame_def weight_def has_flag_def flag_on_def split: if_splits)
    then have less: "todo ?k < todo k" by (rule todo_frame(3) [OF f fin])
    have "calc_agree ?k (sym_calc_value n) (cv)"
      by (intro calc_agree.intro calc_agree_axioms.intro calc_preserves_frame agree_below [OF f _ less])
    from calc_agree.A_tail [OF this calc_frame_refl [OF static_ok_valid [OF st']] s]
    show "calc_value_tail (cv) s ?k = calc_value_tail (sym_calc_value n) s ?k" .
  qed
  with need show ?thesis
    by (auto simp: calc_value_step_def False intro: agree_bind)
qed (simp add: calc_value_step_def)

lemma calc_value_more_fuel:
  "static_ok k \<Longrightarrow> finite (pending k) \<Longrightarrow> todo k < m \<Longrightarrow> todo k < n \<Longrightarrow>
   sym_calc_value m s k = sym_calc_value n s k"
proof (induction "todo k" arbitrary: k s m n rule: less_induct)
  case less
  obtain i j where mn: "m = Suc i" "n = Suc j" using less.prems by (cases m; cases n) auto
  have "sym_calc_value i t k' = sym_calc_value j t k'"
    if "static_ok k'" "finite (pending k')" "todo k' < todo k" for t k'
    using that(3) less.prems(3,4) mn by (intro less.hyps [OF that(3,1,2)]) linarith+
  from step_agree [OF less.prems(1,2), of "sym_calc_value i" j s, OF this] show ?case
    unfolding mn sym_calc_value.simps .
qed

text \<open>\<^verbatim>\<open>sym_calc_value\<close> without fuel: \<open>None\<close> is a crash of the C code, never a lack of
  fuel.\<close>

definition calc_value :: calc where
  "calc_value s k = sym_calc_value (Suc (todo k)) s k"

lemma calc_value_fuel:
  "static_ok k \<Longrightarrow> finite (pending k) \<Longrightarrow> todo k < n \<Longrightarrow> sym_calc_value n s k = calc_value s k"
  unfolding calc_value_def by (rule calc_value_more_fuel) auto

text \<open>The recursion of the C code.\<close>

lemma calc_value_rec:
  assumes "static_ok k" "finite (pending k)"
  shows "calc_value s k = calc_value_step calc_value s k"
proof -
  have "calc_value t k' = sym_calc_value (todo k) t k'"
    if "static_ok k'" "finite (pending k')" "todo k' < todo k" for t k'
    using calc_value_fuel [OF that] by simp
  from step_agree [OF assms, of calc_value "todo k" s, OF this] show ?thesis
    by (simp add: calc_value_def)
qed

text \<open>The recursion with its last step written out makes the same calls.\<close>

interpretation last_step: calc_agree k0 "sym_calc_value (Suc n)" "calc_value_step (sym_calc_value n)" for k0 n
  by unfold_locales simp

end
