(* ===== verification/Symspec.thy ===== *)
theory Symspec
  imports Symterm
begin

text \<open>
  What the values of symbols mean, without an order of evaluation: each value as a function
  of the values of the symbols it depends on (\<open>spec_value\<close>), and the refinement theorem:
  on symbols whose dependencies are acyclic and lead to no choice, \<^verbatim>\<open>sym_calc_value\<close>
  returns, and in the state it returns every calculated symbol has its specified value.
\<close>

section \<open>The specification\<close>

definition raw_string :: "kconf \<Rightarrow> sym \<Rightarrow> string" where
  "raw_string k u = (case cval_string (sv_val (s_curr (k_sym k u))) of Some x \<Rightarrow> x | None \<Rightarrow> [])"

definition modules_off :: "kconf \<Rightarrow> bool" where
  "modules_off k \<longleftrightarrow>
     (case k_modules_sym k of None \<Rightarrow> False | Some m \<Rightarrow> sv_tri (s_curr (k_sym k m)) = tri_no)"

definition string_value :: "kconf \<Rightarrow> sym \<Rightarrow> string" where
  "string_value k u =
     (if s_type (k_sym k u) = S_BOOLEAN \<or> s_type (k_sym k u) = S_TRISTATE then
        (if sv_tri (s_curr (k_sym k u)) = tri_mod \<and> modules_off k then ''n''
         else tri_string (sv_tri (s_curr (k_sym k u))))
      else raw_string k u)"

text \<open>The valuation a state stands for.\<close>

definition val_of :: "kconf \<Rightarrow> valuation" where
  "val_of k u = (sv_tri (s_curr (k_sym k u)), string_value k u)"

definition cond_val :: "kconf \<Rightarrow> pid \<Rightarrow> tristate" where
  "cond_val k p = expr_val_opt (val_of k) (ev_expr (p_visible (k_prop k p)))"

definition spec_first :: "kconf \<Rightarrow> pid list \<Rightarrow> pid option" where
  "spec_first k ps = List.find (\<lambda>p. cond_val k p \<noteq> tri_no) ps"

definition spec_visible :: "kconf \<Rightarrow> sym \<Rightarrow> tristate" where
  "spec_visible k s =
     (let tri = foldl EXPR_OR tri_no (map (cond_val k) (for_all_prompts k s)) in
      if tri = tri_mod \<and> (s_type (k_sym k s) \<noteq> S_TRISTATE \<or> k_modules_val k = tri_no)
      then tri_yes else tri)"

definition spec_dir_dep :: "kconf \<Rightarrow> sym \<Rightarrow> tristate" where
  "spec_dir_dep k s =
     (let tri = expr_val_opt (val_of k) (ev_expr (s_dir_dep (k_sym k s))) in
      if tri = tri_mod then tri_yes else tri)"

definition spec_rev_dep :: "kconf \<Rightarrow> sym \<Rightarrow> tristate" where
  "spec_rev_dep k s =
     (case ev_expr (s_rev_dep (k_sym k s)) of None \<Rightarrow> tri_no
      | Some e \<Rightarrow>
          (let tri = expr_val (val_of k) e in
           if tri = tri_mod \<and> sym_get_type k s = S_BOOLEAN then tri_yes else tri))"

text \<open>A bool or tristate symbol: the user's value where it is visible, else the first default
  whose condition holds; at least the reverse dependencies; no m for a bool.\<close>

definition spec_tri :: "kconf \<Rightarrow> sym \<Rightarrow> tristate" where
  "spec_tri k s =
     (let base =
        (if spec_visible k s \<noteq> tri_no \<and> has_flag k s SYMBOL_DEF_USER
         then EXPR_AND (sv_tri (s_def (k_sym k s) S_DEF_USER)) (spec_visible k s)
         else case spec_first k (for_all_properties k s P_DEFAULT) of
           None \<Rightarrow> tri_no
         | Some p \<Rightarrow> EXPR_AND (expr_val_opt (val_of k) (p_expr (k_prop k p))) (cond_val k p));
        tri = EXPR_OR base (spec_rev_dep k s)
      in if tri = tri_mod \<and> sym_get_type k s = S_BOOLEAN then tri_yes else tri)"

text \<open>A string or number: the user's value or that of the default's symbol, moved into the
  range.\<close>

definition spec_string :: "kconf \<Rightarrow> sym \<Rightarrow> string" where
  "spec_string k s =
     (if spec_visible k s \<noteq> tri_no \<and> has_flag k s SYMBOL_DEF_USER
      then (case cval_string (sv_val (s_def (k_sym k s) S_DEF_USER)) of Some x \<Rightarrow> x | None \<Rightarrow> [])
      else case spec_first k (for_all_properties k s P_DEFAULT) of
        None \<Rightarrow> []
      | Some p \<Rightarrow> (case prop_get_symbol k p of None \<Rightarrow> [] | Some ds \<Rightarrow> raw_string k ds))"

definition range_val :: "kconf \<Rightarrow> sym \<Rightarrow> nat \<Rightarrow> int" where
  "range_val k u base = strtoll (type_base (s_type (k_sym k u)) base) (raw_string k u)"

definition spec_range :: "kconf \<Rightarrow> sym \<Rightarrow> string \<Rightarrow> string" where
  "spec_range k s str =
     (let ty = s_type (k_sym k s); base = type_base ty 0 in
      if ty \<noteq> S_INT \<and> ty \<noteq> S_HEX then str
      else case spec_first k (for_all_properties k s P_RANGE) of None \<Rightarrow> str
      | Some p \<Rightarrow>
          (case range_syms (p_expr (k_prop k p)) of None \<Rightarrow> str
           | Some (lo, hi) \<Rightarrow>
               if strtoll base str < range_val k lo base then print_number ty (range_val k lo base)
               else if strtoll base str \<le> range_val k hi base then str
               else print_number ty (range_val k hi base)))"

definition spec_value :: "kconf \<Rightarrow> sym \<Rightarrow> symbol_value" where
  "spec_value k s =
     (if s_type (k_sym k s) \<in> {S_BOOLEAN, S_TRISTATE} then \<lparr>sv_val = VStr ''n'', sv_tri = spec_tri k s\<rparr>
      else if s_type (k_sym k s) \<in> {S_INT, S_HEX, S_STRING}
      then \<lparr>sv_val = VStr (spec_range k s (spec_string k s)), sv_tri = tri_no\<rparr>
      else name_value (k_sym k s))"

text \<open>A symbol is up to date.\<close>

definition local_ok :: "sym \<Rightarrow> kconf \<Rightarrow> bool" where
  "local_ok s k \<longleftrightarrow> s_curr (k_sym k s) = spec_value k s \<and>
     (s_type (k_sym k s) \<in> {S_BOOLEAN, S_TRISTATE, S_INT, S_HEX, S_STRING} \<longrightarrow>
        s_visible (k_sym k s) = spec_visible k s \<and>
        ev_tri (s_dir_dep (k_sym k s)) = spec_dir_dep k s \<and>
        ev_tri (s_rev_dep (k_sym k s)) = spec_rev_dep k s)"

section \<open>Dependencies without choices\<close>

fun calc_syms :: "expr \<Rightarrow> sym set" where
  "calc_syms (e_symbol s) = {s}"
| "calc_syms (e_and l r) = calc_syms l \<union> calc_syms r"
| "calc_syms (e_or l r) = calc_syms l \<union> calc_syms r"
| "calc_syms (e_not e) = calc_syms e"
| "calc_syms (e_equal a b) = {a, b}"
| "calc_syms (e_unequal a b) = {a, b}"
| "calc_syms (e_list l s) = {}"
| "calc_syms (e_range a b) = {}"
| "calc_syms e_none = {}"

fun calc_syms_opt :: "expr option \<Rightarrow> sym set" where
  "calc_syms_opt None = {}"
| "calc_syms_opt (Some e) = calc_syms e"

fun range_set :: "expr option \<Rightarrow> sym set" where
  "range_set (Some (e_range a b)) = {a, b}"
| "range_set _ = {}"

text \<open>All symbols the calculation of \<open>s\<close> may calculate.\<close>

definition sym_deps :: "kconf \<Rightarrow> sym \<Rightarrow> sym set" where
  "sym_deps k s =
     calc_syms_opt (ev_expr (s_dir_dep (k_sym k s))) \<union>
     calc_syms_opt (ev_expr (s_rev_dep (k_sym k s))) \<union>
     (\<Union>p \<in> set (s_prop (k_sym k s)).
        calc_syms_opt (ev_expr (p_visible (k_prop k p))) \<union>
        (if p_type (k_prop k p) = P_DEFAULT then calc_syms_opt (p_expr (k_prop k p)) else {}) \<union>
        (if p_type (k_prop k p) = P_RANGE then range_set (p_expr (k_prop k p)) else {}))"

text \<open>What the code relies on for one symbol: it is no part of a choice, a range is a pair of
  symbols, a user value of a string is there when it is marked, the reverse dependency starts
  with a symbol, a symbol without type has a name.\<close>

definition plain_sym :: "kconf \<Rightarrow> sym \<Rightarrow> bool" where
  "plain_sym k s \<longleftrightarrow>
     \<not> has_flag k s SYMBOL_CHOICE \<and> \<not> has_flag k s SYMBOL_CHOICEVAL \<and>
     \<not> has_flag k s SYMBOL_NEED_SET_CHOICE_VALUES \<and>
     (\<forall>p \<in> set (s_prop (k_sym k s)). p_type (k_prop k p) = P_RANGE \<longrightarrow>
        range_syms (p_expr (k_prop k p)) \<noteq> None) \<and>
     (s_type (k_sym k s) \<in> {S_INT, S_HEX, S_STRING} \<and> has_flag k s SYMBOL_DEF_USER \<longrightarrow>
        cval_string (sv_val (s_def (k_sym k s) S_DEF_USER)) \<noteq> None) \<and>
     (\<forall>e. ev_expr (s_rev_dep (k_sym k s)) = Some e \<longrightarrow> rev_dep_shape e) \<and>
     (s_type (k_sym k s) \<notin> {S_BOOLEAN, S_TRISTATE, S_INT, S_HEX, S_STRING} \<longrightarrow> s_name (k_sym k s) \<noteq> None)"

text \<open>\<open>cone D rank k\<close>: the symbols of \<open>D\<close> are plain and depend on static symbols and on
  symbols of \<open>D\<close> of a smaller rank only, each property belongs to one symbol, and the modules
  symbol is valid and outside.\<close>

definition cone :: "sym set \<Rightarrow> (sym \<Rightarrow> nat) \<Rightarrow> kconf \<Rightarrow> bool" where
  "cone D rank k \<longleftrightarrow> static_ok k \<and> D \<inter> static_syms = {} \<and>
     (\<forall>s \<in> D. \<forall>u \<in> D. s \<noteq> u \<longrightarrow> set (s_prop (k_sym k s)) \<inter> set (s_prop (k_sym k u)) = {}) \<and>
     (\<forall>s \<in> D. plain_sym k s \<and>
        (\<forall>u \<in> sym_deps k s. u \<in> static_syms \<or> u \<in> D \<and> rank u < rank s)) \<and>
     (\<exists>m. k_modules_sym k = Some m \<and> m \<notin> D \<and> has_flag k m SYMBOL_VALID \<and>
        \<not> has_flag k m SYMBOL_NEED_SET_CHOICE_VALUES)"

section \<open>Later states\<close>

definition semi_same :: "symbol \<Rightarrow> symbol \<Rightarrow> bool" where
  "semi_same x y \<longleftrightarrow> s_curr x = s_curr y \<and> s_visible x = s_visible y \<and>
     ev_tri (s_dir_dep x) = ev_tri (s_dir_dep y) \<and> ev_tri (s_rev_dep x) = ev_tri (s_rev_dep y)"

lemma semi_same_refl [simp]: "semi_same x x"
  by (simp add: semi_same_def)

lemma semi_same_trans: "semi_same x y \<Longrightarrow> semi_same y z \<Longrightarrow> semi_same x z"
  by (simp add: semi_same_def)

text \<open>\<open>low D rank q\<close>: the symbols that a calculation at rank \<open>q\<close> finds as they are: those
  outside \<open>D\<close> and those of a smaller rank.\<close>

definition low :: "sym set \<Rightarrow> (sym \<Rightarrow> nat) \<Rightarrow> nat \<Rightarrow> sym \<Rightarrow> bool" where
  "low D rank q u \<longleftrightarrow> u \<notin> D \<or> rank u < q"

definition later :: "sym set \<Rightarrow> (sym \<Rightarrow> nat) \<Rightarrow> nat \<Rightarrow> kconf \<Rightarrow> kconf \<Rightarrow> bool" where
  "later D rank q k k' \<longleftrightarrow> calc_frame k k' \<and> k_modules_val k' = k_modules_val k \<and>
     (\<forall>u. s_def (k_sym k' u) = s_def (k_sym k u) \<and>
        (has_flag k' u SYMBOL_DEF_USER \<longleftrightarrow> has_flag k u SYMBOL_DEF_USER)) \<and>
     (\<forall>u. has_flag k u SYMBOL_VALID \<and> \<not> has_flag k u SYMBOL_NEED_SET_CHOICE_VALUES \<and> low D rank q u \<longrightarrow>
        semi_same (k_sym k u) (k_sym k' u))"

definition box :: "sym set \<Rightarrow> (sym \<Rightarrow> nat) \<Rightarrow> nat \<Rightarrow> kconf \<Rightarrow> (kconf \<Rightarrow> bool) \<Rightarrow> bool" where
  "box D rank q k P \<longleftrightarrow> (\<forall>k'. later D rank q k k' \<longrightarrow> P k')"

lemma later_refl: "static_ok k \<Longrightarrow> later D rank q k k"
  by (simp add: later_def calc_frame_refl)

lemma later_trans:
  assumes 1: "later D rank q a b" and 2: "later D rank q b c"
  shows "later D rank q a c"
proof -
  have "semi_same (k_sym a u) (k_sym c u)"
    if "has_flag a u SYMBOL_VALID" "\<not> has_flag a u SYMBOL_NEED_SET_CHOICE_VALUES" "low D rank q u" for u
  proof -
    have "has_flag b u SYMBOL_VALID \<and> \<not> has_flag b u SYMBOL_NEED_SET_CHOICE_VALUES"
      using calc_frame_valid [of a b u] 1 that by (simp add: later_def)
    then show ?thesis using 1 2 that by (auto simp: later_def intro: semi_same_trans)
  qed
  moreover have "calc_frame a c" using 1 2 by (auto simp: later_def intro: calc_frame_trans)
  ultimately show ?thesis using 1 2 by (simp add: later_def)
qed

lemma later_mono: "later D rank q k k' \<Longrightarrow> q' \<le> q \<Longrightarrow> later D rank q' k k'"
  by (auto simp: later_def low_def)

lemma box_later: "box D rank q k P \<Longrightarrow> later D rank q k k' \<Longrightarrow> box D rank q k' P"
  by (auto simp: box_def intro: later_trans)

lemma boxD: "box D rank q k P \<Longrightarrow> static_ok k \<Longrightarrow> P k"
  by (simp add: box_def later_refl)

lemma box_mono: "box D rank q k P \<Longrightarrow> (\<And>k'. later D rank q k k' \<Longrightarrow> P k' \<Longrightarrow> P' k') \<Longrightarrow> box D rank q k P'"
  by (simp add: box_def)

text \<open>The static part of a state, read off its view.\<close>

lemma view_sym:
  assumes "static_view k' = static_view k"
  shows "s_type (k_sym k' s) = s_type (k_sym k s)" "s_name (k_sym k' s) = s_name (k_sym k s)"
    "s_prop (k_sym k' s) = s_prop (k_sym k s)"
    "ev_expr (s_dir_dep (k_sym k' s)) = ev_expr (s_dir_dep (k_sym k s))"
    "ev_expr (s_rev_dep (k_sym k' s)) = ev_expr (s_rev_dep (k_sym k s))"
    "stable_flags (k_sym k' s) = stable_flags (k_sym k s)"
    "k_modules_sym k' = k_modules_sym k" "k_all k' = k_all k"
proof -
  have "static_view_sym (k_sym k' s) = static_view_sym (k_sym k s)"
    using assms by (auto simp: static_view_def fun_eq_iff)
  then show "s_type (k_sym k' s) = s_type (k_sym k s)" "s_name (k_sym k' s) = s_name (k_sym k s)"
    "s_prop (k_sym k' s) = s_prop (k_sym k s)"
    "ev_expr (s_dir_dep (k_sym k' s)) = ev_expr (s_dir_dep (k_sym k s))"
    "ev_expr (s_rev_dep (k_sym k' s)) = ev_expr (s_rev_dep (k_sym k s))"
    "stable_flags (k_sym k' s) = stable_flags (k_sym k s)"
    by (simp_all add: static_view_sym_def dep_exprs_def)
  show "k_modules_sym k' = k_modules_sym k" "k_all k' = k_all k"
    using assms by (simp_all add: static_view_def)
qed

lemma view_prop:
  assumes "static_view k' = static_view k"
  shows "p_type (k_prop k' p) = p_type (k_prop k p)" "p_expr (k_prop k' p) = p_expr (k_prop k p)"
    "p_text (k_prop k' p) = p_text (k_prop k p)" "p_menu (k_prop k' p) = p_menu (k_prop k p)"
    "ev_expr (p_visible (k_prop k' p)) = ev_expr (p_visible (k_prop k p))"
proof -
  have "static_view_prop (k_prop k' p) = static_view_prop (k_prop k p)"
    using assms by (auto simp: static_view_def fun_eq_iff)
  then show "p_type (k_prop k' p) = p_type (k_prop k p)" "p_expr (k_prop k' p) = p_expr (k_prop k p)"
    "p_text (k_prop k' p) = p_text (k_prop k p)" "p_menu (k_prop k' p) = p_menu (k_prop k p)"
    "ev_expr (p_visible (k_prop k' p)) = ev_expr (p_visible (k_prop k p))"
    unfolding static_view_prop_def by (cases "k_prop k' p"; cases "k_prop k p"; cases "p_visible (k_prop k' p)"; cases "p_visible (k_prop k p)"; simp)+
qed

lemma view_lists:
  assumes "static_view k' = static_view k"
  shows "for_all_properties k' s t = for_all_properties k s t"
    "for_all_prompts k' s = for_all_prompts k s" "prop_get_symbol k' p = prop_get_symbol k p"
    "sym_deps k' s = sym_deps k s"
  using view_sym [OF assms] view_prop [OF assms]
  by (simp_all add: for_all_properties_def for_all_prompts_def prop_get_symbol_def sym_deps_def
      cong: if_cong)

lemma view_flag:
  assumes "static_view k' = static_view k"
    and "f \<notin> {SYMBOL_WRITE, SYMBOL_CHANGED, SYMBOL_DEF_USER, SYMBOL_VALID, SYMBOL_NEED_SET_CHOICE_VALUES}"
  shows "has_flag k' s f \<longleftrightarrow> has_flag k s f"
proof -
  have "f \<in> stable_flags (k_sym k' s) \<longleftrightarrow> f \<in> stable_flags (k_sym k s)"
    using view_sym(6) [OF assms(1)] by simp
  then show ?thesis using assms(2) by (auto simp: stable_flags_def loud_flags_def has_flag_def)
qed

lemma later_view: "later D rank q k k' \<Longrightarrow> static_view k' = static_view k"
  by (simp add: later_def calc_frame_def)

lemmas later_simps = view_sym [OF later_view] view_prop [OF later_view] view_lists [OF later_view]

lemma need_down: "calc_frame k k' \<Longrightarrow> has_flag k' s SYMBOL_NEED_SET_CHOICE_VALUES \<Longrightarrow>
    has_flag k s SYMBOL_NEED_SET_CHOICE_VALUES"
proof -
  assume "calc_frame k k'" "has_flag k' s SYMBOL_NEED_SET_CHOICE_VALUES"
  moreover from this have "weight k' s \<le> weight k s" by (simp add: calc_frame_def)
  ultimately show ?thesis by (auto simp: weight_def split: if_splits)
qed

lemma cone_later:
  assumes c: "cone D rank k" and l: "later D rank q k k'"
  shows "cone D rank k'"
proof -
  note v = later_view [OF l]
  have f: "calc_frame k k'" using l by (simp add: later_def)
  have "plain_sym k' s" if "s \<in> D" for s
  proof -
    have "plain_sym k s" using c that by (simp add: cone_def)
    then show ?thesis
      using view_flag [OF v, of SYMBOL_CHOICE s] view_flag [OF v, of SYMBOL_CHOICEVAL s]
        need_down [OF f, of s] l
      by (auto simp: plain_sym_def later_simps [OF l] later_def)
  qed
  moreover have "\<exists>m. k_modules_sym k' = Some m \<and> m \<notin> D \<and> has_flag k' m SYMBOL_VALID \<and>
      \<not> has_flag k' m SYMBOL_NEED_SET_CHOICE_VALUES"
    using c calc_frame_valid [OF f] by (auto simp: cone_def later_simps [OF l])
  ultimately show ?thesis
    using c f by (simp add: cone_def later_simps [OF l] calc_frame_def)
qed

text \<open>The values a later state keeps.\<close>

lemma later_val:
  assumes c: "cone D rank k" and l: "later D rank q k k'"
    and u: "has_flag k u SYMBOL_VALID" "\<not> has_flag k u SYMBOL_NEED_SET_CHOICE_VALUES" "low D rank q u"
  shows "val_of k' u = val_of k u" "raw_string k' u = raw_string k u" "range_val k' u b = range_val k u b"
    "s_curr (k_sym k' u) = s_curr (k_sym k u)"
proof -
  show e: "s_curr (k_sym k' u) = s_curr (k_sym k u)"
    using l u by (auto simp: later_def semi_same_def)
  then show r: "raw_string k' u = raw_string k u" by (simp add: raw_string_def)
  then show "range_val k' u b = range_val k u b" by (simp add: range_val_def later_simps [OF l])
  obtain m where m: "k_modules_sym k = Some m" "m \<notin> D" "has_flag k m SYMBOL_VALID"
    "\<not> has_flag k m SYMBOL_NEED_SET_CHOICE_VALUES" using c by (auto simp: cone_def)
  then have "s_curr (k_sym k' m) = s_curr (k_sym k m)"
    using l by (auto simp: later_def semi_same_def low_def)
  then have "modules_off k' = modules_off k" using m by (simp add: modules_off_def later_simps [OF l])
  then show "val_of k' u = val_of k u"
    by (simp add: val_of_def string_value_def e r later_simps [OF l])
qed

section \<open>Consistent states\<close>

text \<open>Every calculated symbol below a rank is up to date, and stays so.\<close>

definition cons :: "sym set \<Rightarrow> (sym \<Rightarrow> nat) \<Rightarrow> nat \<Rightarrow> kconf \<Rightarrow> bool" where
  "cons D rank q k \<longleftrightarrow> (\<forall>t \<in> D. rank t < q \<and> has_flag k t SYMBOL_VALID \<longrightarrow>
     box D rank (Suc (rank t)) k (local_ok t))"

lemma cons_down: "cons D rank q k \<Longrightarrow> q' \<le> q \<Longrightarrow> cons D rank q' k"
  by (auto simp: cons_def)

lemma cons_local: "cons D rank q k \<Longrightarrow> static_ok k \<Longrightarrow> t \<in> D \<Longrightarrow> rank t < q \<Longrightarrow>
    has_flag k t SYMBOL_VALID \<Longrightarrow> local_ok t k"
  by (auto simp: cons_def dest: boxD)

text \<open>A symbol that has been calculated has a string.\<close>

lemma local_string:
  "local_ok t k \<Longrightarrow> plain_sym k t \<Longrightarrow> \<exists>x. sv_val (s_curr (k_sym k t)) = VStr x"
  by (auto simp: local_ok_def spec_value_def name_value_def plain_sym_def)

lemma static_string:
  "static_ok k \<Longrightarrow> t \<in> static_syms \<Longrightarrow> \<exists>x. sv_val (s_curr (k_sym k t)) = VStr x"
  by (auto simp: static_ok_def static_syms_def static_symbol_simps)

section \<open>One calculation\<close>

text \<open>\<open>call\<close> relates the states before and after a calculation below rank \<open>q\<close>: nothing of
  rank \<open>q\<close> or more changes. \<open>run\<close> is the same but for the symbol under calculation.\<close>

definition settled :: "kconf \<Rightarrow> sym \<Rightarrow> bool" where
  "settled k u \<longleftrightarrow> has_flag k u SYMBOL_VALID \<and> \<not> has_flag k u SYMBOL_NEED_SET_CHOICE_VALUES"

definition unmoved :: "kconf \<Rightarrow> kconf \<Rightarrow> sym \<Rightarrow> bool" where
  "unmoved k k' u \<longleftrightarrow> semi_same (k_sym k u) (k_sym k' u) \<and>
     (has_flag k' u SYMBOL_VALID \<longleftrightarrow> has_flag k u SYMBOL_VALID)"

definition owned :: "sym set \<Rightarrow> (sym \<Rightarrow> nat) \<Rightarrow> nat \<Rightarrow> kconf \<Rightarrow> pid \<Rightarrow> bool" where
  "owned D rank q k p \<longleftrightarrow> (\<exists>u \<in> D. rank u < q \<and> p \<in> set (s_prop (k_sym k u)))"

definition call :: "sym set \<Rightarrow> (sym \<Rightarrow> nat) \<Rightarrow> nat \<Rightarrow> kconf \<Rightarrow> kconf \<Rightarrow> bool" where
  "call D rank q k k' \<longleftrightarrow> cone D rank k' \<and> cons D rank q k' \<and> later D rank q k k' \<and>
     (\<forall>u. \<not> (u \<in> D \<and> rank u < q) \<longrightarrow> unmoved k k' u) \<and>
     (\<forall>p. \<not> owned D rank q k p \<longrightarrow> k_prop k' p = k_prop k p)"

definition run :: "sym set \<Rightarrow> (sym \<Rightarrow> nat) \<Rightarrow> nat \<Rightarrow> sym \<Rightarrow> kconf \<Rightarrow> kconf \<Rightarrow> bool" where
  "run D rank q s k k' \<longleftrightarrow> cone D rank k' \<and> cons D rank q k' \<and> later D rank q k k' \<and>
     (\<forall>u. \<not> (u \<in> D \<and> rank u < q) \<and> u \<noteq> s \<longrightarrow> unmoved k k' u) \<and>
     (\<forall>p. \<not> owned D rank q k p \<and> p \<notin> set (s_prop (k_sym k s)) \<longrightarrow> k_prop k' p = k_prop k p)"

lemma unmoved_refl [simp]: "unmoved k k u"
  by (simp add: unmoved_def)

lemma unmoved_trans: "unmoved a b u \<Longrightarrow> unmoved b c u \<Longrightarrow> unmoved a c u"
  by (auto simp: unmoved_def intro: semi_same_trans)

lemma owned_later: "later D rank q k k' \<Longrightarrow> owned D rank q' k' p = owned D rank q' k p"
  by (simp add: owned_def later_simps)

lemma call_refl: "cone D rank k \<Longrightarrow> cons D rank q k \<Longrightarrow> call D rank q k k"
  by (simp add: call_def later_refl cone_def)

lemma call_trans:
  assumes "call D rank q a b" "call D rank q b c"
  shows "call D rank q a c"
proof -
  have l: "later D rank q a b" using assms(1) by (simp add: call_def)
  show ?thesis
    using assms owned_later [OF l] by (auto simp: call_def intro: later_trans unmoved_trans)
qed

lemma run_refl: "cone D rank k \<Longrightarrow> cons D rank q k \<Longrightarrow> run D rank q s k k"
  by (simp add: run_def later_refl cone_def)

lemma run_trans:
  assumes "run D rank q s a b" "run D rank q s b c"
  shows "run D rank q s a c"
proof -
  have l: "later D rank q a b" using assms(1) by (simp add: run_def)
  show ?thesis
    using assms owned_later [OF l]
    by (auto simp: run_def later_simps [OF l] intro: later_trans unmoved_trans)
qed

lemma call_run: "call D rank q k k' \<Longrightarrow> run D rank q s k k'"
  by (simp add: call_def run_def)

locale calc_spec =
  fixes D :: "sym set" and rank :: "sym \<Rightarrow> nat" and q :: nat and cv :: calc
  assumes cv: "cone D rank k \<Longrightarrow> cons D rank q k \<Longrightarrow> (if t \<in> D then rank t < q else settled k t) \<Longrightarrow>
    returns (cv t k) (\<lambda>k'. call D rank q k k' \<and> settled k' t)"
begin

definition ready :: "kconf \<Rightarrow> bool" where
  "ready k \<longleftrightarrow> cone D rank k \<and> cons D rank q k"

definition dep_ok :: "sym \<Rightarrow> bool" where
  "dep_ok t \<longleftrightarrow> t \<in> static_syms \<or> t \<in> D \<and> rank t < q"

lemma ready_static: "ready k \<Longrightarrow> static_ok k"
  by (simp add: ready_def cone_def)

lemma call_ready: "call D rank q k k' \<Longrightarrow> ready k'"
  by (simp add: call_def ready_def)

lemma call_refl': "ready k \<Longrightarrow> call D rank q k k"
  by (simp add: ready_def call_refl)

lemma dep_ok_low: "ready k \<Longrightarrow> dep_ok t \<Longrightarrow> low D rank q t"
  by (auto simp: dep_ok_def low_def ready_def cone_def)

lemma settled_static: "ready k \<Longrightarrow> t \<in> static_syms \<Longrightarrow> settled k t \<and> t \<notin> D"
  by (auto simp: ready_def cone_def static_ok_def settled_def)

lemma settled_call: "call D rank q k k' \<Longrightarrow> settled k t \<Longrightarrow> settled k' t"
  using calc_frame_valid by (auto simp: call_def later_def settled_def)

text \<open>A call, in the form the proofs use.\<close>

lemma T_cv [call_rules]:
  assumes "ready k" "dep_ok t" "\<And>k'. call D rank q k k' \<Longrightarrow> settled k' t \<Longrightarrow> Q k'"
  shows "returns (cv t k) Q"
proof -
  have "if t \<in> D then rank t < q else settled k t"
    using assms(1,2) settled_static [OF assms(1)] by (auto simp: dep_ok_def)
  with cv [of k t] assms(1) have "returns (cv t k) (\<lambda>k'. call D rank q k k' \<and> settled k' t)"
    by (simp add: ready_def)
  then show ?thesis by (rule returns_mono) (use assms(3) in blast)
qed

text \<open>Facts that hold in every later state.\<close>

abbreviation (input) always :: "kconf \<Rightarrow> (kconf \<Rightarrow> bool) \<Rightarrow> bool" where
  "always k P \<equiv> box D rank q k P"

lemma always_call: "always k P \<Longrightarrow> call D rank q k k' \<Longrightarrow> always k' P"
  by (auto simp: call_def intro: box_later)

lemma always_now: "always k P \<Longrightarrow> ready k \<Longrightarrow> P k"
  by (auto simp: ready_static intro: boxD)

lemma always_val:
  assumes "ready k" "settled k t" "low D rank q t"
  shows "always k (\<lambda>k'. val_of k' t = val_of k t)" "always k (\<lambda>k'. raw_string k' t = raw_string k t)"
    "always k (\<lambda>k'. range_val k' t b = range_val k t b)"
  using assms by (auto simp: box_def ready_def settled_def later_val)

lemma dep_string:
  assumes "ready k" "dep_ok t" "settled k t"
  shows "\<exists>x. sv_val (s_curr (k_sym k t)) = VStr x"
proof (cases "t \<in> static_syms")
  case True
  with assms(1) show ?thesis by (simp add: static_string ready_static)
next
  case False
  with assms(2) have "t \<in> D" "rank t < q" by (auto simp: dep_ok_def)
  with assms have "local_ok t k" "plain_sym k t"
    by (auto simp: ready_def cone_def settled_def intro: cons_local)
  then show ?thesis by (rule local_string)
qed

lemma T_string [call_rules]:
  assumes r: "ready k" "dep_ok t" "settled k t"
    and Q: "\<And>k'. call D rank q k k' \<Longrightarrow> Q (string_value k' t, k')"
  shows "returns (sym_get_string_value cv t k) Q"
proof -
  obtain m where m: "k_modules_sym k = Some m" "m \<notin> D" "settled k m"
    using r(1) by (auto simp: ready_def cone_def settled_def)
  have "returns (cv m k) (\<lambda>k'. returns (k_modules_sym k')
      (\<lambda>m. Q (if sv_tri (s_curr (k_sym k' m)) = tri_no then ''n'' else ''m'', k')))"
    if mod: "sv_tri (s_curr (k_sym k t)) = tri_mod"
      and ty: "s_type (k_sym k t) = S_BOOLEAN \<or> s_type (k_sym k t) = S_TRISTATE"
  proof (rule returns_mono [OF cv])
    show "cone D rank k" "cons D rank q k" using r(1) by (simp_all add: ready_def)
    show "if m \<in> D then rank m < q else settled k m" using m by simp
  next
    fix k' assume "call D rank q k k' \<and> settled k' m"
    then have c: "call D rank q k k'" by blast
    then have l: "later D rank q k k'" by (simp add: call_def)
    have e: "s_curr (k_sym k' t) = s_curr (k_sym k t)"
      using later_val(4) [OF _ l, of t] r dep_ok_low by (auto simp: ready_def settled_def)
    show "returns (k_modules_sym k') (\<lambda>m. Q (if sv_tri (s_curr (k_sym k' m)) = tri_no then ''n'' else ''m'', k'))"
      using Q [OF c] m(1) mod ty e
      by (auto simp: string_value_def modules_off_def later_simps [OF l] returns_base split: if_splits)
  qed
  moreover obtain x where "sv_val (s_curr (k_sym k t)) = VStr x" using dep_string [OF r] by blast
  moreover note Q [OF call_refl' [OF r(1)]]
  ultimately show ?thesis using m
    by (auto simp: sym_get_string_value_def string_value_def raw_string_def calc_opt_def
        returns_base split: tristate.split)
qed

lemma T_strings [call_rules]:
  assumes r: "ready k" "dep_ok a" "dep_ok b"
    and Q: "\<And>eq k'. call D rank q k k' \<Longrightarrow>
      always k' (\<lambda>k. eq \<longleftrightarrow> snd (val_of k a) = snd (val_of k b)) \<Longrightarrow> Q (eq, k')"
  shows "returns (calc_strings cv a b k) Q"
  unfolding calc_strings_def returns_base
proof (rule T_cv [OF r(1,2)])
  fix k1 assume 1: "call D rank q k k1" "settled k1 a"
  show "returns (cv b k1) (\<lambda>k2. returns (sym_get_string_value cv a k2) (\<lambda>x. returns (case x of (str1, k) \<Rightarrow>
      sym_get_string_value cv b k \<bind> (\<lambda>(str2, k). Some (strcmp str1 str2 = 0, k))) Q))"
  proof (rule T_cv [OF call_ready [OF 1(1)] r(3)])
    fix k2 assume 2: "call D rank q k1 k2" "settled k2 b"
    note a2 = settled_call [OF 2(1) 1(2)]
    show "returns (sym_get_string_value cv a k2) (\<lambda>x. returns (case x of (str1, k) \<Rightarrow>
      sym_get_string_value cv b k \<bind> (\<lambda>(str2, k). Some (strcmp str1 str2 = 0, k))) Q)"
    proof (rule T_string [OF call_ready [OF 2(1)] r(2) a2])
      fix k3 assume 3: "call D rank q k2 k3"
      note r3 = call_ready [OF 3] and a3 = settled_call [OF 3 a2] and b3 = settled_call [OF 3 2(2)]
      show "returns (case (string_value k3 a, k3) of (str1, k) \<Rightarrow>
          sym_get_string_value cv b k \<bind> (\<lambda>(str2, k). Some (strcmp str1 str2 = 0, k))) Q"
        unfolding prod.case returns_base
      proof (rule T_string [OF r3 r(3) b3])
        fix k4 assume 4: "call D rank q k3 k4"
        note r4 = call_ready [OF 4]
        note a = always_val(1) [OF r3 a3 dep_ok_low [OF r3 r(2)]]
        have "string_value k4 a = string_value k3 a"
          using always_now [OF always_call [OF a 4] r4] by (simp add: val_of_def)
        moreover have "always k4 (\<lambda>k. string_value k4 a = string_value k4 b \<longleftrightarrow> snd (val_of k a) = snd (val_of k b))"
          using always_val(1) [OF r4 settled_call [OF 4 a3] dep_ok_low [OF r4 r(2)]]
            always_val(1) [OF r4 settled_call [OF 4 b3] dep_ok_low [OF r4 r(3)]]
          by (auto simp: box_def val_of_def)
        ultimately show "returns (case (string_value k4 b, k4) of
            (str2, k) \<Rightarrow> Some (strcmp (string_value k3 a) str2 = 0, k)) Q"
          using Q [OF call_trans [OF call_trans [OF call_trans [OF 1(1) 2(1)] 3] 4]]
          by (simp add: returns_base)
      qed
    qed
  qed
qed

lemma T_expr1:
  assumes "ready k" "\<forall>t \<in> calc_syms e. dep_ok t"
    and "\<And>v k'. call D rank q k k' \<Longrightarrow> always k' (\<lambda>k. expr_val (val_of k) e = v) \<Longrightarrow> Q (v, k')"
  shows "returns (expr_calc_value1 cv e k) Q"
  using assms
proof (induction e arbitrary: k Q)
  case (e_symbol t)
  note r = e_symbol.prems(1) and Q = e_symbol.prems(3)
  have t: "dep_ok t" using e_symbol.prems(2) by simp
  show ?case
    unfolding expr_calc_value1.simps returns_base
  proof (rule T_cv [OF r t])
    fix k' assume k': "call D rank q k k'" "settled k' t"
    have "always k' (\<lambda>k. expr_val (val_of k) (e_symbol t) = sv_tri (s_curr (k_sym k' t)))"
      using always_val(1) [OF call_ready [OF k'(1)] k'(2) dep_ok_low [OF r t]]
      by (auto simp: box_def val_of_def)
    then show "Q (sv_tri (s_curr (k_sym k' t)), k')" by (rule Q [OF k'(1)])
  qed
next
  case (e_and l r)
  show ?case
    unfolding expr_calc_value1.simps returns_base
  proof (rule e_and.IH(1) [OF e_and.prems(1)])
    fix v k' assume 1: "call D rank q k k'" "always k' (\<lambda>k. expr_val (val_of k) l = v)"
    show "returns (case (v, k') of (v1, k) \<Rightarrow> expr_calc_value1 cv r k \<bind> (\<lambda>(v2, k). Some (EXPR_AND v1 v2, k))) Q"
      unfolding prod.case returns_base
    proof (rule e_and.IH(2) [OF call_ready [OF 1(1)]])
      fix w k'' assume 2: "call D rank q k' k''" "always k'' (\<lambda>k. expr_val (val_of k) r = w)"
      show "returns (case (w, k'') of (v2, k) \<Rightarrow> Some (EXPR_AND v v2, k)) Q"
        using e_and.prems(3) [OF call_trans [OF 1(1) 2(1)], of "EXPR_AND v w"] always_call [OF 1(2) 2(1)] 2(2)
        by (simp add: returns_base box_def)
    qed (use e_and.prems(2) in simp)
  qed (use e_and.prems(2) in simp)
next
  case (e_or l r)
  show ?case
    unfolding expr_calc_value1.simps returns_base
  proof (rule e_or.IH(1) [OF e_or.prems(1)])
    fix v k' assume 1: "call D rank q k k'" "always k' (\<lambda>k. expr_val (val_of k) l = v)"
    show "returns (case (v, k') of (v1, k) \<Rightarrow> expr_calc_value1 cv r k \<bind> (\<lambda>(v2, k). Some (EXPR_OR v1 v2, k))) Q"
      unfolding prod.case returns_base
    proof (rule e_or.IH(2) [OF call_ready [OF 1(1)]])
      fix w k'' assume 2: "call D rank q k' k''" "always k'' (\<lambda>k. expr_val (val_of k) r = w)"
      show "returns (case (w, k'') of (v2, k) \<Rightarrow> Some (EXPR_OR v v2, k)) Q"
        using e_or.prems(3) [OF call_trans [OF 1(1) 2(1)], of "EXPR_OR v w"] always_call [OF 1(2) 2(1)] 2(2)
        by (simp add: returns_base box_def)
    qed (use e_or.prems(2) in simp)
  qed (use e_or.prems(2) in simp)
next
  case (e_not e)
  show ?case
    unfolding expr_calc_value1.simps returns_base
    by (rule e_not.IH [OF e_not.prems(1)]) (use e_not.prems(2,3) in \<open>auto simp: returns_base box_def\<close>)
next
  case (e_equal a b)
  then show ?case
    by (auto simp: returns_base box_def intro!: T_strings)
next
  case (e_unequal a b)
  then show ?case
    by (auto simp: returns_base box_def intro!: T_strings)
qed (auto simp: returns_base box_def call_refl')

lemma T_expr [call_rules]:
  assumes "ready k" "\<forall>t \<in> calc_syms_opt e. dep_ok t"
    and "\<And>v k'. call D rank q k k' \<Longrightarrow> always k' (\<lambda>k. expr_val_opt (val_of k) e = v) \<Longrightarrow> Q (v, k')"
  shows "returns (expr_calc_value cv e k) Q"
  using assms by (cases e) (auto simp: expr_calc_value_def returns_base box_def call_refl' intro: T_expr1)

end

end
