(* ===== verification/Symrefine.thy ===== *)
theory Symrefine
  imports Symspec
begin

text \<open>
  The refinement theorem of \<^verbatim>\<open>sym_calc_value\<close>: theory \<open>Symspec\<close> has the specification
  and the rules for the calls on other symbols; here is the calculation of one symbol, the
  induction over the ranks, and what follows for a configuration.
\<close>

section \<open>The symbol under calculation\<close>

locale calc_run = calc_spec D rank q cv
  for D :: "sym set" and rank :: "sym \<Rightarrow> nat" and q :: nat and cv :: calc +
  fixes s :: sym
  assumes s: "s \<in> D" and rank_s: "rank s = q"
begin

text \<open>A run that leaves the symbol itself alone.\<close>

definition aside :: "kconf \<Rightarrow> kconf \<Rightarrow> bool" where
  "aside k k' \<longleftrightarrow> run D rank q s k k' \<and> unmoved k k' s"

lemma run_ready: "run D rank q s k k' \<Longrightarrow> ready k'"
  by (simp add: run_def ready_def)

lemma aside_run: "aside k k' \<Longrightarrow> run D rank q s k k'"
  by (simp add: aside_def)

lemma aside_ready: "aside k k' \<Longrightarrow> ready k'"
  by (rule run_ready [OF aside_run])

lemma aside_refl: "ready k \<Longrightarrow> aside k k"
  by (simp add: aside_def ready_def run_refl)

lemma aside_trans: "aside a b \<Longrightarrow> aside b c \<Longrightarrow> aside a c"
  by (auto simp: aside_def intro: run_trans unmoved_trans)

lemma call_aside: "call D rank q k k' \<Longrightarrow> aside k k'"
  using s rank_s by (auto simp: aside_def call_run call_def)

lemma always_run: "always k P \<Longrightarrow> run D rank q s k k' \<Longrightarrow> always k' P"
  by (auto simp: run_def intro: box_later)

lemma always_aside: "always k P \<Longrightarrow> aside k k' \<Longrightarrow> always k' P"
  by (rule always_run [OF _ aside_run])

lemma run_view: "run D rank q s k k' \<Longrightarrow> static_view k' = static_view k"
  by (auto simp: run_def intro: later_view)

lemma run_user:
  "run D rank q s k k' \<Longrightarrow> s_def (k_sym k' u) = s_def (k_sym k u) \<and>
     has_flag k' u SYMBOL_DEF_USER = has_flag k u SYMBOL_DEF_USER \<and> k_modules_val k' = k_modules_val k"
  by (auto simp: run_def later_def)

lemmas run_simps = view_sym [OF run_view] view_prop [OF run_view] view_lists [OF run_view]

text \<open>The symbol's own updates.\<close>

lemma run_upd:
  assumes r: "ready k"
    and f: "static_view_sym (f (k_sym k s)) = static_view_sym (k_sym k s)"
      "s_def (f (k_sym k s)) = s_def (k_sym k s)"
      "\<And>x. x \<in> {SYMBOL_DEF_USER, SYMBOL_VALID, SYMBOL_NEED_SET_CHOICE_VALUES} \<Longrightarrow>
        x \<in> s_flags (f (k_sym k s)) \<longleftrightarrow> x \<in> s_flags (k_sym k s)"
  shows "run D rank q s k (upd_sym s f k)"
proof -
  have st: "s \<notin> static_syms" using r s by (auto simp: ready_def cone_def)
  have "calc_frame k (upd_sym s f k)"
    by (rule calc_frame_upd [OF calc_frame_refl [OF ready_static [OF r]]])
      (use f st in \<open>auto simp: weight_def has_flag_def\<close>)
  then have l: "later D rank q k (upd_sym s f k)"
    using f s rank_s by (auto simp: later_def low_def has_flag_def)
  have "cons D rank q (upd_sym s f k)"
    unfolding cons_def
  proof (intro ballI impI)
    fix t assume t: "t \<in> D" "rank t < q \<and> has_flag (upd_sym s f k) t SYMBOL_VALID"
    then have "box D rank (Suc (rank t)) k (local_ok t)"
      using r rank_s f(3) by (auto simp: ready_def cons_def has_flag_def split: if_splits)
    then show "box D rank (Suc (rank t)) (upd_sym s f k) (local_ok t)"
      by (rule box_later) (use later_mono [OF l, of "Suc (rank t)"] t in simp)
  qed
  with l cone_later [OF _ l] r show ?thesis
    by (simp add: run_def ready_def unmoved_def has_flag_def)
qed

text \<open>Updates of menus and of the symbol's own properties.\<close>

lemma run_same_syms:
  assumes r: "ready k" and e: "k_sym k' = k_sym k" "static_view k' = static_view k"
    "k_modules_val k' = k_modules_val k"
    "\<And>p. p \<notin> set (s_prop (k_sym k s)) \<Longrightarrow> k_prop k' p = k_prop k p"
  shows "aside k k'"
proof -
  have "calc_frame k k'"
    using ready_static [OF r] e by (simp add: calc_frame_def static_ok_def weight_def has_flag_def)
  then have l: "later D rank n k k'" for n using e by (auto simp: later_def has_flag_def)
  have "cons D rank q k'"
    using r l by (auto simp: ready_def cons_def e has_flag_def intro: box_later)
  with l cone_later [OF _ l] r e show ?thesis
    by (simp add: aside_def run_def ready_def unmoved_def has_flag_def)
qed

lemma aside_mark: "ready k \<Longrightarrow> aside k (fold mark_menu ps k)"
proof (induction ps arbitrary: k)
  case (Cons p ps)
  have "static_view (mark_menu p k) = static_view k" by (simp add: static_view_def)
  then have "aside k (mark_menu p k)" using Cons.prems by (intro run_same_syms) simp_all
  with Cons.IH [OF aside_ready [OF this]] show ?case by (auto intro: aside_trans)
qed (simp add: aside_refl)

lemma aside_flags:
  assumes "ready k" and f: "f = insert g \<or> f = (\<lambda>F. F - {g})" "g = SYMBOL_WRITE \<or> g = SYMBOL_CHANGED"
  shows "aside k (upd_sym s (s_flags_update f) k)"
proof -
  have "run D rank q s k (upd_sym s (s_flags_update f) k)"
    using f by (intro run_upd [OF assms(1)])
      (auto simp: static_view_sym_def stable_flags_def loud_flags_def dep_exprs_def)
  then show ?thesis using f by (auto simp: aside_def unmoved_def semi_same_def has_flag_def)
qed

lemma aside_write: "ready k \<Longrightarrow> aside k (flag_on SYMBOL_WRITE s k)"
  "ready k \<Longrightarrow> aside k (flag_off SYMBOL_WRITE s k)"
  unfolding flag_on_def flag_off_def by (auto intro: aside_flags)

lemma aside_changed: "ready k \<Longrightarrow> aside k (sym_set_changed s k)"
  unfolding sym_set_changed_def flag_on_def
  by (rule aside_trans [OF aside_flags aside_mark [OF aside_ready [OF aside_flags]]]) auto

lemma aside_prop: "ready k \<Longrightarrow> p \<in> set (s_prop (k_sym k s)) \<Longrightarrow> aside k (set_prop_visible p t k)"
  by (rule run_same_syms) (auto simp: set_prop_visible_def static_view_def static_view_prop_tri fun_eq_iff)

lemma run_curr: "ready k \<Longrightarrow> run D rank q s k (set_curr s v k)"
  unfolding set_curr_def
  by (rule run_upd) (auto simp: static_view_sym_def stable_flags_def loud_flags_def dep_exprs_def)

section \<open>Conditions of properties\<close>

lemma deps_ok:
  assumes "ready k"
  shows "t \<in> sym_deps k s \<Longrightarrow> dep_ok t"
  using assms s rank_s by (auto simp: ready_def cone_def dep_ok_def)

lemma own_prop_deps:
  assumes r: "ready k" and p: "p \<in> set (s_prop (k_sym k s))"
  shows "\<forall>t \<in> calc_syms_opt (ev_expr (p_visible (k_prop k p))). dep_ok t"
    "p_type (k_prop k p) = P_DEFAULT \<Longrightarrow> \<forall>t \<in> calc_syms_opt (p_expr (k_prop k p)). dep_ok t"
    "p_type (k_prop k p) = P_RANGE \<Longrightarrow> \<forall>t \<in> range_set (p_expr (k_prop k p)). dep_ok t"
  by (intro ballI deps_ok [OF r]; unfold sym_deps_def;
      rule UnI2, rule UN_I [OF p]; simp)+

lemma own_not_owned:
  assumes "ready k" "p \<in> set (s_prop (k_sym k s))"
  shows "\<not> owned D rank q k p"
proof
  assume "owned D rank q k p"
  then obtain u where "u \<in> D" "rank u < q" "p \<in> set (s_prop (k_sym k u))" by (auto simp: owned_def)
  moreover from this rank_s have "u \<noteq> s" by auto
  ultimately show False using assms s by (auto simp: ready_def cone_def)
qed

definition tri_of :: "kconf \<Rightarrow> pid \<Rightarrow> tristate" where
  "tri_of k p = ev_tri (p_visible (k_prop k p))"

lemma T_prop [call_rules]:
  assumes r: "ready k" and p: "p \<in> set (s_prop (k_sym k s))"
    and Q: "\<And>t k'. aside k k' \<Longrightarrow> always k' (\<lambda>k. cond_val k p = t) \<Longrightarrow> tri_of k' p = t \<Longrightarrow> Q (t, k')"
  shows "returns (calc_prop_visible cv p k) Q"
  unfolding calc_prop_visible_def returns_base
proof (rule T_expr [OF r own_prop_deps(1) [OF r p]])
  fix v k' assume c: "call D rank q k k'"
    and v: "always k' (\<lambda>ka. expr_val_opt (val_of ka) (ev_expr (p_visible (k_prop k p))) = v)"
  have l: "later D rank q k k'" using c by (simp add: call_def)
  have p': "p \<in> set (s_prop (k_sym k' s))" using p by (simp add: later_simps [OF l])
  have e: "ev_expr (p_visible (k_prop k' p)) = ev_expr (p_visible (k_prop k p))"
    by (simp add: later_simps [OF l])
  have a: "aside k' (set_prop_visible p v k')" by (rule aside_prop [OF call_ready [OF c] p'])
  have "always k' (\<lambda>k. cond_val k p = v)"
    using v by (rule box_mono) (simp add: cond_val_def later_simps e)
  then have "always (set_prop_visible p v k') (\<lambda>k. cond_val k p = v)" by (rule always_aside [OF _ a])
  then show "returns (case (v, k') of (t, k) \<Rightarrow> Some (t, set_prop_visible p t k)) Q"
    using Q [OF aside_trans [OF call_aside [OF c] a]]
    by (simp add: returns_base tri_of_def set_prop_visible_def)
qed

lemma T_first:
  assumes "ready k" "set ps \<subseteq> set (s_prop (k_sym k s))"
    and "\<And>po k'. aside k k' \<Longrightarrow> always k' (\<lambda>k. spec_first k ps = po) \<Longrightarrow>
      (\<And>p. po = Some p \<Longrightarrow> p \<in> set ps \<and> always k' (\<lambda>k. cond_val k p = tri_of k' p)) \<Longrightarrow> Q (po, k')"
  shows "returns (first_visible cv ps k) Q"
  using assms
proof (induction ps arbitrary: k)
  case Nil
  have "Q (None, k)"
    by (rule Nil.prems(3) [OF aside_refl [OF Nil.prems(1)]]) (auto simp: box_def spec_first_def)
  then show ?case by (simp add: returns_base)
next
  case (Cons p ps)
  note r = Cons.prems(1) and sub = Cons.prems(2) and Q = Cons.prems(3)
  show ?case
    unfolding first_visible.simps returns_base
  proof (rule T_prop [OF r])
    show "p \<in> set (s_prop (k_sym k s))" using sub by simp
    fix t k' assume a: "aside k k'" and t: "always k' (\<lambda>k. cond_val k p = t)" "tri_of k' p = t"
    show "returns (case (t, k') of (t, k) \<Rightarrow> if t \<noteq> tri_no then Some (Some p, k) else first_visible cv ps k) Q"
    proof (cases "t = tri_no")
      case False
      have "always k' (\<lambda>k. spec_first k (p # ps) = Some p)"
        using t(1) by (rule box_mono) (simp add: spec_first_def False)
      with t have "Q (Some p, k')" by (intro Q [OF a]) simp_all
      then show ?thesis using False by (simp add: returns_base)
    next
      case True
      have sub': "set ps \<subseteq> set (s_prop (k_sym k' s))"
        using sub by (simp add: run_simps [OF aside_run [OF a]])
      have "returns (first_visible cv ps k') Q"
      proof (rule Cons.IH [OF aside_ready [OF a] sub'])
        fix po k'' assume b: "aside k' k''" and po: "always k'' (\<lambda>k. spec_first k ps = po)"
          and tri: "\<And>p. po = Some p \<Longrightarrow> p \<in> set ps \<and> always k'' (\<lambda>k. cond_val k p = tri_of k'' p)"
        have "always k'' (\<lambda>k. spec_first k (p # ps) = po)"
          using po always_aside [OF t(1) b] True by (simp add: box_def spec_first_def)
        then show "Q (po, k'')" using Q [OF aside_trans [OF a b]] tri by auto
      qed
      then show ?thesis using True by simp
    qed
  qed
qed

lemma T_default [call_rules]:
  assumes r: "ready k"
    and Q: "\<And>po k'. aside k k' \<Longrightarrow> always k' (\<lambda>k. spec_first k (for_all_properties k s P_DEFAULT) = po) \<Longrightarrow>
      (\<And>p. po = Some p \<Longrightarrow> p \<in> set (s_prop (k_sym k' s)) \<and> p_type (k_prop k' p) = P_DEFAULT \<and>
         always k' (\<lambda>k. cond_val k p = tri_of k' p)) \<Longrightarrow> Q (po, k')"
  shows "returns (sym_get_default_prop cv s k) Q"
  unfolding sym_get_default_prop_def
proof (rule T_first [OF r])
  show "set (for_all_properties k s P_DEFAULT) \<subseteq> set (s_prop (k_sym k s))" by (auto simp: for_all_properties_def)
  fix po k' assume a: "aside k k'" and po: "always k' (\<lambda>ka. spec_first ka (for_all_properties k s P_DEFAULT) = po)"
    and tri: "\<And>p. po = Some p \<Longrightarrow> p \<in> set (for_all_properties k s P_DEFAULT) \<and>
      always k' (\<lambda>k. cond_val k p = tri_of k' p)"
  note v = run_simps [OF aside_run [OF a]]
  have "always k' (\<lambda>k. spec_first k (for_all_properties k s P_DEFAULT) = po)"
    using po by (rule box_mono) (simp add: later_simps v)
  then show "Q (po, k')" using tri by (intro Q [OF a]) (auto simp: for_all_properties_def v)
qed

lemma T_range [call_rules]:
  assumes r: "ready k"
    and Q: "\<And>po k'. aside k k' \<Longrightarrow> always k' (\<lambda>k. spec_first k (for_all_properties k s P_RANGE) = po) \<Longrightarrow>
      (\<And>p. po = Some p \<Longrightarrow> p \<in> set (s_prop (k_sym k' s)) \<and> p_type (k_prop k' p) = P_RANGE) \<Longrightarrow> Q (po, k')"
  shows "returns (sym_get_range_prop cv s k) Q"
  unfolding sym_get_range_prop_def
proof (rule T_first [OF r])
  show "set (for_all_properties k s P_RANGE) \<subseteq> set (s_prop (k_sym k s))" by (auto simp: for_all_properties_def)
  fix po k' assume a: "aside k k'" and po: "always k' (\<lambda>ka. spec_first ka (for_all_properties k s P_RANGE) = po)"
    and tri: "\<And>p. po = Some p \<Longrightarrow> p \<in> set (for_all_properties k s P_RANGE) \<and>
      always k' (\<lambda>k. cond_val k p = tri_of k' p)"
  note v = run_simps [OF aside_run [OF a]]
  have "always k' (\<lambda>k. spec_first k (for_all_properties k s P_RANGE) = po)"
    using po by (rule box_mono) (simp add: later_simps v)
  then show "Q (po, k')" using tri by (intro Q [OF a]) (auto simp: for_all_properties_def v)
qed

end

section \<open>Visibility\<close>

context calc_run begin

lemma T_prompts:
  assumes "ready k" "set ps \<subseteq> set (s_prop (k_sym k s))"
    and "\<And>v k'. aside k k' \<Longrightarrow> always k' (\<lambda>k. foldl EXPR_OR tri (map (cond_val k) ps) = v) \<Longrightarrow> Q (v, k')"
  shows "returns (prompts_visible cv ps tri k) Q"
  using assms
proof (induction ps arbitrary: tri k)
  case Nil
  then show ?case by (simp add: returns_base box_def aside_refl)
next
  case (Cons p ps)
  note r = Cons.prems(1) and sub = Cons.prems(2) and Q = Cons.prems(3)
  show ?case
    unfolding prompts_visible.simps returns_base
  proof (rule T_prop [OF r])
    show "p \<in> set (s_prop (k_sym k s))" using sub by simp
    fix t k' assume a: "aside k k'" and t: "always k' (\<lambda>k. cond_val k p = t)"
    have sub': "set ps \<subseteq> set (s_prop (k_sym k' s))"
      using sub by (simp add: run_simps [OF aside_run [OF a]])
    show "returns (case (t, k') of (t, k) \<Rightarrow> prompts_visible cv ps (EXPR_OR tri t) k) Q"
      unfolding prod.case
    proof (rule Cons.IH [OF aside_ready [OF a] sub'])
      fix v k'' assume b: "aside k' k''" "always k'' (\<lambda>k. foldl EXPR_OR (EXPR_OR tri t) (map (cond_val k) ps) = v)"
      have "always k'' (\<lambda>k. foldl EXPR_OR tri (map (cond_val k) (p # ps)) = v)"
        using b(2) always_aside [OF t b(1)] by (auto simp: box_def)
      then show "Q (v, k'')" by (rule Q [OF aside_trans [OF a b(1)]])
    qed
  qed
qed

text \<open>The visibility and the dependency values that are stored in the symbol.\<close>

definition own :: "kconf \<Rightarrow> tristate \<times> tristate \<times> tristate" where
  "own k = (s_visible (k_sym k s), ev_tri (s_dir_dep (k_sym k s)), ev_tri (s_rev_dep (k_sym k s)))"

definition spec_own :: "kconf \<Rightarrow> tristate \<times> tristate \<times> tristate" where
  "spec_own k = (spec_visible k s, spec_dir_dep k s, spec_rev_dep k s)"

definition seen :: "kconf \<Rightarrow> bool" where
  "seen k \<longleftrightarrow> always k (\<lambda>k'. spec_own k' = own k)"

lemma aside_own: "aside k k' \<Longrightarrow> own k' = own k \<and> s_curr (k_sym k' s) = s_curr (k_sym k s)"
  by (auto simp: aside_def unmoved_def semi_same_def own_def)

lemma seen_run: "seen k \<Longrightarrow> run D rank q s k k' \<Longrightarrow> own k' = own k \<Longrightarrow> seen k'"
  by (auto simp: seen_def intro: always_run)

lemma seen_aside: "seen k \<Longrightarrow> aside k k' \<Longrightarrow> seen k'"
  using aside_own by (auto intro: seen_run aside_run)

lemma run_set_own:
  assumes r: "ready k"
  shows "run D rank q s k (upd_sym s (s_visible_update (\<lambda>_. t)) k)"
    "run D rank q s k (upd_sym s (s_dir_dep_update (ev_tri_update (\<lambda>_. t))) k)"
    "run D rank q s k (upd_sym s (s_rev_dep_update (ev_tri_update (\<lambda>_. t))) k)"
  by (rule run_upd [OF r]; auto simp: static_view_sym_def stable_flags_def loud_flags_def dep_exprs_def)+

lemma own_set:
  "own (set_visible s t k) = (t, snd (own k))"
  "own (set_dir_dep s t k) = (fst (own k), t, snd (snd (own k)))"
  "own (set_rev_dep s t k) = (fst (own k), fst (snd (own k)), t)"
  by (auto simp: own_def set_visible_def set_dir_dep_def set_rev_dep_def)

lemma curr_set:
  "s_curr (k_sym (set_visible s t k) s) = s_curr (k_sym k s)"
  "s_curr (k_sym (set_dir_dep s t k) s) = s_curr (k_sym k s)"
  "s_curr (k_sym (set_rev_dep s t k) s) = s_curr (k_sym k s)"
  by (auto simp: set_visible_def set_dir_dep_def set_rev_dep_def)

lemma run_set:
  assumes r: "ready k"
  shows "run D rank q s k (set_visible s t k)" "run D rank q s k (set_dir_dep s t k)"
    "run D rank q s k (set_rev_dep s t k)"
proof -
  have "run D rank q s k (sym_set_changed s k')" if "run D rank q s k k'" for k'
    using run_trans [OF that aside_run [OF aside_changed [OF run_ready [OF that]]]] .
  then show "run D rank q s k (set_visible s t k)" "run D rank q s k (set_dir_dep s t k)"
    "run D rank q s k (set_rev_dep s t k)"
    using r run_set_own by (auto simp: set_visible_def set_dir_dep_def set_rev_dep_def ready_def run_refl)
qed

lemma plain: "ready k \<Longrightarrow> plain_sym k s"
  using s by (simp add: ready_def cone_def)

lemma get_type_plain:
  "ready k \<Longrightarrow> sym_get_type k s = (if s_type (k_sym k s) = S_TRISTATE \<and> k_modules_val k = tri_no
     then S_BOOLEAN else s_type (k_sym k s))"
  using plain by (auto simp: sym_get_type_def plain_sym_def)

lemma later_ready: "ready k \<Longrightarrow> later D rank q k k' \<Longrightarrow> plain_sym k' s"
  using s cone_later [of D rank k q k'] by (simp add: ready_def cone_def)

lemma get_type_later: "ready k \<Longrightarrow> later D rank q k k' \<Longrightarrow> sym_get_type k' s = sym_get_type k s"
  using later_ready plain by (auto simp: sym_get_type_def plain_sym_def later_simps) (auto simp: later_def)

end

context calc_run begin

text \<open>Storing a value of \<open>own\<close>.\<close>

lemma run_store:
  assumes a: "aside k k'" and f: "\<And>k. ready k \<Longrightarrow> run D rank q s k (f k)"
    "s_curr (k_sym (f k') s) = s_curr (k_sym k' s)"
  shows "run D rank q s k (f k') \<and> s_curr (k_sym (f k') s) = s_curr (k_sym k s)"
  using run_trans [OF aside_run [OF a] f(1) [OF aside_ready [OF a]]] f(2) aside_own [OF a] by simp

lemma T_dir_dep:
  assumes r: "ready k"
    and Q: "\<And>k'. run D rank q s k k' \<Longrightarrow> s_curr (k_sym k' s) = s_curr (k_sym k s) \<Longrightarrow>
      fst (own k') = fst (own k) \<Longrightarrow> always k' (\<lambda>ka. spec_dir_dep ka s = fst (snd (own k'))) \<Longrightarrow> Q k'"
  shows "returns (calc_dir_dep cv s k) Q"
proof -
  let ?e = "ev_expr (s_dir_dep (k_sym k s))"
  have deps: "\<forall>t \<in> calc_syms_opt ?e. dep_ok t" using deps_ok [OF r] by (auto simp: sym_deps_def)
  have "returns (expr_calc_value cv ?e k) (\<lambda>(w, k). Q (set_dir_dep s (if w = tri_mod then tri_yes else w) k))"
  proof (rule T_expr [OF r deps])
    fix w k' assume c: "call D rank q k k'" and w: "always k' (\<lambda>k. expr_val_opt (val_of k) ?e = w)"
    let ?w = "if w = tri_mod then tri_yes else w"
    note st = run_store [where f = "set_dir_dep s ?w", OF call_aside [OF c] run_set(2) curr_set(2)]
    have "ev_expr (s_dir_dep (k_sym k' s)) = ?e" by (simp add: run_simps [OF call_run [OF c]])
    then have "always k' (\<lambda>k. spec_dir_dep k s = ?w)"
      using w by (elim box_mono) (simp add: spec_dir_dep_def later_simps)
    then have "always (set_dir_dep s ?w k') (\<lambda>k. spec_dir_dep k s = ?w)"
      by (rule always_run [OF _ run_set(2) [OF call_ready [OF c]]])
    then show "case (w, k') of (w, k) \<Rightarrow> Q (set_dir_dep s (if w = tri_mod then tri_yes else w) k)"
      using Q st aside_own [OF call_aside [OF c]] by (simp add: own_set)
  qed
  then show ?thesis
    by (cases ?e) (auto simp: calc_dir_dep_def expr_calc_value_def returns_base split_def)
qed

lemma T_rev_dep:
  assumes r: "ready k"
    and Q: "\<And>k'. run D rank q s k k' \<Longrightarrow> s_curr (k_sym k' s) = s_curr (k_sym k s) \<Longrightarrow>
      own k' = (fst (own k), fst (snd (own k)), snd (snd (own k'))) \<Longrightarrow>
      always k' (\<lambda>ka. spec_rev_dep ka s = snd (snd (own k'))) \<Longrightarrow> Q k'"
  shows "returns (calc_rev_dep cv s k) Q"
proof -
  let ?e = "ev_expr (s_rev_dep (k_sym k s))"
  have fin: "Q (set_rev_dep s t k')" if a: "aside k k'" and t: "always k' (\<lambda>k. spec_rev_dep k s = t)" for t k'
    using run_store [where f = "set_rev_dep s t", OF a run_set(3) curr_set(3)] aside_own [OF a]
      always_run [OF t run_set(3) [OF aside_ready [OF a]]]
    by (intro Q) (simp_all add: own_set)
  show ?thesis
  proof (cases ?e)
    case None
    have "always k (\<lambda>k. spec_rev_dep k s = tri_no)" by (simp add: box_def spec_rev_dep_def later_simps None)
    then show ?thesis using fin [OF aside_refl [OF r]] None by (simp add: calc_rev_dep_def returns_base)
  next
    case (Some e)
    have d: "\<forall>t \<in> calc_syms_opt (Some e). dep_ok t"
      using deps_ok [OF r] Some by (auto simp: sym_deps_def)
    have "returns (expr_calc_value cv (Some e) k) (\<lambda>(w, k).
        Q (set_rev_dep s (if w = tri_mod \<and> sym_get_type k s = S_BOOLEAN then tri_yes else w) k))"
    proof (rule T_expr [OF r d])
      fix w k' assume c: "call D rank q k k'" and w: "always k' (\<lambda>k. expr_val_opt (val_of k) (Some e) = w)"
      let ?w = "if w = tri_mod \<and> sym_get_type k' s = S_BOOLEAN then tri_yes else w"
      have "ev_expr (s_rev_dep (k_sym k' s)) = Some e" using Some by (simp add: run_simps [OF call_run [OF c]])
      then have "always k' (\<lambda>k. spec_rev_dep k s = ?w)"
        using w call_ready [OF c] by (elim box_mono) (simp add: spec_rev_dep_def later_simps get_type_later)
      then show "case (w, k') of (w, k) \<Rightarrow>
        Q (set_rev_dep s (if w = tri_mod \<and> sym_get_type k s = S_BOOLEAN then tri_yes else w) k)"
        using fin [OF call_aside [OF c]] by simp
    qed
    then show ?thesis using Some by (simp add: calc_rev_dep_def returns_base split_def)
  qed
qed

lemma T_visibility:
  assumes r: "ready k"
    and Q: "\<And>k'. run D rank q s k k' \<Longrightarrow> s_curr (k_sym k' s) = s_curr (k_sym k s) \<Longrightarrow> seen k' \<Longrightarrow> Q k'"
  shows "returns (sym_calc_visibility cv s k) Q"
  unfolding sym_calc_visibility_def returns_base
proof (rule T_prompts [OF r])
  show "set (for_all_prompts k s) \<subseteq> set (s_prop (k_sym k s))" by (auto simp: for_all_prompts_def)
  fix v k1 assume a1: "aside k k1"
    and v: "always k1 (\<lambda>ka. foldl EXPR_OR tri_no (map (cond_val ka) (for_all_prompts k s)) = v)"
  let ?v = "if v = tri_mod \<and> (s_type (k_sym k1 s) \<noteq> S_TRISTATE \<or> k_modules_val k1 = tri_no) then tri_yes else v"
  let ?k2 = "set_visible s ?v k1"
  note run2 = run_store [where f = "set_visible s ?v", OF a1 run_set(1) curr_set(1)]
  note r2 = run_ready [OF conjunct1 [OF run2]]
  have "always k1 (\<lambda>k'. spec_visible k' s = ?v)"
    using v by (rule box_mono)
      (simp add: spec_visible_def later_simps run_simps [OF aside_run [OF a1]], auto simp: later_def)
  then have v2: "always ?k2 (\<lambda>k'. spec_visible k' s = fst (own ?k2))"
    unfolding own_set fst_conv by (rule always_run [OF _ run_set(1) [OF aside_ready [OF a1]]])
  have "returns (calc_dir_dep cv s ?k2) (\<lambda>k. returns (calc_rev_dep cv s k) Q)"
  proof (rule T_dir_dep [OF r2])
    fix k3
    assume 3: "run D rank q s ?k2 k3" "s_curr (k_sym k3 s) = s_curr (k_sym ?k2 s)" "fst (own k3) = fst (own ?k2)"
        "always k3 (\<lambda>k. spec_dir_dep k s = fst (snd (own k3)))"
    show "returns (calc_rev_dep cv s k3) Q"
    proof (rule T_rev_dep [OF run_ready [OF 3(1)]])
    fix k4
    assume 4: "run D rank q s k3 k4" "s_curr (k_sym k4 s) = s_curr (k_sym k3 s)"
        "own k4 = (fst (own k3), fst (snd (own k3)), snd (snd (own k4)))"
        "always k4 (\<lambda>k. spec_rev_dep k s = snd (snd (own k4)))"
    have "fst (own k4) = fst (own k3)" "fst (snd (own k4)) = fst (snd (own k3))"
      using 4(3) by (metis fst_conv, metis fst_conv snd_conv)
    then have "seen k4"
      using 4(4) always_run [OF 3(4) 4(1)] always_run [OF always_run [OF v2 3(1)] 4(1)] 3(3)
      by (auto simp: seen_def box_def spec_own_def prod_eq_iff)
    then show "Q k4" using run_trans [OF conjunct1 [OF run2] run_trans [OF 3(1) 4(1)]] 3(2) 4(2) run2 by (intro Q) auto
    qed
  qed
  then show "returns (case (v, k1) of (tri, k) \<Rightarrow> let tri = if tri = tri_mod \<and>
      (s_type (k_sym k s) \<noteq> S_TRISTATE \<or> k_modules_val k = tri_no) then tri_yes else tri;
      k = set_visible s tri k in if has_flag k s SYMBOL_CHOICEVAL then Some k else
        do { k \<leftarrow> calc_dir_dep cv s k; calc_rev_dep cv s k }) Q"
    using plain [OF r2] by (simp add: Let_def returns_base plain_sym_def)
qed

end

section \<open>Values\<close>

context calc_run begin

lemma unmet_returns:
  assumes r: "ready k" and sn: "seen k"
  shows "returns (unmet_dep_warning s k) (\<lambda>_. True)"
proof (cases "ev_tri (s_dir_dep (k_sym k s)) = tri_no \<and> ev_tri (s_rev_dep (k_sym k s)) \<noteq> tri_no")
  case True
  have "spec_own k = own k" using sn always_now [OF _ r] by (simp add: seen_def)
  then have e: "spec_dir_dep k s = tri_no" "spec_rev_dep k s \<noteq> tri_no"
    using True by (auto simp: spec_own_def own_def)
  obtain rv d where rv: "ev_expr (s_rev_dep (k_sym k s)) = Some rv" "ev_expr (s_dir_dep (k_sym k s)) = Some d"
    using e by (cases "ev_expr (s_rev_dep (k_sym k s))"; cases "ev_expr (s_dir_dep (k_sym k s))")
      (auto simp: spec_rev_dep_def spec_dir_dep_def)
  have "rev_dep_shape rv" using plain [OF r] rv by (simp add: plain_sym_def)
  with simplify_unmet_dep_defined [OF this, of "k_sym k" d] rv show ?thesis
    by (auto simp: unmet_dep_warning_def returns_base Let_def)
qed (auto simp: unmet_dep_warning_def returns_base Let_def)

text \<open>The default of a bool or tristate symbol.\<close>

definition default_tri :: "kconf \<Rightarrow> tristate" where
  "default_tri k = (case spec_first k (for_all_properties k s P_DEFAULT) of
     None \<Rightarrow> tri_no
   | Some p \<Rightarrow> EXPR_AND (expr_val_opt (val_of k) (p_expr (k_prop k p))) (cond_val k p))"

lemma T_tristate_default:
  assumes r: "ready k"
    and Q: "\<And>t k'. aside k k' \<Longrightarrow> always k' (\<lambda>k. default_tri k = t) \<Longrightarrow> Q (t, k')"
  shows "returns (tristate_default cv s tri_no k) Q"
proof -
  let ?k = "if ev_tri (s_rev_dep (k_sym k s)) \<noteq> tri_no then flag_on SYMBOL_WRITE s k else k"
  have a0: "aside k ?k" using aside_write(1) [OF r] aside_refl [OF r] by simp
  have nc: "\<not> has_flag ?k s SYMBOL_CHOICE" using plain [OF aside_ready [OF a0]] by (simp add: plain_sym_def)
  have "returns (sym_get_default_prop cv s ?k) (\<lambda>(po, k). returns (case po of None \<Rightarrow> Some (tri_no, k)
        | Some p \<Rightarrow> do {
            (t, k) \<leftarrow> expr_calc_value cv (p_expr (k_prop k p)) (flag_on SYMBOL_WRITE s k);
            Some (EXPR_AND t (ev_tri (p_visible (k_prop k p))), k) }) Q)"
  proof (rule T_default [OF aside_ready [OF a0]])
    fix po k1 assume a1: "aside ?k k1"
      and po: "always k1 (\<lambda>k. spec_first k (for_all_properties k s P_DEFAULT) = po)"
      and p: "\<And>p. po = Some p \<Longrightarrow> p \<in> set (s_prop (k_sym k1 s)) \<and> p_type (k_prop k1 p) = P_DEFAULT \<and>
         always k1 (\<lambda>k. cond_val k p = tri_of k1 p)"
    note a01 = aside_trans [OF a0 a1]
    show "case (po, k1) of (po, k) \<Rightarrow> returns (case po of None \<Rightarrow> Some (tri_no, k)
        | Some p \<Rightarrow> do {
            (t, k) \<leftarrow> expr_calc_value cv (p_expr (k_prop k p)) (flag_on SYMBOL_WRITE s k);
            Some (EXPR_AND t (ev_tri (p_visible (k_prop k p))), k) }) Q"
    proof (cases po)
      case None
      then have "always k1 (\<lambda>k. default_tri k = tri_no)"
        using po by (simp add: box_def default_tri_def)
      then show ?thesis using Q [OF a01] None by (simp add: returns_base)
    next
      case (Some x)
      note p = p [OF Some]
      let ?k2 = "flag_on SYMBOL_WRITE s k1"
      note a2 = aside_write(1) [OF aside_ready [OF a1]]
      have e2: "k_prop ?k2 = k_prop k1" by (simp add: flag_on_def)
      have x2: "x \<in> set (s_prop (k_sym ?k2 s))" using p by (simp add: flag_on_def)
      have "returns (expr_calc_value cv (p_expr (k_prop ?k2 x)) ?k2)
          (\<lambda>(t, k). Q (EXPR_AND t (ev_tri (p_visible (k_prop k x))), k))"
      proof (rule T_expr [OF aside_ready [OF a2]])
        show "\<forall>t \<in> calc_syms_opt (p_expr (k_prop ?k2 x)). dep_ok t"
          using own_prop_deps(2) [OF aside_ready [OF a2] x2] p e2 by simp
        fix v k3 assume c: "call D rank q ?k2 k3"
          and v: "always k3 (\<lambda>k. expr_val_opt (val_of k) (p_expr (k_prop ?k2 x)) = v)"
        note a3 = call_aside [OF c]
        have tri: "tri_of k3 x = tri_of k1 x"
          using c own_not_owned [OF aside_ready [OF a2] x2] e2 by (simp add: call_def tri_of_def)
        have e: "p_expr (k_prop k3 x) = p_expr (k_prop ?k2 x)" by (simp add: run_simps [OF call_run [OF c]])
        have "always k3 (\<lambda>k. default_tri k = EXPR_AND v (tri_of k1 x))"
          using v always_aside [OF always_aside [OF conjunct2 [OF conjunct2 [OF p]] a2] a3]
            always_aside [OF always_aside [OF po a2] a3] e Some
          by (auto simp: box_def default_tri_def later_simps)
        then show "case (v, k3) of (t, k) \<Rightarrow> Q (EXPR_AND t (ev_tri (p_visible (k_prop k x))), k)"
          using Q [OF aside_trans [OF a01 aside_trans [OF a2 a3]]] tri by (simp add: tri_of_def)
      qed
      then show ?thesis using Some e2 by (simp add: returns_base split_def)
    qed
  qed
  then show ?thesis using nc by (simp add: tristate_default_def Let_def returns_base split_def)
qed

text \<open>Facts on a later state that the proofs on user values need.\<close>

lemma user_later:
  assumes "later D rank q k k'"
  shows "s_def (k_sym k' s) = s_def (k_sym k s)" "has_flag k' s SYMBOL_DEF_USER = has_flag k s SYMBOL_DEF_USER"
  using assms by (auto simp: later_def)

lemma seen_later: "seen k \<Longrightarrow> later D rank q k k' \<Longrightarrow> spec_visible k' s = s_visible (k_sym k s) \<and>
    spec_dir_dep k' s = ev_tri (s_dir_dep (k_sym k s)) \<and> spec_rev_dep k' s = ev_tri (s_rev_dep (k_sym k s))"
  by (auto simp: seen_def box_def own_def spec_own_def)

lemma T_tristate:
  assumes r: "ready k" and sn: "seen k"
    and Q: "\<And>t k'. aside k k' \<Longrightarrow> always k' (\<lambda>k'. spec_tri k' s =
        (if t = tri_mod \<and> sym_get_type k' s = S_BOOLEAN then tri_yes else t)) \<Longrightarrow> Q (t, k')"
  shows "returns (calc_tristate cv s tri_no k) Q"
proof -
  let ?vis = "s_visible (k_sym k s)"
  let ?k = "if ?vis \<noteq> tri_no then flag_on SYMBOL_WRITE s k else k"
  have a0: "aside k ?k" using aside_write(1) [OF r] aside_refl [OF r] by simp
  have vis: "s_visible (k_sym ?k s) = ?vis" by (simp add: flag_on_def)
  have nc: "\<not> has_flag k s SYMBOL_CHOICEVAL" using plain [OF r] by (simp add: plain_sym_def)
  have fin: "returns (do { _ \<leftarrow> unmet_dep_warning s k'; Some (EXPR_OR t (ev_tri (s_rev_dep (k_sym k' s))), k') }) Q"
    if a: "aside ?k k'" and t: "always k' (\<lambda>k. (if spec_visible k s \<noteq> tri_no \<and> has_flag k s SYMBOL_DEF_USER
         then EXPR_AND (sv_tri (s_def (k_sym k s) S_DEF_USER)) (spec_visible k s) else default_tri k) = t)" for t k'
  proof -
    note a' = aside_trans [OF a0 a]
    note sn' = seen_aside [OF sn a']
    have "always k' (\<lambda>ka. spec_tri ka s = (if EXPR_OR t (ev_tri (s_rev_dep (k_sym k' s))) = tri_mod \<and>
        sym_get_type ka s = S_BOOLEAN then tri_yes else EXPR_OR t (ev_tri (s_rev_dep (k_sym k' s)))))"
      using t by (rule box_mono)
        (auto simp: spec_tri_def Let_def default_tri_def seen_later [OF sn'] split: if_splits option.splits)
    then show ?thesis
      using returns_mono [OF unmet_returns [OF aside_ready [OF a'] sn']] Q [OF a'] by (simp add: returns_base)
  qed
  have "returns (if ?vis \<noteq> tri_no \<and> has_flag ?k s SYMBOL_DEF_USER
      then Some (EXPR_AND (sv_tri (s_def (k_sym ?k s) S_DEF_USER)) ?vis, ?k)
      else tristate_default cv s tri_no ?k)
      (\<lambda>(t, k). returns (do { _ \<leftarrow> unmet_dep_warning s k; Some (EXPR_OR t (ev_tri (s_rev_dep (k_sym k s))), k) }) Q)"
  proof (cases "?vis \<noteq> tri_no \<and> has_flag ?k s SYMBOL_DEF_USER")
    case True
    have t: "?vis \<noteq> tri_no" "has_flag (flag_on SYMBOL_WRITE s k) s SYMBOL_DEF_USER"
      using True by auto
    have "always ?k (\<lambda>ka. spec_visible ka s = ?vis)"
      using seen_later [OF seen_aside [OF sn a0]] vis by (auto simp: box_def)
    then have "always ?k (\<lambda>k. (if spec_visible k s \<noteq> tri_no \<and> has_flag k s SYMBOL_DEF_USER
         then EXPR_AND (sv_tri (s_def (k_sym k s) S_DEF_USER)) (spec_visible k s) else default_tri k) =
         EXPR_AND (sv_tri (s_def (k_sym ?k s) S_DEF_USER)) ?vis)"
      using t by (elim box_mono) (simp add: user_later)
    from fin [OF aside_refl [OF aside_ready [OF a0]] this] t show ?thesis
      by (simp add: returns_base)
  next
    case False
    have v: "always ?k (\<lambda>ka. \<not> (spec_visible ka s \<noteq> tri_no \<and> has_flag ka s SYMBOL_DEF_USER))"
      using seen_later [OF seen_aside [OF sn a0]] vis False user_later(2) unfolding box_def by metis
    have "returns (tristate_default cv s tri_no ?k)
      (\<lambda>(t, k). returns (do { _ \<leftarrow> unmet_dep_warning s k; Some (EXPR_OR t (ev_tri (s_rev_dep (k_sym k s))), k) }) Q)"
    proof (rule T_tristate_default [OF aside_ready [OF a0]])
      fix t k' assume a: "aside ?k k'" and t: "always k' (\<lambda>k. default_tri k = t)"
      have "always k' (\<lambda>k. (if spec_visible k s \<noteq> tri_no \<and> has_flag k s SYMBOL_DEF_USER
         then EXPR_AND (sv_tri (s_def (k_sym k s) S_DEF_USER)) (spec_visible k s) else default_tri k) = t)"
        using t always_aside [OF v a] by (auto simp: box_def)
      from fin [OF a this] show "case (t, k') of (t, k) \<Rightarrow>
          returns (do { _ \<leftarrow> unmet_dep_warning s k; Some (EXPR_OR t (ev_tri (s_rev_dep (k_sym k s))), k) }) Q"
        by simp
    qed
    then show ?thesis using False by (simp only: if_False)
  qed
  then show ?thesis using nc by (simp add: calc_tristate_def Let_def returns_base split_def)
qed

end

context calc_run begin

lemma T_string_default:
  assumes r: "ready k" and ns: "always k (\<lambda>k. \<not> (spec_visible k s \<noteq> tri_no \<and> has_flag k s SYMBOL_DEF_USER))"
    and Q: "\<And>x k'. aside k k' \<Longrightarrow> always k' (\<lambda>k'. spec_string k' s = x) \<Longrightarrow> Q (VStr x, k')"
  shows "returns (string_default cv s (VStr []) k) Q"
  unfolding string_default_def returns_base
proof (rule T_default [OF r])
  fix po k1 assume a1: "aside k k1"
    and po: "always k1 (\<lambda>k. spec_first k (for_all_properties k s P_DEFAULT) = po)"
    and p: "\<And>p. po = Some p \<Longrightarrow> p \<in> set (s_prop (k_sym k1 s)) \<and> p_type (k_prop k1 p) = P_DEFAULT \<and>
       always k1 (\<lambda>k. cond_val k p = tri_of k1 p)"
  let ?m = "case po of None \<Rightarrow> None | Some p \<Rightarrow> prop_get_symbol k1 p"
  have str1: "always k1 (\<lambda>k. spec_string k s = (case ?m of None \<Rightarrow> [] | Some ds \<Rightarrow> raw_string k ds))"
    using po always_aside [OF ns a1]
    by (auto simp: box_def spec_string_def later_simps split: option.split)
  have "returns (case po of None \<Rightarrow> Some (VStr [], k1)
    | Some p \<Rightarrow>
        (case prop_get_symbol k1 p of None \<Rightarrow> Some (VStr [], k1)
         | Some ds \<Rightarrow> do {
             k \<leftarrow> cv ds (flag_on SYMBOL_WRITE s k1);
             Some (sv_val (s_curr (k_sym k ds)), k) })) Q"
  proof (cases ?m)
    case None
    then show ?thesis using Q [OF a1] str1 by (auto simp: returns_base split: option.splits)
  next
    case (Some ds)
    then obtain p where pp: "po = Some p" "prop_get_symbol k1 p = Some ds" by (auto split: option.splits)
    note p = p [OF pp(1)]
    note a2 = aside_write(1) [OF aside_ready [OF a1]]
    have "dep_ok ds"
      using own_prop_deps(2) [OF aside_ready [OF a1]] p pp(2)
      by (auto simp: prop_get_symbol_def split: option.splits expr.splits)
    then have "returns (cv ds (flag_on SYMBOL_WRITE s k1)) (\<lambda>k. Q (sv_val (s_curr (k_sym k ds)), k))"
    proof (rule T_cv [OF aside_ready [OF a2]])
      fix k3 assume c: "call D rank q (flag_on SYMBOL_WRITE s k1) k3" and sd: "settled k3 ds"
      note r3 = call_ready [OF c] and a3 = call_aside [OF c]
      obtain x where x: "sv_val (s_curr (k_sym k3 ds)) = VStr x"
        using dep_string [OF r3 \<open>dep_ok ds\<close> sd] by blast
      have "always k3 (\<lambda>k. raw_string k ds = x)"
        using always_val(2) [OF r3 sd dep_ok_low [OF r3 \<open>dep_ok ds\<close>]] x by (simp add: raw_string_def)
      then have "always k3 (\<lambda>k. spec_string k s = x)"
        using always_aside [OF always_aside [OF str1 a2] a3] Some by (simp add: box_def)
      with Q [OF aside_trans [OF a1 aside_trans [OF a2 a3]] this] x
      show "Q (sv_val (s_curr (k_sym k3 ds)), k3)" by simp
    qed
    then show ?thesis using pp by (simp add: returns_base)
  qed
  then show "returns (case (po, k1) of (po, k) \<Rightarrow> case po of None \<Rightarrow> Some (VStr [], k)
    | Some p \<Rightarrow>
        (case prop_get_symbol k p of None \<Rightarrow> Some (VStr [], k)
         | Some ds \<Rightarrow> do {
             k \<leftarrow> cv ds (flag_on SYMBOL_WRITE s k);
             Some (sv_val (s_curr (k_sym k ds)), k) })) Q" by simp
qed

lemma T_calc_string:
  assumes r: "ready k" and sn: "seen k"
    and str: "s_type (k_sym k s) \<in> {S_INT, S_HEX, S_STRING}"
    and Q: "\<And>x k'. aside k k' \<Longrightarrow> always k' (\<lambda>k'. spec_string k' s = x) \<Longrightarrow> Q (VStr x, k')"
  shows "returns (calc_string cv s (VStr []) k) Q"
proof -
  let ?vis = "s_visible (k_sym k s)"
  let ?k = "if ?vis \<noteq> tri_no then flag_on SYMBOL_WRITE s k else k"
  have a0: "aside k ?k" using aside_write(1) [OF r] aside_refl [OF r] by simp
  note r0 = aside_ready [OF a0]
  have "s_visible (k_sym ?k s) = ?vis" by (simp add: flag_on_def)
  then have vis: "always ?k (\<lambda>ka. spec_visible ka s = ?vis)"
    using seen_later [OF seen_aside [OF sn a0]] by (auto simp: box_def)
  have def: "calc_string cv s (VStr []) k = (if ?vis \<noteq> tri_no \<and> has_flag ?k s SYMBOL_DEF_USER
      then Some (sv_val (s_def (k_sym ?k s) S_DEF_USER), ?k) else string_default cv s (VStr []) ?k)"
    by (simp add: calc_string_def Let_def)
  show ?thesis
  proof (cases "?vis \<noteq> tri_no \<and> has_flag ?k s SYMBOL_DEF_USER")
    case True
    have "s_type (k_sym ?k s) \<in> {S_INT, S_HEX, S_STRING}" using str by (simp add: flag_on_def)
    then obtain x where x: "sv_val (s_def (k_sym ?k s) S_DEF_USER) = VStr x"
      using plain [OF r0] True unfolding plain_sym_def by (metis cval.exhaust cval_string.simps(2,3))
    have t: "?vis \<noteq> tri_no" "has_flag (flag_on SYMBOL_WRITE s k) s SYMBOL_DEF_USER" using True by auto
    have "always ?k (\<lambda>ka. spec_string ka s = x)"
      using vis x t by (elim box_mono) (simp add: spec_string_def user_later)
    with Q [OF a0 this] x t show ?thesis unfolding def by (simp add: returns_base)
  next
    case False
    have "always ?k (\<lambda>ka. \<not> (spec_visible ka s \<noteq> tri_no \<and> has_flag ka s SYMBOL_DEF_USER))"
      using vis by (rule box_mono) (use False user_later(2) in metis)
    then have "returns (string_default cv s (VStr []) ?k) Q"
      by (rule T_string_default [OF r0]) (rule Q [OF aside_trans [OF a0]])
    then show ?thesis unfolding def by (simp only: False if_False)
  qed
qed

end

context calc_run begin

definition start_of :: "symbol_type \<Rightarrow> symbol_value" where
  "start_of ty = (if ty \<in> {S_BOOLEAN, S_TRISTATE} then \<lparr>sv_val = VStr ''n'', sv_tri = tri_no\<rparr>
     else \<lparr>sv_val = VStr [], sv_tri = tri_no\<rparr>)"

definition spec_new :: "kconf \<Rightarrow> symbol_value" where
  "spec_new k = (if s_type (k_sym k s) \<in> {S_BOOLEAN, S_TRISTATE} then \<lparr>sv_val = VStr ''n'', sv_tri = spec_tri k s\<rparr>
     else \<lparr>sv_val = VStr (spec_string k s), sv_tri = tri_no\<rparr>)"

lemma T_newval:
  assumes r: "ready k" and sn: "seen k"
    and ty: "s_type (k_sym k s) \<in> {S_BOOLEAN, S_TRISTATE, S_INT, S_HEX, S_STRING}"
    and Q: "\<And>v k'. aside k k' \<Longrightarrow> always k' (\<lambda>k'. spec_new k' = v) \<Longrightarrow> Q (v, k')"
  shows "returns (calc_newval cv s (start_of (s_type (k_sym k s))) k) Q"
proof (cases "s_type (k_sym k s) \<in> {S_BOOLEAN, S_TRISTATE}")
  case True
  have "returns (calc_tristate cv s tri_no k) (\<lambda>(tri, k). Q (\<lparr>sv_val = VStr ''n'',
      sv_tri = if tri = tri_mod \<and> sym_get_type k s = S_BOOLEAN then tri_yes else tri\<rparr>, k))"
  proof (rule T_tristate [OF r sn])
    fix t k' assume a: "aside k k'" and t: "always k' (\<lambda>k'. spec_tri k' s =
        (if t = tri_mod \<and> sym_get_type k' s = S_BOOLEAN then tri_yes else t))"
    have "always k' (\<lambda>k. spec_new k = \<lparr>sv_val = VStr ''n'',
        sv_tri = if t = tri_mod \<and> sym_get_type k' s = S_BOOLEAN then tri_yes else t\<rparr>)"
      using t True aside_ready [OF a]
      by (elim box_mono) (simp add: spec_new_def later_simps run_simps [OF aside_run [OF a]] get_type_later)
    from Q [OF a this] show "case (t, k') of (tri, k) \<Rightarrow> Q (\<lparr>sv_val = VStr ''n'',
      sv_tri = if tri = tri_mod \<and> sym_get_type k s = S_BOOLEAN then tri_yes else tri\<rparr>, k)" by simp
  qed
  moreover have "sym_get_type k s \<in> {S_BOOLEAN, S_TRISTATE}" using True r by (auto simp: get_type_plain)
  ultimately show ?thesis using True
    by (simp add: calc_newval_def start_of_def returns_base split_def Let_def)
next
  case False
  then have str: "s_type (k_sym k s) \<in> {S_INT, S_HEX, S_STRING}" using ty by auto
  have "returns (calc_string cv s (VStr []) k) (\<lambda>(v, k). Q (\<lparr>sv_val = v, sv_tri = tri_no\<rparr>, k))"
  proof (rule T_calc_string [OF r sn str])
    fix x k' assume a: "aside k k'" and x: "always k' (\<lambda>k'. spec_string k' s = x)"
    have "always k' (\<lambda>k. spec_new k = \<lparr>sv_val = VStr x, sv_tri = tri_no\<rparr>)"
      using x False by (elim box_mono) (simp add: spec_new_def later_simps run_simps [OF aside_run [OF a]])
    from Q [OF a this] show "case (VStr x, k') of (v, k) \<Rightarrow> Q (\<lparr>sv_val = v, sv_tri = tri_no\<rparr>, k)" by simp
  qed
  moreover have "sym_get_type k s = s_type (k_sym k s)" using str by (auto simp: sym_get_type_simps)
  ultimately show ?thesis using str
    by (auto simp: calc_newval_def start_of_def returns_base split_def)
qed

lemma T_range_val:
  assumes r: "ready k" and t: "dep_ok t"
    and Q: "\<And>k'. call D rank q k k' \<Longrightarrow> settled k' t \<Longrightarrow> Q (range_val k' t b, k')"
  shows "returns (sym_get_range_val cv t b k) Q"
  unfolding sym_get_range_val_def returns_base
proof (rule T_cv [OF r t])
  fix k' assume c: "call D rank q k k'" "settled k' t"
  obtain x where "sv_val (s_curr (k_sym k' t)) = VStr x"
    using dep_string [OF call_ready [OF c(1)] t c(2)] by blast
  with Q [OF c] show "returns (cval_string (sv_val (s_curr (k_sym k' t))))
      (\<lambda>str. Q (strtoll (type_base (s_type (k_sym k' t)) b) str, k'))"
    by (simp add: returns_base range_val_def raw_string_def)
qed

lemma always_range_val:
  assumes "call D rank q k k'" "settled k' t" "dep_ok t"
  shows "always k' (\<lambda>k. range_val k t b = range_val k' t b)"
  using always_val(3) [OF call_ready [OF assms(1)] assms(2)] dep_ok_low [OF call_ready [OF assms(1)] assms(3)] by blast

text \<open>The steps after the value is known: the range, then the marks.\<close>

lemma T_clamp:
  assumes r: "ready k" and v: "s_curr (k_sym k s) = \<lparr>sv_val = VStr x, sv_tri = tri_no\<rparr>"
    and p: "p_expr (k_prop k p) = Some (e_range lo hi)" "dep_ok lo" "dep_ok hi"
    and keep: "\<And>k'. aside k k' \<Longrightarrow> always k' (\<lambda>k. strtoll b x \<ge> range_val k lo b \<and> strtoll b x \<le> range_val k hi b) \<Longrightarrow> Q k'"
    and put: "\<And>y k'. aside k k' \<Longrightarrow> always k' (\<lambda>k.
       if strtoll b x < range_val k lo b then y = print_number (s_type (k_sym k s)) (range_val k lo b)
       else strtoll b x > range_val k hi b \<and> y = print_number (s_type (k_sym k s)) (range_val k hi b)) \<Longrightarrow>
       Q (set_curr_val s (VStr y) k')"
    and b: "b = type_base (s_type (k_sym k s)) 0"
  shows "returns (clamp_range cv s p k) Q"
proof -
  let ?ty = "s_type (k_sym k s)"
  have "returns (sym_get_range_val cv lo b k) (\<lambda>(val2, k). returns
      (if strtoll b x < val2 then Some (set_curr_val s (VStr (print_number ?ty val2)) k)
        else do {
          (val2, k) \<leftarrow> sym_get_range_val cv hi b k;
          if strtoll b x \<le> val2 then Some k
          else Some (set_curr_val s (VStr (print_number ?ty val2)) k) }) Q)"
  proof (rule T_range_val [OF r p(2)])
    fix k2 assume c2: "call D rank q k k2" "settled k2 lo"
    note a2 = call_aside [OF c2(1)] and lo = always_range_val [OF c2 p(2), of b]
    have ty2: "always k2 (\<lambda>k. s_type (k_sym k s) = ?ty)"
      by (simp add: box_def later_simps run_simps [OF aside_run [OF a2]])
    have "returns (if strtoll b x < range_val k2 lo b
        then Some (set_curr_val s (VStr (print_number ?ty (range_val k2 lo b))) k2)
        else do {
          (val2, k) \<leftarrow> sym_get_range_val cv hi b k2;
          if strtoll b x \<le> val2 then Some k
          else Some (set_curr_val s (VStr (print_number ?ty val2)) k) }) Q"
    proof (cases "strtoll b x < range_val k2 lo b")
      case True
      with lo ty2 have "Q (set_curr_val s (VStr (print_number ?ty (range_val k2 lo b))) k2)"
        by (intro put [OF a2]) (auto simp: box_def)
      with True show ?thesis by (simp add: returns_base)
    next
      case lo': False
      have "returns (sym_get_range_val cv hi b k2) (\<lambda>(val2, k). returns
          (if strtoll b x \<le> val2 then Some k
          else Some (set_curr_val s (VStr (print_number ?ty val2)) k)) Q)"
      proof (rule T_range_val [OF call_ready [OF c2(1)] p(3)])
        fix k3 assume c3: "call D rank q k2 k3" "settled k3 hi"
        note a3 = aside_trans [OF a2 call_aside [OF c3(1)]]
        note box = always_call [OF lo c3(1)] always_range_val [OF c3 p(3), of b] always_call [OF ty2 c3(1)]
        have "Q k3" if "strtoll b x \<le> range_val k3 hi b"
          using box lo' that by (intro keep [OF a3]) (auto simp: box_def)
        moreover have "Q (set_curr_val s (VStr (print_number ?ty (range_val k3 hi b))) k3)"
          if "\<not> strtoll b x \<le> range_val k3 hi b"
          using box lo' that by (intro put [OF a3]) (auto simp: box_def)
        ultimately show "case (range_val k3 hi b, k3) of (val2, k) \<Rightarrow> returns
          (if strtoll b x \<le> val2 then Some k
          else Some (set_curr_val s (VStr (print_number ?ty val2)) k)) Q"
          by (simp add: returns_base)
      qed
      then show ?thesis using lo' by (simp add: returns_base split_def)
    qed
    then show "case (range_val k2 lo b, k2) of (val2, k) \<Rightarrow> returns
      (if strtoll b x < val2 then Some (set_curr_val s (VStr (print_number ?ty val2)) k)
        else do {
          (val2, k) \<leftarrow> sym_get_range_val cv hi b k;
          if strtoll b x \<le> val2 then Some k
          else Some (set_curr_val s (VStr (print_number ?ty val2)) k) }) Q" by simp
  qed
  then show ?thesis using v p(1) b by (simp add: clamp_range_def returns_base split_def Let_def cong: if_cong)
qed

lemma T_validate:
  assumes r: "ready k" and v: "s_curr (k_sym k s) = \<lparr>sv_val = VStr x, sv_tri = tri_no\<rparr>"
    and Q: "\<And>y k'. run D rank q s k k' \<Longrightarrow> own k' = own k \<Longrightarrow>
      s_curr (k_sym k' s) = \<lparr>sv_val = VStr y, sv_tri = tri_no\<rparr> \<Longrightarrow> always k' (\<lambda>k. spec_range k s x = y) \<Longrightarrow> Q k'"
  shows "returns (sym_validate_range cv s k) Q"
proof (cases "s_type (k_sym k s) \<noteq> S_INT \<and> s_type (k_sym k s) \<noteq> S_HEX")
  case True
  have "always k (\<lambda>k. spec_range k s x = x)" using True by (auto simp: box_def spec_range_def later_simps)
  from Q [OF aside_run [OF aside_refl [OF r]] refl v this] True show ?thesis
    by (simp add: sym_validate_range_def returns_base)
next
  case False
  have keep: "Q k'" if a: "aside k k'" "always k' (\<lambda>k. spec_range k s x = x)" for k'
    using Q [OF aside_run [OF a(1)] _ _ a(2)] aside_own [OF a(1)] v by simp
  have put: "Q (set_curr_val s (VStr y) k')" if a: "aside k k'" "always k' (\<lambda>k. spec_range k s x = y)" for k' y
  proof -
    have e: "set_curr_val s (VStr y) k' = set_curr s \<lparr>sv_val = VStr y, sv_tri = tri_no\<rparr> k'"
      using aside_own [OF a(1)] v by (simp add: set_curr_val_def)
    note rc = run_curr [OF aside_ready [OF a(1)], of "\<lparr>sv_val = VStr y, sv_tri = tri_no\<rparr>"]
    have o: "own (set_curr s \<lparr>sv_val = VStr y, sv_tri = tri_no\<rparr> k') = own k"
      using aside_own [OF a(1)] by (simp add: own_def set_curr_def)
    show ?thesis unfolding e
      by (rule Q [OF run_trans [OF aside_run [OF a(1)] rc] o _ always_run [OF a(2) rc]])
        (simp add: set_curr_def)
  qed
  have "returns (sym_get_range_prop cv s k)
      (\<lambda>(po, k). returns (case po of None \<Rightarrow> Some k | Some p \<Rightarrow> clamp_range cv s p k) Q)"
  proof (rule T_range [OF r])
    fix po k1 assume a: "aside k k1" and po: "always k1 (\<lambda>k. spec_first k (for_all_properties k s P_RANGE) = po)"
      and p: "\<And>p. po = Some p \<Longrightarrow> p \<in> set (s_prop (k_sym k1 s)) \<and> p_type (k_prop k1 p) = P_RANGE"
    note r1 = aside_ready [OF a]
    have num: "\<not> (s_type (k_sym k1 s) \<noteq> S_INT \<and> s_type (k_sym k1 s) \<noteq> S_HEX)"
      using False run_simps(1) [OF aside_run [OF a], of s] by simp
    have v1: "s_curr (k_sym k1 s) = \<lparr>sv_val = VStr x, sv_tri = tri_no\<rparr>" using aside_own [OF a] v by simp
    show "case (po, k1) of (po, k) \<Rightarrow> returns (case po of None \<Rightarrow> Some k | Some p \<Rightarrow> clamp_range cv s p k) Q"
    proof (cases po)
      case None
      have "always k1 (\<lambda>k. spec_range k s x = x)"
        using po None by (auto simp: box_def spec_range_def Let_def)
      then show ?thesis using keep [OF a] None by (simp add: returns_base)
    next
      case (Some pr)
      note p = p [OF Some]
      then obtain lo hi where lh: "p_expr (k_prop k1 pr) = Some (e_range lo hi)"
        using plain [OF r1] by (auto simp: plain_sym_def elim!: range_syms.elims dest!: bspec [of _ _ pr])
      let ?b = "type_base (s_type (k_sym k1 s)) 0"
      have sr: "always k1 (\<lambda>ka. spec_range ka s x =
          (if strtoll ?b x < range_val ka lo ?b then print_number (s_type (k_sym ka s)) (range_val ka lo ?b)
           else if strtoll ?b x \<le> range_val ka hi ?b then x
           else print_number (s_type (k_sym ka s)) (range_val ka hi ?b)))"
        using po Some num lh by (elim box_mono) (auto simp: spec_range_def later_simps Let_def)
      have "returns (clamp_range cv s pr k1) Q"
      proof (rule T_clamp [OF r1 v1 lh])
        show "dep_ok lo" "dep_ok hi" using own_prop_deps(3) [OF r1] p lh by auto
      next
        fix k' assume b: "aside k1 k'"
          "always k' (\<lambda>k. strtoll ?b x \<ge> range_val k lo ?b \<and> strtoll ?b x \<le> range_val k hi ?b)"
        show "Q k'" using b always_aside [OF sr b(1)]
          by (intro keep [OF aside_trans [OF a b(1)]]) (auto simp: box_def)
      next
        fix y k' assume b: "aside k1 k'" and y: "always k' (\<lambda>k.
          if strtoll ?b x < range_val k lo ?b then y = print_number (s_type (k_sym k s)) (range_val k lo ?b)
          else strtoll ?b x > range_val k hi ?b \<and> y = print_number (s_type (k_sym k s)) (range_val k hi ?b))"
        show "Q (set_curr_val s (VStr y) k')" using y always_aside [OF sr b]
          by (intro put [OF aside_trans [OF a b]]) (auto simp: box_def split: if_splits)
      qed simp
      then show ?thesis using Some by simp
    qed
  qed
  then show ?thesis
    unfolding sym_validate_range_def if_not_P [OF False] by (simp add: returns_base split_def)
qed

end

section \<open>The calculation of one symbol\<close>

context calc_run begin

lemma T_finish:
  assumes r: "ready k" and Q: "\<And>k'. aside k k' \<Longrightarrow> Q k'"
  shows "returns (finish_value s oldval k) Q"
proof -
  obtain m where m: "k_modules_sym k = Some m" "m \<noteq> s" using r s by (auto simp: ready_def cone_def)
  have a1: "aside k (note_change s oldval k)"
    using aside_changed [OF r] aside_refl [OF r] m by (simp add: note_change_def Let_def)
  let ?k1 = "note_change s oldval k"
  let ?k2 = "if has_flag ?k1 s SYMBOL_AUTO then flag_off SYMBOL_WRITE s ?k1 else ?k1"
  have a2: "aside ?k1 ?k2"
    using aside_write(2) [OF aside_ready [OF a1]] aside_refl [OF aside_ready [OF a1]] by simp
  have "propagate_choice s ?k1 = Some ?k1"
    using plain [OF aside_ready [OF a1]] by (simp add: propagate_choice_def plain_sym_def)
  moreover have "\<not> has_flag ?k2 s SYMBOL_NEED_SET_CHOICE_VALUES"
    using plain [OF aside_ready [OF a2]] by (simp add: plain_sym_def)
  ultimately show ?thesis
    using Q [OF aside_trans [OF a1 a2]] by (simp add: finish_value_def Let_def returns_base)
qed

text \<open>The symbol's value and stored fields in every later state of the run.\<close>

definition calculated :: "kconf \<Rightarrow> bool" where
  "calculated k \<longleftrightarrow>
     (s_type (k_sym k s) \<in> {S_BOOLEAN, S_TRISTATE, S_INT, S_HEX, S_STRING} \<longrightarrow> seen k) \<and>
     always k (\<lambda>k'. spec_value k' s = s_curr (k_sym k s))"

lemma calculated_aside: "calculated k \<Longrightarrow> aside k k' \<Longrightarrow> calculated k'"
  using aside_own [of k k'] run_simps(1) [OF aside_run, of k k' s]
  by (auto simp: calculated_def intro: seen_aside always_aside)

lemma spec_new_value:
  "s_type (k_sym k s) \<in> {S_BOOLEAN, S_TRISTATE, S_INT, S_HEX, S_STRING} \<Longrightarrow>
   spec_value k s = (if s_type (k_sym k s) \<in> {S_BOOLEAN, S_TRISTATE} then spec_new k
     else \<lparr>sv_val = VStr (spec_range k s (spec_string k s)), sv_tri = tri_no\<rparr>)"
  by (auto simp: spec_value_def spec_new_def)

lemma T_settle:
  assumes r: "ready k" and sn: "seen k"
    and ty: "s_type (k_sym k s) \<in> {S_BOOLEAN, S_TRISTATE, S_INT, S_HEX, S_STRING}"
    and new: "always k (\<lambda>k'. spec_new k' = s_curr (k_sym k s))"
    and Q: "\<And>k'. run D rank q s k k' \<Longrightarrow> calculated k' \<Longrightarrow> Q k'"
  shows "returns (sym_validate_range cv s k) Q"
proof (cases "s_type (k_sym k s) \<in> {S_BOOLEAN, S_TRISTATE}")
  case True
  then have "always k (\<lambda>k'. spec_value k' s = s_curr (k_sym k s))"
    using new by (elim box_mono) (auto simp: spec_value_def spec_new_def later_simps)
  then have "Q k" using sn r by (intro Q) (simp_all add: calculated_def run_refl ready_def)
  moreover have "sym_validate_range cv s k = Some k" using True by (auto simp: sym_validate_range_def)
  ultimately show ?thesis by (simp add: returns_base)
next
  case False
  have "s_curr (k_sym k s) = spec_new k" using always_now [OF new r] by simp
  with False obtain x where x: "s_curr (k_sym k s) = \<lparr>sv_val = VStr x, sv_tri = tri_no\<rparr>"
    by (simp add: spec_new_def)
  show ?thesis
  proof (rule T_validate [OF r x])
    fix y k' assume k': "run D rank q s k k'" "own k' = own k"
      "s_curr (k_sym k' s) = \<lparr>sv_val = VStr y, sv_tri = tri_no\<rparr>" "always k' (\<lambda>k. spec_range k s x = y)"
    have "always k' (\<lambda>k. spec_value k s = \<lparr>sv_val = VStr y, sv_tri = tri_no\<rparr>)"
    proof -
      have "always k' (\<lambda>k. spec_range k s x = y \<and> spec_new k = \<lparr>sv_val = VStr x, sv_tri = tri_no\<rparr>)"
        using k'(4) always_run [OF new k'(1)] x by (simp add: box_def)
      then show ?thesis
        using False ty by (elim box_mono)
          (auto simp: spec_value_def spec_new_def later_simps run_simps [OF k'(1)])
    qed
    then show "Q k'" using k' seen_run [OF sn k'(1,2)] by (intro Q) (simp_all add: calculated_def)
  qed
qed

lemma T_body:
  assumes r: "ready k" and ty: "s_type (k_sym k s) \<in> {S_BOOLEAN, S_TRISTATE, S_INT, S_HEX, S_STRING}"
    and Q: "\<And>k'. run D rank q s k k' \<Longrightarrow> calculated k' \<Longrightarrow> Q k'"
  shows "returns (calc_value_body cv s oldval (start_of (s_type (k_sym k s))) k) Q"
proof -
  let ?new = "start_of (s_type (k_sym k s))"
  let ?k = "flag_off SYMBOL_WRITE s k"
  have nc: "\<not> has_flag k s SYMBOL_CHOICEVAL" using plain [OF r] by (simp add: plain_sym_def)
  note a0 = aside_write(2) [OF r]
  have "returns (sym_calc_visibility cv s ?k) (\<lambda>k. returns (calc_newval cv s ?new (set_curr s ?new k))
      (\<lambda>(newval, k). returns (do {
         k \<leftarrow> (if has_flag (set_curr s newval k) s SYMBOL_CHOICE \<and> sv_tri newval = tri_yes then do {
             (d, k) \<leftarrow> sym_calc_choice cv s (set_curr s newval k);
             Some (set_curr_val s (case d of None \<Rightarrow> VNull | Some x \<Rightarrow> VSym x) k) }
           else Some (set_curr s newval k));
         k \<leftarrow> sym_validate_range cv s k;
         finish_value s oldval k }) Q))"
  proof (rule T_visibility [OF aside_ready [OF a0]])
    fix k1 assume 1: "run D rank q s ?k k1" "seen k1"
    let ?k2 = "set_curr s ?new k1"
    note rc = run_curr [OF run_ready [OF 1(1)], of ?new]
    note run2 = run_trans [OF run_trans [OF aside_run [OF a0] 1(1)] rc]
    have sn2: "seen ?k2" by (rule seen_run [OF 1(2) rc]) (simp add: own_def set_curr_def)
    have ty2: "s_type (k_sym ?k2 s) = s_type (k_sym k s)" by (simp add: run_simps [OF run2])
    have "returns (calc_newval cv s (start_of (s_type (k_sym ?k2 s))) ?k2) (\<lambda>(newval, k). returns (do {
         k \<leftarrow> (if has_flag (set_curr s newval k) s SYMBOL_CHOICE \<and> sv_tri newval = tri_yes then do {
             (d, k) \<leftarrow> sym_calc_choice cv s (set_curr s newval k);
             Some (set_curr_val s (case d of None \<Rightarrow> VNull | Some x \<Rightarrow> VSym x) k) }
           else Some (set_curr s newval k));
         k \<leftarrow> sym_validate_range cv s k;
         finish_value s oldval k }) Q)"
    proof (rule T_newval [OF run_ready [OF run2] sn2])
      show "s_type (k_sym ?k2 s) \<in> {S_BOOLEAN, S_TRISTATE, S_INT, S_HEX, S_STRING}" using ty ty2 by simp
      fix v k3 assume 3: "aside ?k2 k3" "always k3 (\<lambda>k. spec_new k = v)"
      let ?k4 = "set_curr s v k3"
      note rc4 = run_curr [OF aside_ready [OF 3(1)], of v]
      note run4 = run_trans [OF run_trans [OF run2 aside_run [OF 3(1)]] rc4]
      have sn4: "seen ?k4"
        by (rule seen_run [OF seen_aside [OF sn2 3(1)] rc4]) (simp add: own_def set_curr_def)
      have nch: "\<not> has_flag ?k4 s SYMBOL_CHOICE" using plain [OF run_ready [OF run4]] by (simp add: plain_sym_def)
      have "returns (sym_validate_range cv s ?k4) (\<lambda>k. returns (finish_value s oldval k) Q)"
      proof (rule T_settle [OF run_ready [OF run4] sn4])
        show "s_type (k_sym ?k4 s) \<in> {S_BOOLEAN, S_TRISTATE, S_INT, S_HEX, S_STRING}"
          using ty by (simp add: run_simps [OF run4])
        show "always ?k4 (\<lambda>k'. spec_new k' = s_curr (k_sym ?k4 s))"
          using always_run [OF 3(2) rc4] by (simp add: set_curr_def)
        fix k5 assume 5: "run D rank q s ?k4 k5" "calculated k5"
        show "returns (finish_value s oldval k5) Q"
          by (rule T_finish [OF run_ready [OF 5(1)]])
            (use run_trans [OF run_trans [OF run4 5(1)] aside_run] calculated_aside [OF 5(2)] Q in blast)
      qed
      then show "case (v, k3) of (newval, k) \<Rightarrow> returns (do {
         k \<leftarrow> (if has_flag (set_curr s newval k) s SYMBOL_CHOICE \<and> sv_tri newval = tri_yes then do {
             (d, k) \<leftarrow> sym_calc_choice cv s (set_curr s newval k);
             Some (set_curr_val s (case d of None \<Rightarrow> VNull | Some x \<Rightarrow> VSym x) k) }
           else Some (set_curr s newval k));
         k \<leftarrow> sym_validate_range cv s k;
         finish_value s oldval k }) Q" using nch by (simp add: returns_base)
    qed
    then show "returns (calc_newval cv s ?new ?k2) (\<lambda>(newval, k). returns (do {
         k \<leftarrow> (if has_flag (set_curr s newval k) s SYMBOL_CHOICE \<and> sv_tri newval = tri_yes then do {
             (d, k) \<leftarrow> sym_calc_choice cv s (set_curr s newval k);
             Some (set_curr_val s (case d of None \<Rightarrow> VNull | Some x \<Rightarrow> VSym x) k) }
           else Some (set_curr s newval k));
         k \<leftarrow> sym_validate_range cv s k;
         finish_value s oldval k }) Q)" by (simp add: ty2)
  qed
  then show ?thesis using nc by (simp add: calc_value_body_def Let_def returns_base split_def)
qed

end

context calc_run begin

text \<open>The first update marks the symbol as valid: no symbol but it is touched.\<close>

lemma begin_run:
  assumes r: "ready k" and nv: "\<not> has_flag k s SYMBOL_VALID"
  shows "ready (flag_on SYMBOL_VALID s k)" "later D rank n k (flag_on SYMBOL_VALID s k)"
proof -
  let ?k = "flag_on SYMBOL_VALID s k"
  have "calc_frame k ?k" by (rule frame_valid(1) [OF calc_frame_refl [OF ready_static [OF r]]])
  then have l: "later D rank n k ?k" for n by (auto simp: later_def flag_on_def has_flag_def semi_same_def)
  show "later D rank n k ?k" by (rule l)
  have "cons D rank q ?k"
    unfolding cons_def
  proof (intro ballI impI)
    fix t assume t: "t \<in> D" "rank t < q \<and> has_flag ?k t SYMBOL_VALID"
    then have "box D rank (Suc (rank t)) k (local_ok t)"
      using r rank_s by (auto simp: ready_def cons_def has_flag_def flag_on_def split: if_splits)
    then show "box D rank (Suc (rank t)) ?k (local_ok t)" by (rule box_later [OF _ l])
  qed
  with cone_later [OF _ l] r show "ready ?k" by (auto simp: ready_def)
qed

text \<open>The result is up to date in all later states in which its rank is not calculated again.\<close>

lemma calculated_ok:
  assumes r: "ready k" and c: "calculated k" and v: "has_flag k s SYMBOL_VALID"
  shows "box D rank (Suc q) k (local_ok s)"
  unfolding box_def
proof (intro allI impI)
  fix k' assume l: "later D rank (Suc q) k k'"
  have l': "later D rank q k k'" by (rule later_mono [OF l]) simp
  have "\<not> has_flag k s SYMBOL_NEED_SET_CHOICE_VALUES" using plain [OF r] by (simp add: plain_sym_def)
  then have "semi_same (k_sym k s) (k_sym k' s)" using l v rank_s by (auto simp: later_def low_def)
  moreover have "spec_value k' s = s_curr (k_sym k s)" using c l' by (simp add: calculated_def box_def)
  ultimately show "local_ok s k'"
    using seen_later [OF _ l'] c by (auto simp: local_ok_def semi_same_def calculated_def later_simps [OF l])
qed

lemma run_valid: "ready k \<Longrightarrow> has_flag k s SYMBOL_VALID \<Longrightarrow> run D rank q s k k' \<Longrightarrow> has_flag k' s SYMBOL_VALID"
  using calc_frame_valid [of k k' s] plain [of k] by (simp add: run_def later_def plain_sym_def)

text \<open>From the run of the symbol to a call at a higher rank.\<close>

lemma run_call:
  assumes c: "cone D rank k" "cons D rank r k" "q < r" and nv: "\<not> has_flag k s SYMBOL_VALID"
    and run: "run D rank q s (flag_on SYMBOL_VALID s k) k'" and ok: "box D rank (Suc q) k' (local_ok s)"
  shows "call D rank r k k' \<and> settled k' s"
proof -
  let ?k = "flag_on SYMBOL_VALID s k"
  have rd: "ready k" using c by (auto simp: ready_def cons_def)
  note l1 = begin_run(2) [OF rd nv]
  have lq: "later D rank q k k'" using run by (intro later_trans [OF l1]) (simp add: run_def)
  have same: "unmoved k k' u" if "u \<noteq> s" "\<not> (u \<in> D \<and> rank u < q)" for u
    using run that by (auto simp: run_def unmoved_def flag_on_def has_flag_def semi_same_def)
  have l: "later D rank n k k'" for n
  proof -
    have "semi_same (k_sym k u) (k_sym k' u)"
      if "has_flag k u SYMBOL_VALID" "\<not> has_flag k u SYMBOL_NEED_SET_CHOICE_VALUES" for u
    proof (cases "u \<in> D \<and> rank u < q")
      case True
      then show ?thesis using lq that by (auto simp: later_def low_def)
    next
      case False
      moreover have "u \<noteq> s" using nv that by auto
      ultimately show ?thesis using same by (simp add: unmoved_def)
    qed
    then show ?thesis using lq by (simp add: later_def)
  qed
  have cone': "cone D rank k'" and consq: "cons D rank q k'" using run by (simp_all add: run_def)
  have "cons D rank r k'"
    unfolding cons_def
  proof (intro ballI impI)
    fix t assume t: "t \<in> D" "rank t < r \<and> has_flag k' t SYMBOL_VALID"
    consider "rank t < q" | "t = s" | "t \<noteq> s" "\<not> rank t < q" by blast
    then show "box D rank (Suc (rank t)) k' (local_ok t)"
    proof cases
      case 1
      then show ?thesis using consq t by (simp add: cons_def)
    next
      case 2
      then show ?thesis using ok rank_s by simp
    next
      case 3
      then have "has_flag k t SYMBOL_VALID" using same [of t] t by (simp add: unmoved_def)
      then have "box D rank (Suc (rank t)) k (local_ok t)" using c t by (simp add: cons_def)
      then show ?thesis by (rule box_later [OF _ l])
    qed
  qed
  moreover have "unmoved k k' u" if "\<not> (u \<in> D \<and> rank u < r)" for u
    using same [of u] that s rank_s c(3) by force
  moreover have "k_prop k' p = k_prop k p" if "\<not> owned D rank r k p" for p
  proof -
    have "\<not> owned D rank q ?k p" "p \<notin> set (s_prop (k_sym ?k s))"
      using that s rank_s c(3) by (auto simp: owned_def flag_on_def split: if_splits)
    then show ?thesis using run by (simp add: run_def flag_on_def)
  qed
  moreover have "has_flag k' s SYMBOL_VALID"
    by (rule run_valid [OF begin_run(1) [OF rd nv] _ run]) (simp add: flag_on_def has_flag_def)
  moreover have "\<not> has_flag k' s SYMBOL_NEED_SET_CHOICE_VALUES"
    using cone' s by (simp add: cone_def plain_sym_def)
  ultimately show ?thesis using cone' l by (simp add: call_def settled_def)
qed

lemma T_step:
  assumes c: "cone D rank k" "cons D rank r k" "q < r"
  shows "returns (calc_value_step cv s k) (\<lambda>k'. call D rank r k k' \<and> settled k' s)"
proof (cases "has_flag k s SYMBOL_VALID")
  case True
  then have "settled k s" using c(1) s by (auto simp: settled_def cone_def plain_sym_def)
  with True show ?thesis using call_refl [OF c(1,2)] by (simp add: calc_value_step_def returns_base)
next
  case False
  let ?k = "flag_on SYMBOL_VALID s k"
  have rd: "ready k" using c by (auto simp: ready_def cons_def)
  note r = begin_run(1) [OF rd False]
  have "returns (calc_value_tail cv s ?k) (\<lambda>k'. run D rank q s ?k k' \<and> calculated k')"
  proof (cases "s_type (k_sym ?k s) \<in> {S_BOOLEAN, S_TRISTATE, S_INT, S_HEX, S_STRING}")
    case True
    then have "start_value ?k s = Some (start_of (s_type (k_sym ?k s)))"
      using static_ok_curr [OF ready_static [OF r]]
      by (auto simp: start_value_def start_of_def)
    with T_body [OF r True, of "\<lambda>k'. run D rank q s ?k k' \<and> calculated k'"] show ?thesis
      by (simp add: calc_value_tail_def)
  next
    case False
    then have n: "start_value ?k s = None" by (auto simp: start_value_def split: symbol_type.split)
    note rc = run_curr [OF r, of "name_value (k_sym ?k s)"]
    let ?k' = "set_curr s (name_value (k_sym ?k s)) ?k"
    have ty: "s_type (k_sym ?k' s) \<notin> {S_BOOLEAN, S_TRISTATE, S_INT, S_HEX, S_STRING}"
      using False by (simp add: set_curr_def)
    have e: "s_curr (k_sym ?k' s) = name_value (k_sym ?k s)" "s_name (k_sym ?k' s) = s_name (k_sym ?k s)"
      by (simp_all add: set_curr_def)
    have "spec_value k' s = s_curr (k_sym ?k' s)" if "later D rank q ?k' k'" for k'
      using ty e by (simp add: spec_value_def name_value_def later_simps [OF that])
    with ty have "calculated ?k'" by (simp add: calculated_def box_def)
    with rc n show ?thesis by (simp add: calc_value_tail_def returns_base)
  qed
  moreover have "calc_need_choice cv s k = Some k"
    using plain [OF rd] by (simp add: calc_need_choice_def plain_sym_def)
  moreover have "has_flag k' s SYMBOL_VALID" if "run D rank q s ?k k'" for k'
    by (rule run_valid [OF r _ that]) (simp add: flag_on_def has_flag_def)
  ultimately show ?thesis
    using False run_call [OF c False] calculated_ok run_ready
    by (auto simp: calc_value_step_def returns_base intro: returns_mono)
qed

end

section \<open>All ranks\<close>

text \<open>The induction over the ranks: with fuel above the rank the calculation of the code keeps the
  contract that the calculation of the next rank relies on.\<close>

lemma calc_spec_level: "q < n \<Longrightarrow> calc_spec D rank q (sym_calc_value n)"
proof (induction q arbitrary: n rule: less_induct)
  case (less q)
  then obtain m where m: "n = Suc m" by (cases n) auto
  show ?case
  proof
    fix k t
    assume k: "cone D rank k" "cons D rank q k" and t: "if t \<in> D then rank t < q else settled k t"
    show "returns (sym_calc_value n t k) (\<lambda>k'. call D rank q k k' \<and> settled k' t)"
    proof (cases "t \<in> D")
      case True
      then have "rank t < q" using t by simp
      then have "calc_run D rank (rank t) (sym_calc_value m) t"
        using less m True by (intro calc_run.intro calc_run_axioms.intro) auto
      from calc_run.T_step [OF this k \<open>rank t < q\<close>] show ?thesis by (simp add: m)
    next
      case False
      with t call_refl [OF k] show ?thesis
        by (simp add: m settled_def calc_value_step_def returns_base)
    qed
  qed
qed

interpretation level: calc_spec D rank q "sym_calc_value (Suc q)" for D rank q
  by (rule calc_spec_level) simp

lemma calc_run_level: "s \<in> D \<Longrightarrow> rank s < n \<Longrightarrow> calc_run D rank (rank s) (sym_calc_value n) s"
  by (intro calc_run.intro calc_run_axioms.intro calc_spec_level) auto

interpretation one: calc_run "insert s D" rank "rank s" "sym_calc_value (Suc (rank s))" s for s D rank
  by (rule calc_run_level) simp_all

end
