(* ===== verification/Symconf.thy ===== *)
theory Symconf
  imports Symrefine
begin

text \<open>
  A whole configuration: the loops of \<^verbatim>\<open>confdata.c\<close> that calculate all symbols. Whatever
  the order, every symbol gets its specified value, and so the values do not depend on the
  order.
\<close>

section \<open>Calculating many symbols\<close>

fun calc_symbols :: "nat \<Rightarrow> sym list \<Rightarrow> kconf \<Rightarrow> kconf option" where
  "calc_symbols n [] k = Some k"
| "calc_symbols n (s # ss) k = do { k \<leftarrow> sym_calc_value n s k; calc_symbols n ss k }"

lemma cons_fresh: "\<forall>t \<in> D. \<not> has_flag k t SYMBOL_VALID \<Longrightarrow> cons D rank n k"
  by (auto simp: cons_def)

lemma calc_one:
  assumes "cone D rank k" "cons D rank N k" "s \<in> D" "rank s < N" "N < n"
  shows "returns (sym_calc_value n s k) (\<lambda>k'. call D rank N k k' \<and> settled k' s)"
  by (rule calc_spec.cv [OF calc_spec_level [OF assms(5)] assms(1,2)]) (use assms in simp)

lemma call_settled: "call D rank N k k' \<Longrightarrow> settled k s \<Longrightarrow> settled k' s"
  using calc_frame_valid by (auto simp: call_def later_def settled_def)

lemma calc_symbols_call:
  assumes "cone D rank k" "cons D rank N k" "set ss \<subseteq> D" "\<forall>s \<in> set ss. rank s < N" "N < n"
  shows "returns (calc_symbols n ss k) (\<lambda>k'. call D rank N k k' \<and> (\<forall>s \<in> set ss. settled k' s))"
  using assms
proof (induction ss arbitrary: k)
  case Nil
  then show ?case by (simp add: returns_base call_refl)
next
  case (Cons s ss)
  have "returns (sym_calc_value n s k) (\<lambda>k'. call D rank N k k' \<and> settled k' s)"
    by (rule calc_one) (use Cons.prems in auto)
  then show ?case
    unfolding calc_symbols.simps returns_base
  proof (rule returns_mono)
    fix k1 assume 1: "call D rank N k k1 \<and> settled k1 s"
    have "returns (calc_symbols n ss k1) (\<lambda>k'. call D rank N k1 k' \<and> (\<forall>s \<in> set ss. settled k' s))"
      using Cons 1 by (simp add: call_def)
    then show "returns (calc_symbols n ss k1) (\<lambda>k'. call D rank N k k' \<and> (\<forall>s \<in> set (s # ss). settled k' s))"
      by (rule returns_mono) (use 1 in \<open>auto intro: call_trans call_settled\<close>)
  qed
qed

text \<open>Every symbol that a consistent state marks as valid is up to date.\<close>

lemma settled_ok: "call D rank N k k' \<Longrightarrow> settled k' s \<Longrightarrow> s \<in> D \<Longrightarrow> rank s < N \<Longrightarrow> local_ok s k'"
  by (auto simp: call_def cone_def settled_def intro: cons_local)

section \<open>The values are determined\<close>

lemma expr_val_cong:
  "(\<And>u. u \<in> calc_syms e \<Longrightarrow> V u = W u) \<Longrightarrow> expr_val V e = expr_val W e"
  by (induction e) auto

lemma expr_val_opt_cong:
  "(\<And>u. u \<in> calc_syms_opt e \<Longrightarrow> V u = W u) \<Longrightarrow> expr_val_opt V e = expr_val_opt W e"
  by (cases e) (auto intro: expr_val_cong)

text \<open>Two states with the same structure, and the same user value of one symbol.\<close>

definition same_conf :: "kconf \<Rightarrow> kconf \<Rightarrow> bool" where
  "same_conf k k' \<longleftrightarrow> static_view (k'\<lparr>k_change_count := k_change_count k\<rparr>) = static_view k \<and>
     k_modules_val k' = k_modules_val k"

text \<open>The change count plays no role.\<close>

lemma count_simps [simp]:
  "for_all_properties (k\<lparr>k_change_count := c\<rparr>) s t = for_all_properties k s t"
  "for_all_prompts (k\<lparr>k_change_count := c\<rparr>) s = for_all_prompts k s"
  "prop_get_symbol (k\<lparr>k_change_count := c\<rparr>) p = prop_get_symbol k p"
  "sym_deps (k\<lparr>k_change_count := c\<rparr>) s = sym_deps k s"
  by (simp_all add: for_all_properties_def for_all_prompts_def prop_get_symbol_def sym_deps_def cong: if_cong)

lemma same_conf_count: "same_conf k k' \<longleftrightarrow> static_view (k'\<lparr>k_change_count := c\<rparr>) = static_view (k\<lparr>k_change_count := c\<rparr>) \<and>
     k_modules_val k' = k_modules_val k"
  by (auto simp: same_conf_def static_view_def)

lemma same_conf_trans: "same_conf a b \<Longrightarrow> same_conf b c \<Longrightarrow> same_conf a c"
  by (simp add: same_conf_count [of _ _ 0])

lemma same_conf_sym: "same_conf a b \<Longrightarrow> same_conf b a"
  by (simp add: same_conf_count [of _ _ 0])


definition same_user :: "kconf \<Rightarrow> kconf \<Rightarrow> sym \<Rightarrow> bool" where
  "same_user k k' u \<longleftrightarrow> s_def (k_sym k' u) = s_def (k_sym k u) \<and>
     (has_flag k' u SYMBOL_DEF_USER \<longleftrightarrow> has_flag k u SYMBOL_DEF_USER)"

lemma view_same: "static_view k' = static_view k \<Longrightarrow> k_modules_val k' = k_modules_val k \<Longrightarrow> same_conf k k'"
  by (auto simp: same_conf_def static_view_def)

lemma later_same: "later D rank q k k' \<Longrightarrow> same_conf k k' \<and> same_user k k' u"
  by (auto simp: same_user_def later_def calc_frame_def intro: view_same)

text \<open>What the specification reads of a symbol, in two such states that agree on the values of
  its dependencies.\<close>

definition deps_agree :: "kconf \<Rightarrow> kconf \<Rightarrow> sym \<Rightarrow> bool" where
  "deps_agree k k' s \<longleftrightarrow> same_conf k k' \<and> plain_sym k s \<and> plain_sym k' s \<and> modules_off k' = modules_off k \<and>
     (\<forall>u \<in> sym_deps k s. s_curr (k_sym k' u) = s_curr (k_sym k u))"

lemma agree_view:
  assumes "deps_agree k k' s"
  shows "static_view (k'\<lparr>k_change_count := k_change_count k\<rparr>) = static_view k" "k_modules_val k' = k_modules_val k"
  using assms by (simp_all add: deps_agree_def same_conf_def)

lemmas agree_simps = view_sym [OF agree_view(1), simplified] view_prop [OF agree_view(1), simplified]
  view_lists [OF agree_view(1), simplified] agree_view(2)

lemma agree_raw: "deps_agree k k' s \<Longrightarrow> u \<in> sym_deps k s \<Longrightarrow> raw_string k' u = raw_string k u"
  by (simp add: deps_agree_def raw_string_def)

lemma agree_val:
  assumes a: "deps_agree k k' s" and u: "u \<in> sym_deps k s"
  shows "val_of k' u = val_of k u"
  using a u agree_raw [OF a u] by (simp add: deps_agree_def val_of_def string_value_def agree_simps [OF a])

lemma agree_cond:
  assumes a: "deps_agree k k' s" and p: "p \<in> set (s_prop (k_sym k s))"
  shows "cond_val k' p = cond_val k p"
  unfolding cond_val_def agree_simps [OF a]
  by (rule expr_val_opt_cong) (use p in \<open>auto simp: sym_deps_def intro!: agree_val [OF a]\<close>)

lemma agree_first:
  assumes a: "deps_agree k k' s"
  shows "spec_first k' (for_all_properties k s t) = spec_first k (for_all_properties k s t)"
proof -
  have "spec_first k' ps = spec_first k ps" if "set ps \<subseteq> set (s_prop (k_sym k s))" for ps
    using that agree_cond [OF a] by (induction ps) (auto simp: spec_first_def)
  then show ?thesis by (auto simp: for_all_properties_def)
qed

lemma first_in: "spec_first k (for_all_properties k s t) = Some p \<Longrightarrow>
    p \<in> set (s_prop (k_sym k s)) \<and> p_type (k_prop k p) = t"
  by (auto simp: spec_first_def for_all_properties_def find_Some_iff dest: nth_mem)

lemma agree_type:
  assumes a: "deps_agree k k' s"
  shows "sym_get_type k' s = sym_get_type k s"
  using a by (simp add: agree_simps [OF a] sym_get_type_def) (simp add: deps_agree_def plain_sym_def)

lemma agree_own:
  assumes a: "deps_agree k k' s"
  shows "spec_visible k' s = spec_visible k s" "spec_dir_dep k' s = spec_dir_dep k s"
    "spec_rev_dep k' s = spec_rev_dep k s"
proof -
  note e = agree_simps [OF a]
  have m: "map (cond_val k') (for_all_prompts k s) = map (cond_val k) (for_all_prompts k s)"
    by (rule map_cong) (auto simp: for_all_prompts_def intro: agree_cond [OF a])
  show "spec_visible k' s = spec_visible k s" unfolding spec_visible_def e m ..
  have "expr_val_opt (val_of k') (ev_expr (s_dir_dep (k_sym k s))) = expr_val_opt (val_of k) (ev_expr (s_dir_dep (k_sym k s)))"
    by (rule expr_val_opt_cong) (auto simp: sym_deps_def intro!: agree_val [OF a])
  then show "spec_dir_dep k' s = spec_dir_dep k s" by (simp add: spec_dir_dep_def e)
  have "expr_val_opt (val_of k') (ev_expr (s_rev_dep (k_sym k s))) = expr_val_opt (val_of k) (ev_expr (s_rev_dep (k_sym k s)))"
    by (rule expr_val_opt_cong) (auto simp: sym_deps_def intro!: agree_val [OF a])
  then show "spec_rev_dep k' s = spec_rev_dep k s"
    by (auto simp: spec_rev_dep_def e agree_type [OF a] split: option.split)
qed

lemma agree_range:
  assumes a: "deps_agree k k' s"
  shows "spec_range k' s x = spec_range k s x"
proof -
  note e = agree_simps [OF a]
  have "range_val k' u b = range_val k u b"
    if "spec_first k (for_all_properties k s P_RANGE) = Some p" "u \<in> range_set (p_expr (k_prop k p))" for p u b
  proof -
    have "u \<in> sym_deps k s" using first_in [OF that(1)] that(2) by (force simp: sym_deps_def)
    then show ?thesis using agree_raw [OF a] by (simp add: range_val_def e)
  qed
  then show ?thesis
    by (cases "spec_first k (for_all_properties k s P_RANGE)"; cases "range_syms (p_expr (k_prop k (the (spec_first k (for_all_properties k s P_RANGE)))))")
      (auto simp: spec_range_def agree_first [OF a] e Let_def elim!: range_syms.elims)
qed

lemma agree_value:
  assumes a: "deps_agree k k' s" and u: "same_user k k' s"
  shows "spec_value k' s = spec_value k s"
proof -
  have ud: "s_def (k_sym k' s) = s_def (k_sym k s)" "has_flag k' s SYMBOL_DEF_USER = has_flag k s SYMBOL_DEF_USER"
    using u by (simp_all add: same_user_def)
  note simps = agree_own [OF a] agree_first [OF a] agree_type [OF a] ud agree_simps [OF a]
  have tri: "spec_tri k' s = spec_tri k s"
  proof (cases "spec_first k (for_all_properties k s P_DEFAULT)")
    case (Some p)
    have "expr_val_opt (val_of k') (p_expr (k_prop k p)) = expr_val_opt (val_of k) (p_expr (k_prop k p))"
      by (rule expr_val_opt_cong) (use first_in [OF Some] in \<open>auto simp: sym_deps_def intro!: agree_val [OF a]\<close>)
    then show ?thesis using Some agree_cond [OF a, of p] first_in [OF Some] by (simp add: spec_tri_def simps)
  qed (simp add: spec_tri_def simps)
  have "raw_string k' u = raw_string k u"
    if "spec_first k (for_all_properties k s P_DEFAULT) = Some p" "p_expr (k_prop k p) = Some (e_symbol u)" for p u
    using first_in [OF that(1)] that(2) by (intro agree_raw [OF a]) (force simp: sym_deps_def)
  then have "spec_string k' s = spec_string k s"
    by (cases "spec_first k (for_all_properties k s P_DEFAULT)")
      (simp_all add: spec_string_def simps prop_get_symbol_def split: option.split expr.split)
  then show ?thesis by (simp add: spec_value_def tri agree_range [OF a] simps name_value_def)
qed

text \<open>Two calculations of all of \<open>D\<close> from the same state end with the same values.\<close>

lemma call_modules_off: "cone D rank k \<Longrightarrow> later D rank q k k' \<Longrightarrow> modules_off k' = modules_off k"
  by (auto simp: cone_def later_def low_def semi_same_def modules_off_def
      view_sym(7) [of k' k] calc_frame_def)

text \<open>Two consistent states in which all of \<open>D\<close> is calculated agree on the symbols of \<open>D\<close> that
  depend on no symbol with different user values; here: the ranks below a bound.\<close>

definition complete :: "sym set \<Rightarrow> (sym \<Rightarrow> nat) \<Rightarrow> kconf \<Rightarrow> bool" where
  "complete D rank k \<longleftrightarrow> cone D rank k \<and> (\<forall>s \<in> D. local_ok s k)"

lemma complete_determined:
  assumes a: "complete D rank a" and b: "complete D rank b" and same: "same_conf a b"
    and m: "modules_off b = modules_off a"
    and u: "\<And>t. t \<in> D \<Longrightarrow> rank t < r \<Longrightarrow> same_user a b t"
  shows "s \<in> D \<Longrightarrow> (\<And>t. t \<in> D \<Longrightarrow> rank t < rank s \<Longrightarrow> rank t < r) \<Longrightarrow> deps_agree a b s"
    and "s \<in> D \<Longrightarrow> rank s < r \<Longrightarrow> s_curr (k_sym b s) = s_curr (k_sym a s)"
proof -
  have ca: "cone D rank a" and cb: "cone D rank b" using a b by (simp_all add: complete_def)
  have st: "s_curr (k_sym x u) = s_curr (static_symbols u)" if "u \<in> static_syms" "cone D rank x" for u x
    using that by (auto simp: cone_def static_ok_def)
  have agree: "deps_agree a b s" if "s \<in> D"
    "\<And>t. t \<in> D \<Longrightarrow> rank t < rank s \<Longrightarrow> s_curr (k_sym b t) = s_curr (k_sym a t)" for s
  proof -
    have "\<forall>u \<in> sym_deps a s. u \<in> static_syms \<or> u \<in> D \<and> rank u < rank s" "plain_sym a s" "plain_sym b s"
      using ca cb that(1) by (simp_all add: cone_def)
    then show ?thesis
      using that(2) same m st [OF _ ca] st [OF _ cb] unfolding deps_agree_def by metis
  qed
  have val: "s_curr (k_sym b s) = s_curr (k_sym a s)" if "s \<in> D" "rank s < r" for s
    using that
  proof (induction "rank s" arbitrary: s rule: less_induct)
    case less
    have "deps_agree a b s" by (rule agree) (use less in auto)
    then have "spec_value b s = spec_value a s" by (rule agree_value [OF _ u [OF less.prems]])
    moreover have "local_ok s a" "local_ok s b" using a b less.prems by (simp_all add: complete_def)
    ultimately show ?case by (simp add: local_ok_def)
  qed
  then show "s \<in> D \<Longrightarrow> rank s < r \<Longrightarrow> s_curr (k_sym b s) = s_curr (k_sym a s)" .
  show "s \<in> D \<Longrightarrow> (\<And>t. t \<in> D \<Longrightarrow> rank t < rank s \<Longrightarrow> rank t < r) \<Longrightarrow> deps_agree a b s"
    using agree val by blast
qed

lemma call_complete:
  "call D rank N k k' \<Longrightarrow> \<forall>s \<in> D. settled k' s \<Longrightarrow> \<forall>s \<in> D. rank s < N \<Longrightarrow> complete D rank k'"
  using settled_ok [of D rank N k k'] by (simp add: complete_def) (simp add: call_def)

lemma call_determined:
  assumes k: "cone D rank k" and N: "\<forall>s \<in> D. rank s < N"
    and a: "call D rank N k a" "\<forall>s \<in> D. settled a s" and b: "call D rank N k b" "\<forall>s \<in> D. settled b s"
    and s: "s \<in> D"
  shows "s_curr (k_sym b s) = s_curr (k_sym a s)"
proof (rule complete_determined(2) [OF call_complete [OF a N] call_complete [OF b N], of N])
  have la: "later D rank N k a" and lb: "later D rank N k b" using a b by (simp_all add: call_def)
  show "same_conf a b" "same_user a b t" for t
    using later_same [OF la, of t] later_same [OF lb, of t]
    by (auto simp: same_user_def intro: same_conf_trans same_conf_sym)
  show "modules_off b = modules_off a"
    using call_modules_off [OF k la] call_modules_off [OF k lb] by simp
qed (use N s in auto)

section \<open>Ranges\<close>

text \<open>The number a symbol with an active range ends with.\<close>

lemma strtoll_print_number:
  assumes "ty = S_INT \<or> ty = S_HEX \<and> 0 \<le> v" "LLONG_MIN \<le> v" "v \<le> LLONG_MAX"
  shows "strtoll (type_base ty 0) (print_number ty v) = v"
  using assms strtoll_print_lld [of v] strtoll_print_0xllx [of v] by (auto simp: print_number_def)

lemma range_val_bounds: "LLONG_MIN \<le> range_val k u b" "range_val k u b \<le> LLONG_MAX"
  by (simp_all add: range_val_def strtoll_bounds)

lemma spec_range_bounds:
  assumes p: "spec_first k (for_all_properties k s P_RANGE) = Some p"
    "p_expr (k_prop k p) = Some (e_range lo hi)"
    and b: "b = type_base (s_type (k_sym k s)) 0" and le: "range_val k lo b \<le> range_val k hi b"
    and ty: "s_type (k_sym k s) = S_INT \<or> s_type (k_sym k s) = S_HEX \<and> 0 \<le> range_val k lo b"
  shows "range_val k lo b \<le> strtoll b (spec_range k s x) \<and> strtoll b (spec_range k s x) \<le> range_val k hi b"
proof -
  let ?ty = "s_type (k_sym k s)"
  have e: "spec_range k s x = (if strtoll b x < range_val k lo b then print_number ?ty (range_val k lo b)
      else if strtoll b x \<le> range_val k hi b then x else print_number ?ty (range_val k hi b))"
    using p ty unfolding spec_range_def Let_def b [symmetric] by auto
  have "strtoll b (print_number ?ty v) = v" if "v = range_val k lo b \<or> v = range_val k hi b" for v
    unfolding b by (rule strtoll_print_number) (use that ty le range_val_bounds in auto)
  then show ?thesis using le unfolding e by simp
qed

end
