(* ===== verification/Symset.thy ===== *)
theory Symset
  imports Symconf
begin

text \<open>
  Setting values: the operations of \<^verbatim>\<open>symbol.c\<close> that the front ends call when the user
  changes a symbol (\<^verbatim>\<open>sym_set_tristate_value\<close>, \<^verbatim>\<open>sym_set_string_value\<close>,
  \<^verbatim>\<open>sym_toggle_tristate_value\<close> with the checks they make), the default of a symbol as a
  string, and the change count of \<^verbatim>\<open>confdata.c\<close>.
\<close>

section \<open>The change count\<close>

definition sym_set_change_count :: "int \<Rightarrow> kconf \<Rightarrow> kconf" where
  "sym_set_change_count count k = k\<lparr>k_change_count := count\<rparr>"

text \<open>Whether setting the count calls \<^verbatim>\<open>conf_changed_callback\<close>.\<close>

definition change_notified :: "int \<Rightarrow> kconf \<Rightarrow> bool" where
  "change_notified count k \<longleftrightarrow> (k_change_count k \<noteq> 0) \<noteq> (count \<noteq> 0)"

definition sym_add_change_count :: "int \<Rightarrow> kconf \<Rightarrow> kconf" where
  "sym_add_change_count count k = sym_set_change_count (count + k_change_count k) k"

definition conf_get_changed :: "kconf \<Rightarrow> bool" where
  "conf_get_changed k \<longleftrightarrow> k_change_count k \<noteq> 0"

definition sym_clear_all_valid :: "calc \<Rightarrow> kconf \<Rightarrow> kconf option" where
  "sym_clear_all_valid cv k =
     (let k = fold (flag_off SYMBOL_VALID) (for_all_symbols k) k; k = sym_add_change_count 1 k
      in calc_opt cv (k_modules_sym k) k)"

section \<open>Bool and tristate symbols\<close>

definition sym_tristate_within_range :: "kconf \<Rightarrow> sym \<Rightarrow> tristate \<Rightarrow> bool" where
  "sym_tristate_within_range k s val =
     (let ty = sym_get_type k s; x = k_sym k s; rev = ev_tri (s_rev_dep x) in
      if s_visible x = tri_no then False
      else if ty \<noteq> S_BOOLEAN \<and> ty \<noteq> S_TRISTATE then False
      else if ty = S_BOOLEAN \<and> val = tri_mod then False
      else if s_visible x \<le> rev then False
      else if sym_is_choice_value x \<and> s_visible x = tri_yes then val = tri_yes
      else rev \<le> val \<and> val \<le> s_visible x)"

definition set_def_tri :: "sym \<Rightarrow> tristate \<Rightarrow> kconf \<Rightarrow> kconf" where
  "set_def_tri s t = upd_sym s (s_def_update (\<lambda>D. D(S_DEF_USER := (D S_DEF_USER)\<lparr>sv_tri := t\<rparr>)))"

definition set_def_val :: "sym \<Rightarrow> cval \<Rightarrow> kconf \<Rightarrow> kconf" where
  "set_def_val s v = upd_sym s (s_def_update (\<lambda>D. D(S_DEF_USER := (D S_DEF_USER)\<lparr>sv_val := v\<rparr>)))"

definition mark_user :: "sym \<Rightarrow> kconf \<Rightarrow> kconf" where
  "mark_user s k = (if has_flag k s SYMBOL_DEF_USER then k
     else sym_set_changed s (flag_on SYMBOL_DEF_USER s k))"

definition mark_visible_user :: "sym \<Rightarrow> kconf \<Rightarrow> kconf" where
  "mark_visible_user x k = (if s_visible (k_sym k x) \<noteq> tri_no then flag_on SYMBOL_DEF_USER x k else k)"

text \<open>Setting a choice value also resets the new flag of the choice symbol and all other
  choice values.\<close>

definition select_choice :: "sym \<Rightarrow> kconf \<Rightarrow> kconf option" where
  "select_choice s k = do {
     p \<leftarrow> sym_get_choice_prop k s;
     cs \<leftarrow> prop_get_symbol k p;
     let k = flag_on SYMBOL_DEF_USER cs (set_def_val cs (VSym s) k);
     q \<leftarrow> sym_get_choice_prop k cs;
     Some (fold mark_visible_user (choice_list k q) k) }"

definition sym_set_tristate_value :: "calc \<Rightarrow> sym \<Rightarrow> tristate \<Rightarrow> kconf \<Rightarrow> (bool \<times> kconf) option" where
  "sym_set_tristate_value cv s val k =
     (let oldval = sym_get_tristate_value (k_sym k s) in
      if oldval \<noteq> val \<and> \<not> sym_tristate_within_range k s val then Some (False, k)
      else do {
        let k = mark_user s k;
        k \<leftarrow> (if sym_is_choice_value (k_sym k s) \<and> val = tri_yes then select_choice s k else Some k);
        let k = set_def_tri s val k;
        k \<leftarrow> (if oldval \<noteq> val then sym_clear_all_valid cv k else Some k);
        Some (True, k) })"

definition sym_set_choice_value :: "calc \<Rightarrow> sym \<Rightarrow> sym \<Rightarrow> kconf \<Rightarrow> (bool \<times> kconf) option" where
  "sym_set_choice_value cv ch chval k = sym_set_tristate_value cv chval tri_yes k"

text \<open>\<^verbatim>\<open>sym_get_choice_value\<close>: a choice keeps its symbol in \<^verbatim>\<open>curr.val\<close>.\<close>

definition sym_get_choice_value :: "kconf \<Rightarrow> sym \<Rightarrow> sym option option" where
  "sym_get_choice_value k s = cval_sym (sv_val (s_curr (k_sym k s)))"

fun next_tri :: "tristate \<Rightarrow> tristate" where
  "next_tri tri_no = tri_mod"
| "next_tri tri_mod = tri_yes"
| "next_tri tri_yes = tri_no"

fun tri_distance :: "tristate \<Rightarrow> tristate \<Rightarrow> nat" where
  "tri_distance a b = (if a = b then 3 else if next_tri a = b then 1 else 2)"

function toggle_loop :: "calc \<Rightarrow> sym \<Rightarrow> tristate \<Rightarrow> tristate \<Rightarrow> kconf \<Rightarrow> (tristate \<times> kconf) option" where
  "toggle_loop cv s oldval newval k =
     (let newval = next_tri newval in do {
        (ok, k) \<leftarrow> sym_set_tristate_value cv s newval k;
        if ok then Some (newval, k)
        else if oldval \<noteq> newval then toggle_loop cv s oldval newval k
        else Some (newval, k) })"
  by pat_completeness auto
termination toggle_loop
proof (relation "measure (\<lambda>(cv, s, old, new, k). tri_distance new old)")
  fix cv s k and old new x :: tristate
  assume "x = next_tri new" "old \<noteq> x"
  then have "tri_distance x old < tri_distance new old" by (cases old; cases new) auto
  then show "((cv, s, old, x, y), (cv, s, old, new, k)) \<in> measure (\<lambda>(cv, s, old, new, k). tri_distance new old)"
    for cv :: calc and s :: sym and k y :: kconf by simp
qed simp

declare toggle_loop.simps [simp del]

definition sym_toggle_tristate_value :: "calc \<Rightarrow> sym \<Rightarrow> kconf \<Rightarrow> (tristate \<times> kconf) option" where
  "sym_toggle_tristate_value cv s k =
     (let oldval = sym_get_tristate_value (k_sym k s) in toggle_loop cv s oldval oldval k)"

definition sym_is_changable :: "kconf \<Rightarrow> sym \<Rightarrow> bool" where
  "sym_is_changable k s \<longleftrightarrow> s_visible (k_sym k s) > ev_tri (s_rev_dep (k_sym k s))"

section \<open>Strings and numbers\<close>

text \<open>A string starts with the character that \<^verbatim>\<open>str[0]\<close> reads, NUL at its end.\<close>

definition char_at :: "string \<Rightarrow> nat \<Rightarrow> char" where
  "char_at str i = (if i < length str then str ! i else CHR 0x00)"

fun valid_digits :: "string \<Rightarrow> bool" where
  "valid_digits [] \<longleftrightarrow> True"
| "valid_digits (c # str) \<longleftrightarrow> isdigit c \<and> valid_digits str"

fun valid_xdigits :: "string \<Rightarrow> bool" where
  "valid_xdigits [] \<longleftrightarrow> True"
| "valid_xdigits (c # str) \<longleftrightarrow> isxdigit c \<and> valid_xdigits str"

definition int_valid :: "string \<Rightarrow> bool" where
  "int_valid str = (case (if char_at str 0 = CHR ''-'' then tl str else str) of
     [] \<Rightarrow> False
   | ch # str \<Rightarrow> if \<not> isdigit ch then False
       else if ch = CHR ''0'' \<and> str \<noteq> [] then False else valid_digits str)"

definition hex_prefix :: "string \<Rightarrow> bool" where
  "hex_prefix str \<longleftrightarrow> char_at str 0 = CHR ''0'' \<and> (char_at str 1 = CHR ''x'' \<or> char_at str 1 = CHR ''X'')"

definition hex_valid :: "string \<Rightarrow> bool" where
  "hex_valid str = (case (if hex_prefix str then drop 2 str else str) of
     [] \<Rightarrow> False | ch # str \<Rightarrow> isxdigit ch \<and> valid_xdigits str)"

text \<open>The value a string starting with y, m or n stands for.\<close>

definition tri_of_char :: "char \<Rightarrow> tristate option" where
  "tri_of_char c =
     (if c = CHR ''y'' \<or> c = CHR ''Y'' then Some tri_yes
      else if c = CHR ''m'' \<or> c = CHR ''M'' then Some tri_mod
      else if c = CHR ''n'' \<or> c = CHR ''N'' then Some tri_no else None)"

definition sym_string_valid :: "symbol_type \<Rightarrow> string \<Rightarrow> bool" where
  "sym_string_valid ty str = (case ty of
     S_STRING \<Rightarrow> True
   | S_INT \<Rightarrow> int_valid str
   | S_HEX \<Rightarrow> hex_valid str
   | S_BOOLEAN \<Rightarrow> tri_of_char (char_at str 0) \<noteq> None
   | S_TRISTATE \<Rightarrow> tri_of_char (char_at str 0) \<noteq> None
   | _ \<Rightarrow> False)"

definition number_within_range :: "calc \<Rightarrow> sym \<Rightarrow> nat \<Rightarrow> string \<Rightarrow> kconf \<Rightarrow> (bool \<times> kconf) option" where
  "number_within_range cv s base str k = do {
     (po, k) \<leftarrow> sym_get_range_prop cv s k;
     case po of None \<Rightarrow> Some (True, k)
     | Some p \<Rightarrow> do {
         let val = strtoll base str;
         (lo, hi) \<leftarrow> range_syms (p_expr (k_prop k p));
         (val2, k) \<leftarrow> sym_get_range_val cv lo base k;
         if val < val2 then Some (False, k)
         else do { (val2, k) \<leftarrow> sym_get_range_val cv hi base k; Some (val \<le> val2, k) } } }"

definition sym_string_within_range :: "calc \<Rightarrow> sym \<Rightarrow> string \<Rightarrow> kconf \<Rightarrow> (bool \<times> kconf) option" where
  "sym_string_within_range cv s str k =
     (let ty = s_type (k_sym k s) in
      if ty = S_STRING then Some (sym_string_valid ty str, k)
      else if ty = S_INT then
        (if \<not> sym_string_valid ty str then Some (False, k) else number_within_range cv s 10 str k)
      else if ty = S_HEX then
        (if \<not> sym_string_valid ty str then Some (False, k) else number_within_range cv s 16 str k)
      else if ty = S_BOOLEAN \<or> ty = S_TRISTATE then
        Some (case tri_of_char (char_at str 0) of None \<Rightarrow> False | Some v \<Rightarrow> sym_tristate_within_range k s v, k)
      else Some (False, k))"

fun stored_string :: "cval \<Rightarrow> string option option" where
  "stored_string VNull = Some None"
| "stored_string (VStr x) = Some (Some x)"
| "stored_string (VSym s) = None"

definition sym_set_string_value :: "calc \<Rightarrow> sym \<Rightarrow> string \<Rightarrow> kconf \<Rightarrow> (bool \<times> kconf) option" where
  "sym_set_string_value cv s newval k =
     (if s_type (k_sym k s) = S_BOOLEAN \<or> s_type (k_sym k s) = S_TRISTATE then
        (case tri_of_char (char_at newval 0) of None \<Rightarrow> Some (False, k)
         | Some v \<Rightarrow> sym_set_tristate_value cv s v k)
      else do {
        (ok, k) \<leftarrow> sym_string_within_range cv s newval k;
        if \<not> ok then Some (False, k)
        else do {
          let k = mark_user s k;
          oldval \<leftarrow> stored_string (sv_val (s_def (k_sym k s) S_DEF_USER));
          if s_type (k_sym k s) = S_HEX \<and> \<not> hex_prefix newval then do {
            k \<leftarrow> sym_clear_all_valid cv (set_def_val s (VStr (''0x'' @ newval)) k);
            Some (True, k) }
          else if oldval \<noteq> Some newval then do {
            k \<leftarrow> sym_clear_all_valid cv (set_def_val s (VStr newval) k);
            Some (True, k) }
          else Some (True, k) } })"

section \<open>The default as a string\<close>

definition default_values :: "calc \<Rightarrow> sym \<Rightarrow> pid \<Rightarrow> tristate \<Rightarrow> cval \<Rightarrow> kconf \<Rightarrow> (tristate \<times> cval \<times> kconf) option" where
  "default_values cv s p val str k =
     (if s_type (k_sym k s) = S_BOOLEAN \<or> s_type (k_sym k s) = S_TRISTATE then do {
        (t, k) \<leftarrow> expr_calc_value cv (p_expr (k_prop k p)) k;
        Some (EXPR_AND t (ev_tri (p_visible (k_prop k p))), str, k) }
      else (case prop_get_symbol k p of None \<Rightarrow> Some (val, str, k)
        | Some ds \<Rightarrow> do { k \<leftarrow> cv ds k; Some (val, sv_val (s_curr (k_sym k ds)), k) }))"

definition sym_get_string_default :: "calc \<Rightarrow> sym \<Rightarrow> kconf \<Rightarrow> (string \<times> kconf) option" where
  "sym_get_string_default cv s k = do {
     k \<leftarrow> sym_calc_visibility cv s k;
     k \<leftarrow> calc_opt cv (k_modules_sym k) k;
     let val = sv_tri (s_curr (k_sym k symbol_no));
     let str = sv_val (s_curr (k_sym k symbol_empty));
     (po, k) \<leftarrow> sym_get_default_prop cv s k;
     (val, str, k) \<leftarrow> (case po of None \<Rightarrow> Some (val, str, k) | Some p \<Rightarrow> default_values cv s p val str k);
     let val = EXPR_OR val (ev_tri (s_rev_dep (k_sym k s)));
     val \<leftarrow> (if val = tri_mod \<and> \<not> sym_is_choice_value (k_sym k s) then do {
               m \<leftarrow> k_modules_sym k;
               Some (if sv_tri (s_curr (k_sym k m)) = tri_no then tri_yes else val) }
             else Some val);
     let val = (if s_type (k_sym k s) = S_BOOLEAN \<and> val = tri_mod then tri_yes else val);
     x \<leftarrow> (case s_type (k_sym k s) of
         S_BOOLEAN \<Rightarrow> Some (tri_string val) | S_TRISTATE \<Rightarrow> Some (tri_string val)
       | S_INT \<Rightarrow> cval_string str | S_HEX \<Rightarrow> cval_string str | S_STRING \<Rightarrow> cval_string str
       | _ \<Rightarrow> Some []);
     Some (x, k) }"

section \<open>What the checks promise\<close>

lemma within_range_value:
  assumes "sym_tristate_within_range k s v"
  shows "EXPR_OR (EXPR_AND v (s_visible (k_sym k s))) (ev_tri (s_rev_dep (k_sym k s))) = v"
    "s_visible (k_sym k s) \<noteq> tri_no" "sym_get_type k s = S_BOOLEAN \<Longrightarrow> v \<noteq> tri_mod"
    "sym_get_type k s \<in> {S_BOOLEAN, S_TRISTATE}"
  using assms by (auto simp: sym_tristate_within_range_def Let_def tri_simps less_imp_le split: if_splits)

lemma set_tristate_cases:
  assumes "sym_set_tristate_value cv s v k = Some (ok, k')"
  obtains "\<not> ok" "k' = k" "sv_tri (s_curr (k_sym k s)) \<noteq> v" "\<not> sym_tristate_within_range k s v"
  | "ok" "sv_tri (s_curr (k_sym k s)) = v \<or> sym_tristate_within_range k s v"
  using assms by (auto simp: sym_set_tristate_value_def sym_get_tristate_value_def Let_def elim!: bind_eq_SomeE split: if_splits)

text \<open>The state in which a calculation starts after a change, when the recalculation of the
  modules symbol left the rest alone.\<close>

definition undisturbed :: "sym set \<Rightarrow> (sym \<Rightarrow> nat) \<Rightarrow> kconf \<Rightarrow> kconf \<Rightarrow> bool" where
  "undisturbed D rank k k' \<longleftrightarrow> cone D rank k' \<and> (\<forall>t \<in> D. \<not> has_flag k' t SYMBOL_VALID \<and> same_user k k' t) \<and>
     same_conf k k' \<and> modules_off k' = modules_off k"

lemma set_user_view:
  "s_def (k_sym (set_def_tri s v (mark_user s k)) t) = (if t = s then (s_def (k_sym k s))(S_DEF_USER := (s_def (k_sym k s) S_DEF_USER)\<lparr>sv_tri := v\<rparr>)
     else s_def (k_sym k t))"
  "has_flag (set_def_tri s v (mark_user s k)) t SYMBOL_DEF_USER \<longleftrightarrow> t = s \<or> has_flag k t SYMBOL_DEF_USER"
  by (auto simp: set_def_tri_def mark_user_def flag_on_def has_flag_def mark_changed_def)

lemma set_user_same:
  "same_conf k (set_def_tri s v (mark_user s k))" "modules_off (set_def_tri s v (mark_user s k)) = modules_off k"
proof -
  let ?k = "set_def_tri s v (mark_user s k)"
  have "static_view_sym (k_sym ?k t) = static_view_sym (k_sym k t)" "s_curr (k_sym ?k t) = s_curr (k_sym k t)" for t
    by (auto simp: set_def_tri_def mark_user_def flag_on_def static_view_sym_def stable_flags_def
        loud_flags_def dep_exprs_def fun_eq_iff)
  moreover have "k_prop ?k = k_prop k" "k_change_count ?k = k_change_count k" "k_all ?k = k_all k" "k_modules_sym ?k = k_modules_sym k"
    "k_modules_val ?k = k_modules_val k"
    by (auto simp: set_def_tri_def mark_user_def flag_on_def)
  ultimately show "same_conf k ?k" "modules_off ?k = modules_off k"
    by (simp_all add: view_same static_view_def modules_off_def split: option.split)
qed

text \<open>After an accepted change the calculation gives the symbol the accepted value.\<close>

lemma complete_later:
  assumes D: "finite D" "\<forall>t \<in> D. rank t < N" "N < n" and k: "cone D rank k" "\<forall>t \<in> D. \<not> has_flag k t SYMBOL_VALID"
    and s: "s \<in> D"
  shows "\<exists>k2 k3. sym_calc_value n s k = Some k2 \<and> complete D rank k3 \<and> later D rank N k k3 \<and>
    s_curr (k_sym k3 s) = s_curr (k_sym k2 s)"
proof -
  obtain k2 where k2: "sym_calc_value n s k = Some k2" "call D rank N k k2" "settled k2 s"
    using calc_one [OF k(1) cons_fresh [OF k(2)] s _ D(3)] D s by (auto simp: returns_def)
  obtain ds where ds: "set ds = D" using finite_list [OF D(1)] by blast
  obtain k3 where k3: "call D rank N k2 k3" "\<forall>t \<in> D. settled k3 t"
    using calc_symbols_call [of D rank k2 N ds n] k2(2) D ds by (auto simp: returns_def call_def)
  have l: "later D rank N k2 k3" using k3 by (simp add: call_def)
  have "s_curr (k_sym k3 s) = s_curr (k_sym k2 s)"
    using l k2(3) D(2) s by (auto simp: later_def settled_def low_def semi_same_def)
  moreover have "later D rank N k k3" using later_trans [OF _ l] k2(2) by (simp add: call_def)
  ultimately show ?thesis using k2(1) call_complete [OF k3 D(2)] by blast
qed

lemma accepted_tristate:
  assumes D: "finite D" "\<forall>t \<in> D. rank t < N" "N < n" and k: "complete D rank k" and s: "s \<in> D"
    and rng: "sym_tristate_within_range k s v"
    and k1: "undisturbed D rank (set_def_tri s v (mark_user s k)) k1"
  shows "\<exists>k2. sym_calc_value n s k1 = Some k2 \<and> sv_tri (s_curr (k_sym k2 s)) = v"
proof -
  note u = k1 [unfolded undisturbed_def]
  obtain k2 k3 where k23: "sym_calc_value n s k1 = Some k2" "complete D rank k3" "later D rank N k1 k3"
      "s_curr (k_sym k3 s) = s_curr (k_sym k2 s)"
    using complete_later [OF D, of k1 s] u s by blast
  have user: "same_user (set_def_tri s v (mark_user s k)) k3 t" if "t \<in> D" for t
    using later_same [OF k23(3), of t] u that by (simp add: same_user_def)
  have agree: "deps_agree k k3 s"
  proof (rule complete_determined(1) [OF k k23(2) _ _ _ s, of "rank s"])
    show "same_conf k k3"
      using later_same [OF k23(3)] u set_user_same(1) [of k s v] by (blast intro: same_conf_trans)
    show "modules_off k3 = modules_off k"
      using call_modules_off [OF _ k23(3)] u set_user_same(2) [of s v k] by simp
    show "same_user k k3 t" if "t \<in> D" "rank t < rank s" for t
      using user [OF that(1)] that by (auto simp: same_user_def set_user_view)
  qed
  note range = within_range_value [OF rng] and own = agree_own [OF agree] and ty = agree_type [OF agree]
  have "plain_sym k s" using agree by (simp add: deps_agree_def)
  then have t: "s_type (k_sym k s) \<in> {S_BOOLEAN, S_TRISTATE}"
    using range(4) by (auto simp: sym_get_type_def plain_sym_def split: if_splits)
  then have t3: "s_type (k_sym k3 s) \<in> {S_BOOLEAN, S_TRISTATE}" by (simp only: agree_simps(1) [OF agree])
  have lo: "local_ok s k" "local_ok s k3" using k k23(2) s by (simp_all add: complete_def)
  have ok: "spec_visible k s = s_visible (k_sym k s)" "spec_rev_dep k s = ev_tri (s_rev_dep (k_sym k s))"
  proof -
    have "s_type (k_sym k s) \<in> {S_BOOLEAN, S_TRISTATE, S_INT, S_HEX, S_STRING}" using t by blast
    with lo(1) show "spec_visible k s = s_visible (k_sym k s)" "spec_rev_dep k s = ev_tri (s_rev_dep (k_sym k s))"
      unfolding local_ok_def by metis+
  qed
  have ok3: "sv_tri (s_curr (k_sym k3 s)) = spec_tri k3 s"
    using lo(2) t3 by (simp add: local_ok_def spec_value_def)
  have "sv_tri (s_def (k_sym k3 s) S_DEF_USER) = v" "has_flag k3 s SYMBOL_DEF_USER"
    using user [OF s] by (simp_all add: same_user_def set_user_view)
  then have "spec_tri k3 s = v"
    using range(1-3) own(1,3) ok ty by (auto simp: spec_tri_def)
  then show ?thesis using k23(1,4) ok3 by auto
qed

section \<open>Toggling\<close>

text \<open>The loop tries the other two values in the order of the enum, then the old one, which is
  always accepted.\<close>

lemma set_old: "sym_set_tristate_value cv s (sv_tri (s_curr (k_sym k s))) k = Some (ok, k') \<Longrightarrow> ok"
  by (erule set_tristate_cases) auto

lemma set_rejects: "v \<noteq> sv_tri (s_curr (k_sym k s)) \<Longrightarrow> \<not> sym_tristate_within_range k s v \<Longrightarrow>
    sym_set_tristate_value cv s v k = Some (False, k)"
  by (simp add: sym_set_tristate_value_def sym_get_tristate_value_def)

lemma next_tri_cycle: "next_tri (next_tri (next_tri t)) = t" "next_tri t \<noteq> t" "next_tri (next_tri t) \<noteq> t"
  by (cases t; simp)+

lemma toggle_result:
  fixes k s defines "old \<equiv> sv_tri (s_curr (k_sym k s))"
  assumes "sym_toggle_tristate_value cv s k = Some (v, k')"
  shows "v = (if sym_tristate_within_range k s (next_tri old) then next_tri old
      else if sym_tristate_within_range k s (next_tri (next_tri old)) then next_tri (next_tri old) else old) \<and>
    sym_set_tristate_value cv s v k = Some (True, k')"
proof -
  have step: "toggle_loop cv s old x k = (if next_tri x \<noteq> old \<and> \<not> sym_tristate_within_range k s (next_tri x)
      then toggle_loop cv s old (next_tri x) k
      else map_option (\<lambda>(ok, k). (next_tri x, k)) (sym_set_tristate_value cv s (next_tri x) k))" for x
  proof (cases "next_tri x \<noteq> old \<and> \<not> sym_tristate_within_range k s (next_tri x)")
    case True
    then have "sym_set_tristate_value cv s (next_tri x) k = Some (False, k)"
      by (intro set_rejects) (auto simp: old_def)
    then show ?thesis using True by (subst toggle_loop.simps) auto
  next
    case False
    then have "ok" if "sym_set_tristate_value cv s (next_tri x) k = Some (ok, k1)" for ok k1
      using that by (elim set_tristate_cases) (auto simp: old_def)
    then show ?thesis using False
      by (subst toggle_loop.simps) (cases "sym_set_tristate_value cv s (next_tri x) k"; force)
  qed
  have r: "toggle_loop cv s old old k = Some (v, k')"
    using assms by (simp add: sym_toggle_tristate_value_def sym_get_tristate_value_def Let_def)
  let ?w = "if sym_tristate_within_range k s (next_tri old) then next_tri old
      else if sym_tristate_within_range k s (next_tri (next_tri old)) then next_tri (next_tri old) else old"
  have "toggle_loop cv s old old k = map_option (\<lambda>(ok, k). (?w, k)) (sym_set_tristate_value cv s ?w k)"
    using step [of old] step [of "next_tri old"] step [of "next_tri (next_tri old)"] next_tri_cycle [of old] by simp
  with r obtain ok where w: "v = ?w" "sym_set_tristate_value cv s ?w k = Some (ok, k')" by auto
  moreover from w(2) have "ok" by (rule set_tristate_cases) (auto simp: old_def split: if_splits)
  ultimately show ?thesis by simp
qed

section \<open>The grammar of numbers\<close>

lemma valid_digits_all: "valid_digits str \<longleftrightarrow> (\<forall>c \<in> set str. isdigit c)"
  by (induction str) auto

lemma valid_xdigits_all: "valid_xdigits str \<longleftrightarrow> (\<forall>c \<in> set str. isxdigit c)"
  by (induction str) auto

lemma isdigit_digit_ex: "isdigit c \<Longrightarrow> c = digit (code c - 48) \<and> code c - 48 < 10"
proof -
  assume "isdigit c"
  then have b: "48 \<le> code c" "code c \<le> 57" by (auto simp: isdigit_def)
  then have "code (digit (code c - 48)) = code c" by (simp add: digit_def)
  with b show ?thesis by (simp add: code_inject)
qed

text \<open>A decimal string without leading zeros is what \<open>nat_base\<close> prints.\<close>

lemma nat_base_isdigit: "\<forall>c \<in> set (nat_base 10 n). isdigit c"
proof (induction "10 :: nat" n rule: nat_base.induct)
  case (1 n)
  then show ?case by (subst nat_base.simps) (auto simp: isdigit_digit)
qed

lemma decimal_nat_base:
  "c # str = nat_base 10 n \<Longrightarrow> isdigit c \<and> (c = CHR ''0'' \<longrightarrow> str = []) \<and> (\<forall>d \<in> set str. isdigit d)"
proof -
  assume a: "c # str = nat_base 10 n"
  obtain d s where d: "nat_base 10 n = digit d # s" "d < 10" "d = 0 \<longrightarrow> n = 0 \<and> s = []"
    using nat_base_hd [of 10 n] by auto
  then have "c = digit d" "str = s" using a by simp_all
  moreover have "digit d = CHR ''0'' \<longrightarrow> d = 0" using digit_eq_0 [of d] d by simp
  moreover have "\<forall>x \<in> set (c # str). isdigit x" using nat_base_isdigit [of n] a by simp
  ultimately show ?thesis using d by auto
qed

lemma nat_base_decimal:
  "str \<noteq> [] \<Longrightarrow> \<forall>c \<in> set str. isdigit c \<Longrightarrow> hd str = CHR ''0'' \<longrightarrow> tl str = [] \<Longrightarrow> \<exists>n. str = nat_base 10 n"
proof (induction str rule: rev_induct)
  case (snoc c str)
  let ?d = "code c - 48"
  have c: "c = digit ?d" "?d < 10" using isdigit_digit_ex [of c] snoc.prems by auto
  show ?case
  proof (cases "str = []")
    case True
    have "[c] = nat_base 10 ?d" using c by (subst nat_base.simps) simp
    then show ?thesis using True by auto
  next
    case False
    then have nz: "hd str \<noteq> CHR ''0''" using snoc.prems(3) by (cases str) auto
    then obtain n where n: "str = nat_base 10 n" using snoc False by auto
    have "n \<noteq> 0"
    proof
      assume "n = 0"
      then have "str = [digit 0]" using n by (subst (asm) nat_base.simps) simp
      then show False using nz digit_eq_0 [of 0] by simp
    qed
    then have "nat_base 10 (n * 10 + ?d) = nat_base 10 n @ [digit ?d]"
      using c(2) by (subst nat_base.simps) auto
    then show ?thesis using n c(1) by (metis)
  qed
qed simp

definition decimal :: "string \<Rightarrow> bool" where
  "decimal str \<longleftrightarrow> (\<exists>n. str = nat_base 10 n)"

lemma int_valid_decimal: "int_valid str \<longleftrightarrow> decimal str \<or> (\<exists>s. str = CHR ''-'' # s \<and> decimal s)"
proof -
  have body: "(case s of [] \<Rightarrow> False | ch # t \<Rightarrow> if \<not> isdigit ch then False
       else if ch = CHR ''0'' \<and> t \<noteq> [] then False else valid_digits t) \<longleftrightarrow> decimal s" for s
  proof (cases s)
    case Nil
    have "nat_base 10 n \<noteq> []" for n by (subst nat_base.simps) simp
    then show ?thesis using Nil by (auto simp: decimal_def dest: sym)
  next
    case (Cons c t)
    then show ?thesis
      using decimal_nat_base [of c t] nat_base_decimal [of s] by (auto simp: decimal_def valid_digits_all)
  qed
  have "\<not> isdigit (CHR ''-'')" by (simp add: isdigit_def code_def)
  then have "\<not> decimal (CHR ''-'' # s)" for s using decimal_nat_base [of "CHR ''-''" s] by (auto simp: decimal_def)
  then show ?thesis
    unfolding int_valid_def body by (cases str) (auto simp: char_at_def)
qed

lemma hex_valid_digits: "hex_valid str \<longleftrightarrow>
    (let s = (if hex_prefix str then drop 2 str else str) in s \<noteq> [] \<and> (\<forall>c \<in> set s. isxdigit c))"
  by (auto simp: hex_valid_def valid_xdigits_all Let_def split: list.splits)

section \<open>Clearing\<close>

lemma fold_flag_off:
  "k_sym (fold (flag_off f) ss k) = (\<lambda>t. if t \<in> set ss then s_flags_update (\<lambda>F. F - {f}) (k_sym k t) else k_sym k t)"
  "k_prop (fold (flag_off f) ss k) = k_prop k" "k_all (fold (flag_off f) ss k) = k_all k"
  "k_modules_sym (fold (flag_off f) ss k) = k_modules_sym k"
  "k_modules_val (fold (flag_off f) ss k) = k_modules_val k"
  "k_change_count (fold (flag_off f) ss k) = k_change_count k"
  by (induction ss arbitrary: k) (auto simp: flag_off_def fun_eq_iff intro!: symbol.equality)

lemma same_conf_flag:
  assumes "same_conf k k'"
    and "f \<notin> {SYMBOL_WRITE, SYMBOL_CHANGED, SYMBOL_DEF_USER, SYMBOL_VALID, SYMBOL_NEED_SET_CHOICE_VALUES}"
  shows "has_flag k' s f \<longleftrightarrow> has_flag k s f"
proof -
  have "static_view (k'\<lparr>k_change_count := k_change_count k\<rparr>) = static_view k" using assms(1) by (simp add: same_conf_def)
  from view_flag [OF this assms(2)] show ?thesis by (simp add: has_flag_def)
qed

lemma cone_same:
  assumes c: "cone D rank k" and same: "same_conf k k'" and st: "static_ok k'"
    and D: "\<And>s. s \<in> D \<Longrightarrow> \<not> has_flag k' s SYMBOL_NEED_SET_CHOICE_VALUES \<and>
      (s_type (k_sym k s) \<in> {S_INT, S_HEX, S_STRING} \<and> has_flag k' s SYMBOL_DEF_USER \<longrightarrow>
        cval_string (sv_val (s_def (k_sym k' s) S_DEF_USER)) \<noteq> None)"
    and m: "\<And>m. k_modules_sym k = Some m \<Longrightarrow> has_flag k' m SYMBOL_VALID \<and> \<not> has_flag k' m SYMBOL_NEED_SET_CHOICE_VALUES"
  shows "cone D rank k'"
proof -
  have v: "static_view (k'\<lparr>k_change_count := k_change_count k\<rparr>) = static_view k" using same by (simp add: same_conf_def)
  note e = view_sym [OF v, simplified] view_prop [OF v, simplified] view_lists [OF v, simplified]
  have "plain_sym k' s" if "s \<in> D" for s
  proof -
    have "plain_sym k s" using c that by (simp add: cone_def)
    then show ?thesis
      using same_conf_flag [OF same, of SYMBOL_CHOICE s] same_conf_flag [OF same, of SYMBOL_CHOICEVAL s] D [OF that]
      by (simp add: plain_sym_def e)
  qed
  then show ?thesis using c m st by (auto simp: cone_def e)
qed

text \<open>When the modules symbol stays valid, clearing the others is undisturbed.\<close>

lemma clear_undisturbed:
  assumes c: "cone D rank k" and D: "D \<subseteq> set (for_all_symbols k)" "static_syms \<inter> set (for_all_symbols k) = {}"
    and m: "k_modules_sym k = Some m" "m \<notin> set (for_all_symbols k)"
  shows "\<exists>k'. sym_clear_all_valid (sym_calc_value (Suc n)) k = Some k' \<and> undisturbed D rank k k'"
proof -
  let ?k = "sym_add_change_count 1 (fold (flag_off SYMBOL_VALID) (for_all_symbols k) k)"
  have e: "k_sym ?k t = (if t \<in> set (for_all_symbols k) then s_flags_update (\<lambda>F. F - {SYMBOL_VALID}) (k_sym k t) else k_sym k t)"
    "k_prop ?k = k_prop k" "k_all ?k = k_all k" "k_modules_sym ?k = k_modules_sym k" "k_modules_val ?k = k_modules_val k" for t
    by (simp_all add: sym_add_change_count_def sym_set_change_count_def fold_flag_off)
  have mv: "has_flag k m SYMBOL_VALID" "\<not> has_flag k m SYMBOL_NEED_SET_CHOICE_VALUES" using c m by (auto simp: cone_def)
  have same: "same_conf k ?k"
    by (auto simp: same_conf_def static_view_def e static_view_sym_def stable_flags_def loud_flags_def dep_exprs_def fun_eq_iff)
  have st: "static_ok ?k" using c D(2) by (auto simp: cone_def static_ok_def e has_flag_def)
  have plain: "plain_sym k s" if "s \<in> D" for s using c that by (simp add: cone_def)
  have "cone D rank ?k"
    by (rule cone_same [OF c same st])
      (use plain mv m in \<open>auto simp: plain_sym_def has_flag_def e split: if_splits\<close>)
  moreover have "\<forall>t \<in> D. \<not> has_flag ?k t SYMBOL_VALID \<and> same_user k ?k t"
    using D(1) by (auto simp: has_flag_def e same_user_def)
  moreover have "modules_off ?k = modules_off k" by (simp add: modules_off_def e m)
  ultimately have "undisturbed D rank k ?k" using same by (simp add: undisturbed_def)
  moreover have "sym_clear_all_valid (sym_calc_value (Suc n)) k = Some ?k"
    using mv m calc_value_again [of ?k m n] by (simp add: sym_clear_all_valid_def Let_def calc_opt_def e has_flag_def)
  ultimately show ?thesis by blast
qed

text \<open>A configuration whose modules symbol is not in the table: \<^verbatim>\<open>conf_parse\<close> sets
  it to \<^verbatim>\<open>symbol_no\<close> when no symbol has the option modules.\<close>

definition fixed_modules :: "sym set \<Rightarrow> kconf \<Rightarrow> bool" where
  "fixed_modules D k \<longleftrightarrow> D \<subseteq> set (for_all_symbols k) \<and> static_syms \<inter> set (for_all_symbols k) = {} \<and>
     (\<exists>m. k_modules_sym k = Some m \<and> m \<notin> set (for_all_symbols k))"

lemma set_user_cone:
  assumes c: "cone D rank k" and s: "s \<in> D" and rng: "sym_tristate_within_range k s v"
  shows "cone D rank (set_def_tri s v (mark_user s k))"
proof (rule cone_same [OF c set_user_same(1)])
  let ?k = "set_def_tri s v (mark_user s k)"
  have fl: "has_flag ?k t f \<longleftrightarrow> has_flag k t f \<or> t = s \<and> f = SYMBOL_DEF_USER"
    if "f \<noteq> SYMBOL_CHANGED" for t f
    using that by (auto simp: set_def_tri_def mark_user_def flag_on_def has_flag_def mark_changed_def)
  have cu: "s_curr (k_sym ?k t) = s_curr (k_sym k t)" for t
    by (auto simp: set_def_tri_def mark_user_def flag_on_def)
  show "static_ok ?k" using c by (auto simp: cone_def static_ok_def fl cu)
  have "plain_sym k t" if "t \<in> D" for t using c that by (simp add: cone_def)
  moreover from this [OF s] have "s_type (k_sym k s) \<in> {S_BOOLEAN, S_TRISTATE}"
    using within_range_value(4) [OF rng] by (auto simp: sym_get_type_def plain_sym_def split: if_splits)
  ultimately show "\<not> has_flag ?k t SYMBOL_NEED_SET_CHOICE_VALUES \<and>
      (s_type (k_sym k t) \<in> {S_INT, S_HEX, S_STRING} \<and> has_flag ?k t SYMBOL_DEF_USER \<longrightarrow>
        cval_string (sv_val (s_def (k_sym ?k t) S_DEF_USER)) \<noteq> None)" if "t \<in> D" for t
    using that by (cases "t = s") (auto simp: plain_sym_def fl set_user_view)
  show "has_flag ?k m SYMBOL_VALID \<and> \<not> has_flag ?k m SYMBOL_NEED_SET_CHOICE_VALUES"
    if "k_modules_sym k = Some m" for m
    using c that by (auto simp: cone_def fl)
qed

lemma set_tristate_fixed:
  assumes c: "cone D rank k" and f: "fixed_modules D k" and s: "s \<in> D"
    and v: "sv_tri (s_curr (k_sym k s)) \<noteq> v" "sym_tristate_within_range k s v"
  shows "\<exists>k1. sym_set_tristate_value (sym_calc_value (Suc n)) s v k = Some (True, k1) \<and>
    undisturbed D rank (set_def_tri s v (mark_user s k)) k1"
proof -
  let ?k = "set_def_tri s v (mark_user s k)"
  have e: "for_all_symbols ?k = for_all_symbols k" "k_modules_sym ?k = k_modules_sym k"
    using view_sym [OF set_user_same(1) [of k s v, unfolded same_conf_def, THEN conjunct1]]
    by (simp_all add: for_all_symbols_def)
  obtain k1 where k1: "sym_clear_all_valid (sym_calc_value (Suc n)) ?k = Some k1" "undisturbed D rank ?k k1"
    using clear_undisturbed [OF set_user_cone [OF c s v(2)], of _ n] f by (auto simp: fixed_modules_def e)
  have "\<not> has_flag k s SYMBOL_CHOICEVAL" using c s by (simp add: cone_def plain_sym_def)
  then have "\<not> sym_is_choice_value (k_sym (mark_user s k) s)"
    by (auto simp: mark_user_def sym_is_choice_value_def has_flag_def flag_on_def mark_changed_def)
  then show ?thesis using v k1 by (simp add: sym_set_tristate_value_def sym_get_tristate_value_def)
qed

end
