(* ===== verification/Symprops.thy ===== *)
theory Symprops
  imports Symconf Samples
begin

text \<open>
  The correctness of the symbol component, each theorem with an instance on a small
  configuration: a tristate A set to y, a bool B that depends on A and has the default y, and
  an int N set to 500 with the range 1 to 100.
\<close>

section \<open>A configuration\<close>

definition conf_prop :: "prop_type \<Rightarrow> string option \<Rightarrow> expr option \<Rightarrow> expr option \<Rightarrow> property" where
  "conf_prop t text vis e = \<lparr>p_sym = None, p_type = t, p_text = text,
     p_visible = \<lparr>ev_expr = vis, ev_tri = tri_no\<rparr>, p_expr = e, p_menu = None, p_file = None, p_lineno = 0\<rparr>"

definition conf_props :: "pid \<Rightarrow> property" where
  "conf_props p =
     (if p = 0 then conf_prop P_PROMPT (Some ''A'') None None
      else if p = 1 then conf_prop P_PROMPT (Some ''B'') (Some (e_symbol (Sym 0))) None
      else if p = 2 then conf_prop P_DEFAULT None (Some (e_symbol (Sym 0))) (Some (e_symbol symbol_yes))
      else if p = 3 then conf_prop P_PROMPT (Some ''N'') None None
      else if p = 4 then conf_prop P_RANGE None None (Some (e_range (Sym 3) (Sym 4)))
      else conf_prop P_UNKNOWN None None None)"

definition user_value :: "cval \<Rightarrow> tristate \<Rightarrow> def_index \<Rightarrow> symbol_value" where
  "user_value v t i = (if i = S_DEF_USER then \<lparr>sv_val = v, sv_tri = t\<rparr> else null_value)"

definition conf_symbols :: "sym \<Rightarrow> symbol" where
  "conf_symbols s =
     (if s = Sym 0 then (fresh_symbol (Some ''A'') {SYMBOL_DEF_USER})
        \<lparr>s_type := S_TRISTATE, s_prop := [0], s_def := user_value VNull tri_yes\<rparr>
      else if s = Sym 1 then (fresh_symbol (Some ''B'') {})
        \<lparr>s_type := S_BOOLEAN, s_prop := [1, 2], s_dir_dep := \<lparr>ev_expr = Some (e_symbol (Sym 0)), ev_tri = tri_no\<rparr>\<rparr>
      else if s = Sym 2 then (fresh_symbol (Some ''N'') {SYMBOL_DEF_USER})
        \<lparr>s_type := S_INT, s_prop := [3, 4], s_def := user_value (VStr ''500'') tri_no\<rparr>
      else if s = Sym 3 then fresh_symbol (Some ''1'') {SYMBOL_CONST}
      else if s = Sym 4 then fresh_symbol (Some ''100'') {SYMBOL_CONST}
      else if s = Sym 5 then (fresh_symbol (Some ''MODULES'') {SYMBOL_VALID}) \<lparr>s_type := S_BOOLEAN\<rparr>
      else if s \<in> static_syms then static_symbols s
      else fresh_symbol None {SYMBOL_VALID})"

definition conf_menu :: menu where
  "conf_menu = \<lparr>m_next = None, m_parent = None, m_list = None, m_sym = None, m_prompt = None, m_visibility = None,
     m_dep = None, m_changed = False, m_help = None, m_file = None, m_lineno = 0\<rparr>"

definition conf0 :: kconf where
  "conf0 = \<lparr>k_sym = conf_symbols, k_prop = conf_props, k_menu = (\<lambda>_. conf_menu),
     k_all = map Sym [0, 1, 2, 3, 4], k_modules_sym = Some (Sym 5), k_modules_val = tri_no, k_change_count = 0\<rparr>"

definition conf_syms :: "sym set" where
  "conf_syms = {Sym 0, Sym 1, Sym 2, Sym 3, Sym 4}"

definition conf_rank :: "sym \<Rightarrow> nat" where
  "conf_rank s = (if s = Sym 1 then 2 else if s = Sym 0 \<or> s = Sym 2 then 1 else 0)"

lemmas conf_defs = conf0_def conf_symbols_def conf_props_def conf_prop_def conf_syms_def conf_rank_def
  static_symbol_simps user_value_def

lemma conf_sym_simps [simp]:
  "k_sym conf0 = conf_symbols" "k_prop conf0 = conf_props" "k_modules_sym conf0 = Some (Sym 5)"
  by (simp_all add: conf0_def)

lemma conf_static: "static_ok conf0"
  by (auto simp: static_ok_def static_syms_def conf_symbols_def static_symbol_simps has_flag_def)

lemma conf_cone: "cone conf_syms conf_rank conf0"
  unfolding cone_def
proof (intro conjI ballI impI conf_static)
  show "conf_syms \<inter> static_syms = {}" by (auto simp: conf_syms_def static_syms_def)
  show "\<exists>m. k_modules_sym conf0 = Some m \<and> m \<notin> conf_syms \<and> has_flag conf0 m SYMBOL_VALID \<and>
      \<not> has_flag conf0 m SYMBOL_NEED_SET_CHOICE_VALUES"
    by (simp add: conf_syms_def has_flag_def conf_symbols_def static_symbol_simps)
next
  fix s u assume "s \<in> conf_syms" "u \<in> conf_syms" "s \<noteq> u"
  then show "set (s_prop (k_sym conf0 s)) \<inter> set (s_prop (k_sym conf0 u)) = {}"
    by (auto simp: conf_syms_def conf_symbols_def fresh_symbol_def)
next
  fix s assume "s \<in> conf_syms"
  then show "plain_sym conf0 s"
    by (auto simp: conf_syms_def plain_sym_def has_flag_def conf_symbols_def conf_props_def conf_prop_def
        static_symbol_simps user_value_def)
next
  fix s u assume "s \<in> conf_syms" "u \<in> sym_deps conf0 s"
  then show "u \<in> static_syms \<or> u \<in> conf_syms \<and> conf_rank u < conf_rank s"
    by (auto simp: conf_syms_def sym_deps_def conf_symbols_def conf_props_def conf_prop_def
        static_symbol_simps conf_rank_def static_syms_def split: if_splits)
qed

lemma conf_fresh: "\<forall>t \<in> conf_syms. \<not> has_flag conf0 t SYMBOL_VALID"
  by (auto simp: conf_syms_def has_flag_def conf_symbols_def static_symbol_simps)

lemma conf_rank_less: "\<forall>t \<in> conf_syms. conf_rank t < 3"
  by (auto simp: conf_rank_def)

section \<open>Values\<close>







text \<open>C32 The recursion ends: with finitely many symbols to calculate, the fuel of the model is
  irrelevant above a bound, and \<open>calc_value\<close> (the result with enough fuel) satisfies the
  recursive equation of \<^verbatim>\<open>sym_calc_value\<close> itself, in every state, on choices and
  cyclic dependencies too; its \<open>None\<close> stands for a crash only.\<close>

theorem calc_value_ends:
  assumes "static_ok k" "finite (pending k)"
  shows "calc_value s k = calc_value_step calc_value s k \<and> (\<forall>n > todo k. sym_calc_value n s k = calc_value s k)"
  using calc_value_rec [OF assms] calc_value_fuel [OF assms] by blast

theorem calc_value_ends_witness:
  "calc_value (Sym 1) conf0 = calc_value_step calc_value (Sym 1) conf0"
proof -
  have "pending conf0 \<subseteq> conf_syms"
    by (auto simp: pending_def weight_def has_flag_def conf_symbols_def conf_syms_def static_symbol_simps
        static_syms_def split: if_splits)
  then have "finite (pending conf0)" by (rule finite_subset) (simp add: conf_syms_def)
  with calc_value_ends [OF conf_static] show ?thesis by blast
qed

text \<open>C33 A bool symbol never has the value m: the calculation of any symbol keeps the invariant
  that no bool symbol is m (and that the static symbols are as they were built).\<close>

theorem calc_value_keeps_bool:
  assumes "sym_calc_value n s k = Some k'" "bool_inv ty k"
  shows "bool_inv ty k'"
  by (rule calc_value_bool [OF assms])

theorem calc_value_keeps_bool_witness:
  "\<exists>k'. sym_calc_value 4 (Sym 1) conf0 = Some k' \<and> sv_tri (s_curr (k_sym k' (Sym 1))) \<noteq> tri_mod"
proof -
  have i: "bool_inv (\<lambda>s. s_type (conf_symbols s)) conf0"
    using conf_static by (auto simp: bool_inv_def conf_symbols_def static_symbol_simps static_syms_def)
  have "sym_calc_value 4 (Sym 1) conf0 \<noteq> None" by code_simp
  then obtain k' where k': "sym_calc_value 4 (Sym 1) conf0 = Some k'" by blast
  have "s_type (conf_symbols (Sym 1)) = S_BOOLEAN" by (simp add: conf_symbols_def fresh_symbol_def)
  with k' calc_value_keeps_bool [OF k' i] show ?thesis by (auto simp: bool_inv_def)
qed

text \<open>C34 What a calculation leaves alone: the names, types, properties, dependencies and user
  strings of all symbols, all properties but the cached condition, the symbol list and the
  modules symbol; the symbol itself is valid afterwards (unless its choice is still to be
  propagated), a valid symbol stays valid, and a second calculation changes nothing.\<close>

theorem calc_value_frame_valid:
  assumes "sym_calc_value n s k = Some k'" "static_ok k"
  shows "static_view k' = static_view k \<and>
    (\<not> has_flag k s SYMBOL_NEED_SET_CHOICE_VALUES \<longrightarrow>
       has_flag k' s SYMBOL_VALID \<and> sym_calc_value n s k' = Some k') \<and>
    (\<forall>t. has_flag k t SYMBOL_VALID \<and> \<not> has_flag k t SYMBOL_NEED_SET_CHOICE_VALUES \<longrightarrow> has_flag k' t SYMBOL_VALID)"
proof -
  have f: "calc_frame k k'" by (rule calc_value_frame [OF assms])
  obtain m where n: "n = Suc m" using assms(1) by (cases n) auto
  show ?thesis
    using f calc_frame_valid [OF f] calc_value_valid [OF assms] calc_value_again [of k' s m] n
    by (auto simp: calc_frame_def)
qed

theorem calc_value_frame_valid_witness:
  "\<exists>k'. sym_calc_value 4 (Sym 2) conf0 = Some k' \<and> sym_calc_value 4 (Sym 2) k' = Some k'"
proof -
  have "sym_calc_value 4 (Sym 2) conf0 \<noteq> None" by code_simp
  then obtain k' where k': "sym_calc_value 4 (Sym 2) conf0 = Some k'" by blast
  have "\<not> has_flag conf0 (Sym 2) SYMBOL_NEED_SET_CHOICE_VALUES"
    by (simp add: has_flag_def conf_symbols_def fresh_symbol_def)
  with k' calc_value_frame_valid [OF k' conf_static] show ?thesis by blast
qed

text \<open>The strings the range check stores read back as the number they were printed from:
  every int in the range of \<^verbatim>\<open>long long\<close>, and every hex number from 0 on.\<close>

theorem print_number_roundtrip:
  assumes "ty = S_INT \<or> ty = S_HEX \<and> 0 \<le> v" "LLONG_MIN \<le> v" "v \<le> LLONG_MAX"
  shows "strtoll (type_base ty 0) (print_number ty v) = v"
  by (rule strtoll_print_number [OF assms])

theorem print_number_roundtrip_witness:
  "strtoll 16 (print_number S_HEX 255) = 255 \<and> print_number S_HEX 255 = ''0xff''"
proof -
  have "print_number S_HEX 255 = ''0xff''" by code_simp
  then show ?thesis using print_number_roundtrip [of S_HEX 255] by (simp add: LLONG_MIN_def LLONG_MAX_def)
qed

text \<open>The flag operations of the code on the word \<^verbatim>\<open>flags\<close> are the set operations of
  the model: \<^verbatim>\<open>flags |= F\<close> inserts, \<^verbatim>\<open>flags &= ~F\<close> removes and
  \<^verbatim>\<open>flags & F\<close> tests.\<close>

theorem flag_words_are_sets:
  "flags_of (w OR flag_mask f) = insert f (flags_of w) \<and>
   flags_of (w AND NOT (flag_mask f)) = flags_of w - {f} \<and>
   (w AND flag_mask f \<noteq> 0 \<longleftrightarrow> f \<in> flags_of w)"
  using flag_word_ops [of w f] by blast

end
