(* ===== verification/Setprops.thy ===== *)
theory Setprops
  imports Symset Symprops
begin

text \<open>
  The correctness of the operations that set values, on the configuration of theory
  \<open>Symprops\<close>.
\<close>

section \<open>Setting a tristate\<close>


lemma conf_calculated: "\<exists>k. complete conf_syms conf_rank k \<and> later conf_syms conf_rank 3 conf0 k \<and>
    (\<forall>t \<in> conf_syms. settled k t)"
proof -
  have "set (map Sym [0, 1, 2, 3, 4]) = conf_syms" by (auto simp: conf_syms_def)
  then obtain k where k: "call conf_syms conf_rank 3 conf0 k" "\<forall>t \<in> conf_syms. settled k t"
    using calc_symbols_call [OF conf_cone cons_fresh [OF conf_fresh], of "map Sym [0, 1, 2, 3, 4]" 3 4]
      conf_rank_less by (auto simp: returns_def)
  have "later conf_syms conf_rank 3 conf0 k" using k(1) by (simp add: call_def)
  then show ?thesis using call_complete [OF k conf_rank_less] k(2) by blast
qed






section \<open>Strings\<close>

text \<open>C31 The strings admitted as numbers: for an int an optional minus sign before a decimal
  numeral without leading zeros (the numerals \<^verbatim>\<open>sprintf\<close> prints), for a hex an optional
  0x or 0X before at least one hexadecimal digit.\<close>

theorem number_grammar:
  "(sym_string_valid S_INT str \<longleftrightarrow> decimal str \<or> (\<exists>s. str = CHR ''-'' # s \<and> decimal s)) \<and>
   (sym_string_valid S_HEX str \<longleftrightarrow>
     (let s = (if hex_prefix str then drop 2 str else str) in s \<noteq> [] \<and> list_all isxdigit s))"
  using int_valid_decimal hex_valid_digits by (simp add: sym_string_valid_def list_all_iff)


end
