(* ===== verification/Symtab.thy ===== *)
theory Symtab
  imports Symstate
begin

unbundle bit_operations_syntax

text \<open>
  The symbol table of \<^verbatim>\<open>symbol.c\<close>: the hash of a name, \<^verbatim>\<open>sym_lookup\<close>, which
  finds or allocates a symbol, \<^verbatim>\<open>sym_find\<close>, and the operations that allocate
  properties. The interface a parser relies on is the locale \<open>symbol_table\<close>; the model's table
  is an instance of it for every class of flags.
\<close>

section \<open>The table\<close>

text \<open>\<^verbatim>\<open>symbol_hash\<close>: the list of each bucket. \<open>t_syms\<close> and \<open>t_props\<close> are the addresses
  of the next symbol and the next property to be allocated; \<open>t_file\<close> and \<open>t_lineno\<close> are the
  parser's position.\<close>

record ktab =
  t_conf :: kconf
  t_hash :: "nat \<Rightarrow> sym list"
  t_syms :: nat
  t_props :: nat
  t_env_list :: "expr option"
  t_inited :: bool
  t_file :: "string option"
  t_lineno :: int

definition SYMBOL_HASHSIZE :: nat where "SYMBOL_HASHSIZE = 9973"

text \<open>\<^verbatim>\<open>*s\<close> is a signed \<^verbatim>\<open>char\<close>, extended to the width of an \<^verbatim>\<open>unsigned\<close>.\<close>

definition char_word :: "char \<Rightarrow> 32 word" where
  "char_word c = word_of_int (if code c < 128 then int (code c) else int (code c) - 256)"

definition strhash :: "string \<Rightarrow> 32 word" where
  "strhash s = fold (\<lambda>c hash. (hash XOR char_word c) * 0x01000193) s 2166136261"

definition bucket_of :: "string \<Rightarrow> nat" where
  "bucket_of name = unat (strhash name) mod SYMBOL_HASHSIZE"

lemma bucket_of_less: "bucket_of name < SYMBOL_HASHSIZE"
  by (simp add: bucket_of_def SYMBOL_HASHSIZE_def)

text \<open>The one-letter names of the static symbols.\<close>

definition static_sym :: "string \<Rightarrow> sym option" where
  "static_sym name = (if name = ''y'' then Some symbol_yes else if name = ''m'' then Some symbol_mod
     else if name = ''n'' then Some symbol_no else None)"

definition flags_match :: "symbol_flag set \<Rightarrow> symbol \<Rightarrow> bool" where
  "flags_match F x = (if F \<noteq> {} then s_flags x \<inter> F \<noteq> {}
     else s_flags x \<inter> {SYMBOL_CONST, SYMBOL_CHOICE} = {})"

definition conf_of_bucket :: "(nat \<Rightarrow> sym list) \<Rightarrow> sym list" where
  "conf_of_bucket h = concat (map h [0..<SYMBOL_HASHSIZE])"

text \<open>The end of \<^verbatim>\<open>sym_lookup\<close>: a zeroed symbol with its name and flags, in front of its
  bucket.\<close>

definition new_symbol :: "string option \<Rightarrow> nat \<Rightarrow> symbol_flag set \<Rightarrow> ktab \<Rightarrow> sym \<times> ktab" where
  "new_symbol name hash F t =
     (let s = Sym (t_syms t);
          h = (t_hash t)(hash := s # t_hash t hash) in
      (s, t\<lparr>t_conf := upd_sym s (\<lambda>_. fresh_symbol name F)
                        ((t_conf t)\<lparr>k_all := conf_of_bucket h\<rparr>),
            t_hash := h, t_syms := Suc (t_syms t)\<rparr>))"

definition find_bucket :: "ktab \<Rightarrow> symbol_flag set \<Rightarrow> string \<Rightarrow> sym option" where
  "find_bucket t F name = List.find (\<lambda>s. s_name (k_sym (t_conf t) s) = Some name \<and>
     flags_match F (k_sym (t_conf t) s)) (t_hash t (bucket_of name))"

definition sym_lookup :: "string option \<Rightarrow> symbol_flag set \<Rightarrow> ktab \<Rightarrow> sym \<times> ktab" where
  "sym_lookup name F t = (case name of
     None \<Rightarrow> new_symbol None 0 F t
   | Some n \<Rightarrow> (case static_sym n of Some s \<Rightarrow> (s, t)
       | None \<Rightarrow> (case find_bucket t F n of Some s \<Rightarrow> (s, t)
           | None \<Rightarrow> new_symbol (Some n) (bucket_of n) F t)))"

definition sym_find :: "ktab \<Rightarrow> string option \<Rightarrow> sym option" where
  "sym_find t name = (case name of None \<Rightarrow> None
   | Some n \<Rightarrow> (case static_sym n of Some s \<Rightarrow> Some s
       | None \<Rightarrow> List.find (\<lambda>s. s_name (k_sym (t_conf t) s) = Some n \<and>
            SYMBOL_CONST \<notin> s_flags (k_sym (t_conf t) s)) (t_hash t (bucket_of n))))"

section \<open>Properties\<close>

definition null_property :: property where
  "null_property = \<lparr>p_sym = None, p_type = P_UNKNOWN, p_text = None, p_visible = null_expr_value,
     p_expr = None, p_menu = None, p_file = None, p_lineno = 0\<rparr>"

definition prop_alloc :: "prop_type \<Rightarrow> sym option \<Rightarrow> ktab \<Rightarrow> pid \<times> ktab" where
  "prop_alloc ty so t =
     (let p = t_props t;
          k = upd_prop p (\<lambda>_. null_property\<lparr>p_type := ty, p_sym := so, p_file := t_file t,
                p_lineno := t_lineno t\<rparr>) (t_conf t);
          k = (case so of None \<Rightarrow> k | Some s \<Rightarrow> upd_sym s (s_prop_update (\<lambda>ps. ps @ [p])) k)
      in (p, t\<lparr>t_conf := k, t_props := Suc p\<rparr>))"

definition set_prop_expr :: "pid \<Rightarrow> expr option \<Rightarrow> ktab \<Rightarrow> ktab" where
  "set_prop_expr p e t = t\<lparr>t_conf := upd_prop p (p_expr_update (\<lambda>_. e)) (t_conf t)\<rparr>"

definition sym_add_default :: "sym \<Rightarrow> string \<Rightarrow> ktab \<Rightarrow> ktab" where
  "sym_add_default s def t =
     (let (p, t) = prop_alloc P_DEFAULT (Some s) t;
          (d, t) = sym_lookup (Some def) {SYMBOL_CONST} t
      in set_prop_expr p (Some (expr_alloc_symbol d)) t)"

text \<open>The release of the running kernel is an argument.\<close>

definition sym_init :: "string \<Rightarrow> ktab \<Rightarrow> ktab" where
  "sym_init release t =
     (if t_inited t then t
      else let (s, t) = sym_lookup (Some ''UNAME_RELEASE'') {} (t\<lparr>t_inited := True\<rparr>);
               k = flag_on SYMBOL_AUTO s (upd_sym s (s_type_update (\<lambda>_. S_STRING)) (t_conf t))
           in sym_add_default s release (t\<lparr>t_conf := k\<rparr>))"

text \<open>\<^verbatim>\<open>prop_add_env\<close> for the symbol of the current entry; the environment is an argument.
  The messages are those of \<^verbatim>\<open>menu_warn\<close>; \<open>None\<close> is a read through NULL.\<close>

definition prop_add_env :: "(string \<Rightarrow> string option) \<Rightarrow> sym \<Rightarrow> string \<Rightarrow> ktab \<Rightarrow> (string list \<times> ktab) option" where
  "prop_add_env getenv s env t =
     (let t = t\<lparr>t_conf := flag_on SYMBOL_AUTO s (t_conf t)\<rparr> in
      case for_all_properties (t_conf t) s P_ENV of
        p # _ \<Rightarrow> do {
          s2 \<leftarrow> prop_get_symbol (t_conf t) p;
          n2 \<leftarrow> s_name (k_sym (t_conf t) s2);
          Some (if strcmp n2 env \<noteq> 0 then [''redefining environment symbol from '' @ n2] else [], t) }
      | [] \<Rightarrow>
          (let (p, t) = prop_alloc P_ENV (Some s) t;
               (e, t) = sym_lookup (Some env) {SYMBOL_CONST} t;
               t = set_prop_expr p (Some (expr_alloc_symbol e)) t;
               t = t\<lparr>t_env_list := Some (e_list (t_env_list t) s)\<rparr>
           in Some (case getenv env of
                  Some v \<Rightarrow> ([], sym_add_default s v t)
                | None \<Rightarrow> ([''environment variable '' @ env @ '' undefined''], t))))"

section \<open>The interface\<close>

text \<open>What the parser relies on: \<open>lookup\<close> gives each name its symbol, once and for all, and
  different names different symbols.\<close>

locale symbol_table =
  fixes ok :: "'t \<Rightarrow> bool"
    and get :: "'t \<Rightarrow> 'n \<Rightarrow> 's option"
    and lookup :: "'n \<Rightarrow> 't \<Rightarrow> 's \<times> 't"
  assumes lookup_ok: "ok t \<Longrightarrow> lookup n t = (s, t') \<Longrightarrow> ok t'"
    and lookup_gets: "ok t \<Longrightarrow> lookup n t = (s, t') \<Longrightarrow> get t' n = Some s"
    and lookup_old: "ok t \<Longrightarrow> get t n = Some s \<Longrightarrow> lookup n t = (s, t)"
    and lookup_other: "ok t \<Longrightarrow> lookup n t = (s, t') \<Longrightarrow> m \<noteq> n \<Longrightarrow> get t' m = get t m"
    and get_inject: "ok t \<Longrightarrow> get t m = Some s \<Longrightarrow> get t n = Some s \<Longrightarrow> m = n"
begin

fun intern :: "'n list \<Rightarrow> 't \<Rightarrow> 's list \<times> 't" where
  "intern [] t = ([], t)"
| "intern (n # ns) t =
     (let (s, t) = lookup n t; (ss, t) = intern ns t in (s # ss, t))"

lemma intern_ok: "ok t \<Longrightarrow> intern ns t = (ss, t') \<Longrightarrow> ok t'"
  by (induction ns arbitrary: t ss) (auto split: prod.splits dest: lookup_ok)

lemma lookup_keeps:
  assumes "ok t" "lookup n t = (s, t')" "get t m = Some x"
  shows "get t' m = Some x"
proof (cases "m = n")
  case True
  with assms lookup_old [of t n x] lookup_gets [of t n s t'] show ?thesis by auto
next
  case False
  with assms lookup_other show ?thesis by simp
qed

lemma intern_keeps: "ok t \<Longrightarrow> intern ns t = (ss, t') \<Longrightarrow> get t m = Some x \<Longrightarrow> get t' m = Some x"
  by (induction ns arbitrary: t ss) (auto split: prod.splits intro: lookup_ok lookup_keeps)

lemma intern_gets: "ok t \<Longrightarrow> intern ns t = (ss, t') \<Longrightarrow> map (get t') ns = map Some ss"
proof (induction ns arbitrary: t ss)
  case (Cons n ns)
  then obtain s u ss' where *: "lookup n t = (s, u)" "intern ns u = (ss', t')" "ss = s # ss'"
    by (auto split: prod.splits)
  with Cons have "ok u" "get u n = Some s" by (auto intro: lookup_ok lookup_gets)
  with Cons.IH * show ?case by (auto intro: intern_keeps)
qed simp

lemma intern_again:
  "ok t \<Longrightarrow> map (get t) ns = map Some ss \<Longrightarrow> intern ns t = (ss, t)"
  by (induction ns arbitrary: ss) (auto simp: lookup_old split: prod.splits)

text \<open>Interning names numbers them: equal symbols stand for equal names, and a second pass
  over names that are known changes nothing.\<close>

lemma intern_faithful:
  assumes "ok t" "intern ns t = (ss, t')" "i < length ns" "j < length ns"
  shows "ss ! i = ss ! j \<longleftrightarrow> ns ! i = ns ! j"
proof -
  have g: "map (get t') ns = map Some ss" and o: "ok t'"
    using assms intern_gets intern_ok by blast+
  then have l: "length ss = length ns" by (metis length_map)
  then have "get t' (ns ! i) = Some (ss ! i)" "get t' (ns ! j) = Some (ss ! j)"
    using g assms nth_map [of i ns "get t'"] nth_map [of j ns "get t'"] by simp_all
  with o show ?thesis using get_inject by fastforce
qed

lemma intern_idem:
  "ok t \<Longrightarrow> intern ns t = (ss, t') \<Longrightarrow> set ms \<subseteq> set ns \<Longrightarrow> snd (intern ms t') = t'"
proof -
  assume a: "ok t" "intern ns t = (ss, t')" "set ms \<subseteq> set ns"
  then have "map (get t') ns = map Some ss" "ok t'" using intern_gets intern_ok by blast+
  then have "\<forall>n \<in> set ns. \<exists>s. get t' n = Some s" by (metis in_set_conv_nth length_map nth_map)
  with a have "map (get t') ms = map Some (map (the \<circ> get t') ms)" by force
  with \<open>ok t'\<close> show ?thesis using intern_again by fastforce
qed

end

section \<open>The model's table\<close>

text \<open>Every symbol of a bucket was allocated and belongs there; the list of all symbols is
  the buckets in order.\<close>

definition ktab_ok :: "ktab \<Rightarrow> bool" where
  "ktab_ok t \<longleftrightarrow>
     (\<forall>h. \<forall>s \<in> set (t_hash t h). (\<exists>i < t_syms t. s = Sym i) \<and>
        h = (case s_name (k_sym (t_conf t) s) of None \<Rightarrow> 0 | Some n \<Rightarrow> bucket_of n)) \<and>
     (\<forall>h. distinct (t_hash t h)) \<and>
     k_all (t_conf t) = conf_of_bucket (t_hash t)"

definition sym_get :: "symbol_flag set \<Rightarrow> ktab \<Rightarrow> string \<Rightarrow> sym option" where
  "sym_get F t n = (case static_sym n of Some s \<Rightarrow> Some s | None \<Rightarrow> find_bucket t F n)"

lemma static_sym_not_alloc: "static_sym n = Some s \<Longrightarrow> s \<noteq> Sym i"
  by (auto simp: static_sym_def split: if_splits)

lemma static_sym_inject: "static_sym m = Some s \<Longrightarrow> static_sym n = Some s \<Longrightarrow> m = n"
  by (auto simp: static_sym_def split: if_splits)

lemma find_SomeD: "List.find P xs = Some x \<Longrightarrow> x \<in> set xs \<and> P x"
  by (auto simp: find_Some_iff)

lemma find_cong_set: "(\<And>x. x \<in> set xs \<Longrightarrow> P x = Q x) \<Longrightarrow> List.find P xs = List.find Q xs"
  by (induction xs) auto

lemma find_bucket_Some:
  "find_bucket t F n = Some s \<Longrightarrow> s \<in> set (t_hash t (bucket_of n)) \<and>
     s_name (k_sym (t_conf t) s) = Some n \<and> flags_match F (k_sym (t_conf t) s)"
  by (auto simp: find_bucket_def dest: find_SomeD)

lemma ktab_ok_fresh: "ktab_ok t \<Longrightarrow> Sym (t_syms t) \<notin> set (t_hash t h)"
  by (fastforce simp: ktab_ok_def)

lemma flags_match_fresh: "flags_match F (fresh_symbol n F)"
  by (auto simp: flags_match_def fresh_symbol_def)

lemma new_symbol_simps:
  "fst (new_symbol name h F t) = Sym (t_syms t)"
  "t_hash (snd (new_symbol name h F t)) = (t_hash t)(h := Sym (t_syms t) # t_hash t h)"
  "t_syms (snd (new_symbol name h F t)) = Suc (t_syms t)"
  "t_props (snd (new_symbol name h F t)) = t_props t"
  "k_sym (t_conf (snd (new_symbol name h F t))) =
     (k_sym (t_conf t))(Sym (t_syms t) := fresh_symbol name F)"
  "k_prop (t_conf (snd (new_symbol name h F t))) = k_prop (t_conf t)"
  "k_all (t_conf (snd (new_symbol name h F t))) =
     conf_of_bucket ((t_hash t)(h := Sym (t_syms t) # t_hash t h))"
  by (simp_all add: new_symbol_def Let_def)

lemma new_symbolD: "new_symbol name h F t = (s, t') \<Longrightarrow>
    s = Sym (t_syms t) \<and> t' = snd (new_symbol name h F t)"
  by (simp add: new_symbol_def Let_def) blast

lemma fresh_symbol_name: "s_name (fresh_symbol n F) = n"
  by (simp add: fresh_symbol_def)

lemma new_symbol_ok:
  assumes "ktab_ok t" "h = (case name of None \<Rightarrow> 0 | Some n \<Rightarrow> bucket_of n)"
  shows "ktab_ok (snd (new_symbol name h F t))"
proof -
  have fresh: "Sym (t_syms t) \<notin> set (t_hash t g)" for g
    using assms(1) by (rule ktab_ok_fresh)
  have "(\<exists>i < Suc (t_syms t). s = Sym i) \<and>
      g = (case s_name (((k_sym (t_conf t))(Sym (t_syms t) := fresh_symbol name F)) s) of
             None \<Rightarrow> 0 | Some n \<Rightarrow> bucket_of n)"
    if "s \<in> set (((t_hash t)(h := Sym (t_syms t) # t_hash t h)) g)" for s g
  proof (cases "s = Sym (t_syms t)")
    case True
    with that fresh [of g] assms(2) show ?thesis
      by (auto simp: fresh_symbol_def split: if_splits)
  next
    case False
    with that have "s \<in> set (t_hash t g)" by (auto split: if_splits)
    with False assms(1) show ?thesis by (fastforce simp: ktab_ok_def less_Suc_eq)
  qed
  moreover have "distinct (((t_hash t)(h := Sym (t_syms t) # t_hash t h)) g)" for g
    using assms(1) fresh by (auto simp: ktab_ok_def)
  ultimately show ?thesis
    unfolding ktab_ok_def new_symbol_simps by blast
qed

lemma sym_lookup_ok: "ktab_ok t \<Longrightarrow> sym_lookup name F t = (s, t') \<Longrightarrow> ktab_ok t'"
  using new_symbol_ok [of t _ name F]
  by (auto simp: sym_lookup_def split: option.splits dest!: new_symbolD)

lemma sym_lookup_gets: "sym_lookup (Some n) F t = (s, t') \<Longrightarrow> sym_get F t' n = Some s"
  by (auto simp: sym_lookup_def sym_get_def find_bucket_def new_symbol_simps flags_match_fresh
      fresh_symbol_name split: option.splits dest!: new_symbolD)

lemma sym_lookup_old: "sym_get F t n = Some s \<Longrightarrow> sym_lookup (Some n) F t = (s, t)"
  by (auto simp: sym_lookup_def sym_get_def split: option.splits)

lemma find_bucket_push: "\<not> P x \<Longrightarrow> List.find P ((f(h := x # f h)) g) = List.find P (f g)"
  by simp

lemma new_symbol_find:
  assumes "ktab_ok t" "m \<noteq> n"
  shows "find_bucket (snd (new_symbol (Some n) h F t)) G m = find_bucket t G m"
proof -
  let ?k = "(k_sym (t_conf t))(Sym (t_syms t) := fresh_symbol (Some n) F)"
  let ?P = "\<lambda>s. s_name (?k s) = Some m \<and> flags_match G (?k s)"
  have "List.find ?P (t_hash t (bucket_of m)) = find_bucket t G m"
    unfolding find_bucket_def using ktab_ok_fresh [OF assms(1)]
    by (intro find_cong_set) auto
  moreover have "\<not> ?P (Sym (t_syms t))" using assms(2) by (simp add: fresh_symbol_name)
  ultimately show ?thesis
    unfolding find_bucket_def [of "snd _"] new_symbol_simps
    using find_bucket_push [of ?P "Sym (t_syms t)" "t_hash t" h "bucket_of m"] by simp
qed

lemma sym_lookup_other:
  assumes "ktab_ok t" "sym_lookup (Some n) F t = (s, t')" "m \<noteq> n"
  shows "sym_get G t' m = sym_get G t m"
  using assms new_symbol_find [of t m n]
  by (auto simp: sym_lookup_def sym_get_def split: option.splits
      dest!: new_symbolD)

lemma sym_get_inject:
  assumes "ktab_ok t" "sym_get F t m = Some s" "sym_get F t n = Some s"
  shows "m = n"
proof -
  have alloc: "\<exists>i. s = Sym i" if "find_bucket t F x = Some s" for x
    using that assms(1) find_bucket_Some [OF that] unfolding ktab_ok_def by blast
  show ?thesis
    using assms(2,3) alloc [of m] alloc [of n] static_sym_not_alloc
      find_bucket_Some [of t F m s] find_bucket_Some [of t F n s]
    by (auto simp: sym_get_def split: option.splits intro: static_sym_inject)
qed

text \<open>The table is an instance of the interface, for every class of flags a caller asks for.\<close>

interpretation tab: symbol_table ktab_ok "sym_get F" "\<lambda>n. sym_lookup (Some n) F" for F
  by unfold_locales
    (auto intro: sym_lookup_ok sym_lookup_gets sym_lookup_old sym_lookup_other sym_get_inject)

text \<open>A lookup leaves the symbols that were there alone.\<close>

lemma sym_lookup_frame:
  assumes "ktab_ok t" "sym_lookup name F t = (s, t')" "x \<noteq> Sym (t_syms t)"
  shows "k_sym (t_conf t') x = k_sym (t_conf t) x"
  using assms by (auto simp: sym_lookup_def new_symbol_simps split: option.splits
      dest!: new_symbolD)

section \<open>One ordinary symbol per name\<close>

definition ordinary :: "symbol \<Rightarrow> bool" where
  "ordinary x \<longleftrightarrow> flags_match {} x"

definition names_unique :: "ktab \<Rightarrow> bool" where
  "names_unique t \<longleftrightarrow> (\<forall>g h. \<forall>a \<in> set (t_hash t g). \<forall>b \<in> set (t_hash t h).
     let x = k_sym (t_conf t) a; y = k_sym (t_conf t) b in
     ordinary x \<and> ordinary y \<and> s_name x \<noteq> None \<and> s_name x = s_name y \<longrightarrow> a = b)"

lemma find_bucket_None:
  assumes "ktab_ok t" "find_bucket t F n = None" "a \<in> set (t_hash t g)"
    "s_name (k_sym (t_conf t) a) = Some n"
  shows "\<not> flags_match F (k_sym (t_conf t) a)"
proof -
  have "g = bucket_of n" using assms by (fastforce simp: ktab_ok_def)
  with assms show ?thesis by (auto simp: find_bucket_def find_None_iff)
qed

lemma ordinary_fresh: "ordinary (fresh_symbol n F) \<longleftrightarrow> F \<inter> {SYMBOL_CONST, SYMBOL_CHOICE} = {}"
  by (simp add: ordinary_def flags_match_def fresh_symbol_def)

lemma new_symbol_unique:
  assumes "ktab_ok t" "names_unique t"
    and "F = {} \<or> F \<inter> {SYMBOL_CONST, SYMBOL_CHOICE} \<noteq> {}"
    and "\<And>n. name = Some n \<Longrightarrow> find_bucket t F n = None"
  shows "names_unique (snd (new_symbol name h F t))"
proof -
  let ?k = "(k_sym (t_conf t))(Sym (t_syms t) := fresh_symbol name F)"
  let ?h = "(t_hash t)(h := Sym (t_syms t) # t_hash t h)"
  have new: "\<not> (ordinary (fresh_symbol name F) \<and> ordinary (k_sym (t_conf t) b) \<and> name \<noteq> None \<and>
      name = s_name (k_sym (t_conf t) b))" if "b \<in> set (t_hash t g)" for b g
    using that assms find_bucket_None [OF assms(1), of F _ b g]
    by (auto simp: ordinary_fresh) (auto simp: ordinary_def)
  have "a = b" if "a \<in> set (?h g)" "b \<in> set (?h g')" "ordinary (?k a)" "ordinary (?k b)"
    "s_name (?k a) \<noteq> None" "s_name (?k a) = s_name (?k b)" for a b g g'
  proof -
    have old: "c \<noteq> Sym (t_syms t) \<Longrightarrow> c \<in> set (?h f) \<Longrightarrow> c \<in> set (t_hash t f)" for c f
      by (auto split: if_splits)
    show ?thesis
    proof (cases "a = Sym (t_syms t) \<or> b = Sym (t_syms t)")
      case False
      then have "a \<in> set (t_hash t g)" "b \<in> set (t_hash t g')" using that(1,2) old by blast+
      with False that(3-) assms(2) show ?thesis
        unfolding names_unique_def Let_def by simp
    next
      case True
      with that old new show ?thesis by (metis fun_upd_apply fresh_symbol_name)
    qed
  qed
  then show ?thesis
    unfolding names_unique_def new_symbol_simps Let_def by blast
qed

lemma sym_lookup_unique:
  "ktab_ok t \<Longrightarrow> names_unique t \<Longrightarrow> F = {} \<or> F \<inter> {SYMBOL_CONST, SYMBOL_CHOICE} \<noteq> {} \<Longrightarrow>
   sym_lookup name F t = (s, t') \<Longrightarrow> names_unique t'"
  using new_symbol_unique [of t F name]
  by (auto simp: sym_lookup_def split: option.splits dest!: new_symbolD)

text \<open>\<^verbatim>\<open>sym_find\<close> agrees with a lookup as long as no choice has a name.\<close>

definition choices_unnamed :: "ktab \<Rightarrow> bool" where
  "choices_unnamed t \<longleftrightarrow> (\<forall>h. \<forall>a \<in> set (t_hash t h).
     SYMBOL_CHOICE \<in> s_flags (k_sym (t_conf t) a) \<longrightarrow> s_name (k_sym (t_conf t) a) = None)"

lemma sym_find_get:
  "choices_unnamed t \<Longrightarrow> sym_find t (Some n) = sym_get {} t n"
  unfolding sym_find_def sym_get_def find_bucket_def choices_unnamed_def
  by (auto split: option.splits intro!: find_cong_set simp: flags_match_def)

section \<open>Allocated properties\<close>

lemma prop_alloc_simps:
  "fst (prop_alloc ty so t) = t_props t"
  "t_hash (snd (prop_alloc ty so t)) = t_hash t" "t_syms (snd (prop_alloc ty so t)) = t_syms t"
  "k_all (t_conf (snd (prop_alloc ty so t))) = k_all (t_conf t)"
  "t_props (snd (prop_alloc ty so t)) = Suc (t_props t)"
  "k_prop (t_conf (snd (prop_alloc ty so t))) = (k_prop (t_conf t))(t_props t :=
     null_property\<lparr>p_type := ty, p_sym := so, p_file := t_file t, p_lineno := t_lineno t\<rparr>)"
  "k_sym (t_conf (snd (prop_alloc ty so t))) = (\<lambda>x. if so = Some x
     then (k_sym (t_conf t) x)\<lparr>s_prop := s_prop (k_sym (t_conf t) x) @ [t_props t]\<rparr>
     else k_sym (t_conf t) x)"
  by (auto simp: prop_alloc_def Let_def fun_eq_iff split: option.split)

lemma set_prop_expr_simps [simp]:
  "t_hash (set_prop_expr p e t) = t_hash t" "t_syms (set_prop_expr p e t) = t_syms t"
  "t_props (set_prop_expr p e t) = t_props t"
  "k_all (t_conf (set_prop_expr p e t)) = k_all (t_conf t)"
  "k_sym (t_conf (set_prop_expr p e t)) = k_sym (t_conf t)"
  "k_prop (t_conf (set_prop_expr p e t)) =
     (k_prop (t_conf t))(p := (k_prop (t_conf t) p)\<lparr>p_expr := e\<rparr>)"
  by (simp_all add: set_prop_expr_def)

text \<open>The invariant reads the names, the buckets and the addresses only.\<close>

lemma ktab_ok_cong:
  assumes "ktab_ok t" "t_hash u = t_hash t" "t_syms u = t_syms t"
    "k_all (t_conf u) = k_all (t_conf t)"
    "\<And>x. s_name (k_sym (t_conf u) x) = s_name (k_sym (t_conf t) x)"
  shows "ktab_ok u"
  using assms by (simp add: ktab_ok_def)

lemma prop_alloc_ok: "ktab_ok t \<Longrightarrow> ktab_ok (snd (prop_alloc ty so t))"
  by (erule ktab_ok_cong) (simp_all add: prop_alloc_simps)

lemma set_prop_expr_ok: "ktab_ok t \<Longrightarrow> ktab_ok (set_prop_expr p e t)"
  by (erule ktab_ok_cong) simp_all

lemma sym_lookup_prop:
  "sym_lookup name F t = (s, t') \<Longrightarrow>
     k_prop (t_conf t') = k_prop (t_conf t) \<and> t_props t' = t_props t"
  by (auto simp: sym_lookup_def new_symbol_simps split: option.splits dest!: new_symbolD)

text \<open>The properties of allocated symbols were allocated.\<close>

definition props_ok :: "ktab \<Rightarrow> bool" where
  "props_ok t \<longleftrightarrow> (\<forall>x. \<forall>p \<in> set (s_prop (k_sym (t_conf t) x)). p < t_props t) \<and>
     (\<forall>i \<ge> t_syms t. s_prop (k_sym (t_conf t) (Sym i)) = [])"

lemma sym_add_default_spec:
  fixes def :: string
  assumes ok: "ktab_ok t" "props_ok t" and s: "\<forall>i \<ge> t_syms t. s \<noteq> Sym i"
  defines "u \<equiv> sym_add_default s def t"
  shows "ktab_ok u"
    and "for_all_properties (t_conf u) s P_DEFAULT =
           for_all_properties (t_conf t) s P_DEFAULT @ [t_props t]"
    and "\<exists>d. p_expr (k_prop (t_conf u) (t_props t)) = Some (e_symbol d) \<and>
           sym_get {SYMBOL_CONST} u def = Some d"
    and "\<And>x. x \<noteq> s \<Longrightarrow> x \<noteq> Sym (t_syms t) \<Longrightarrow> k_sym (t_conf u) x = k_sym (t_conf t) x"
proof -
  define v where "v = snd (prop_alloc P_DEFAULT (Some s) t)"
  obtain d w where l: "sym_lookup (Some def) {SYMBOL_CONST} v = (d, w)" by fastforce
  have u: "u = set_prop_expr (t_props t) (Some (e_symbol d)) w"
    using l by (simp add: u_def sym_add_default_def v_def prop_alloc_simps(1) case_prod_beta)
  have v: "ktab_ok v" unfolding v_def using ok(1) by (rule prop_alloc_ok)
  have w: "ktab_ok w" using v l by (rule sym_lookup_ok)
  then show "ktab_ok u" unfolding u by (rule set_prop_expr_ok)
  have old: "k_sym (t_conf w) x = k_sym (t_conf v) x" if "x \<noteq> Sym (t_syms t)" for x
    using sym_lookup_frame [OF v l] that by (simp add: v_def prop_alloc_simps)
  show "k_sym (t_conf u) x = k_sym (t_conf t) x" if "x \<noteq> s" "x \<noteq> Sym (t_syms t)" for x
    using old [OF that(2)] that(1) by (simp add: u v_def prop_alloc_simps)
  have p: "k_prop (t_conf w) = k_prop (t_conf v)" using sym_lookup_prop [OF l] by simp
  have "s_prop (k_sym (t_conf u) s) = s_prop (k_sym (t_conf t) s) @ [t_props t]"
    using s old [of s] by (auto simp: u v_def prop_alloc_simps)
  moreover have "p_type (k_prop (t_conf u) q) = p_type (k_prop (t_conf t) q)"
    if "q \<in> set (s_prop (k_sym (t_conf t) s))" for q
    using that ok(2) by (auto simp: u p v_def prop_alloc_simps props_ok_def)
  ultimately show "for_all_properties (t_conf u) s P_DEFAULT =
      for_all_properties (t_conf t) s P_DEFAULT @ [t_props t]"
    by (auto simp: for_all_properties_def u p v_def prop_alloc_simps cong: filter_cong)
  show "\<exists>d. p_expr (k_prop (t_conf u) (t_props t)) = Some (e_symbol d) \<and>
      sym_get {SYMBOL_CONST} u def = Some d"
    using sym_lookup_gets [OF l] by (simp add: u sym_get_def find_bucket_def cong: option.case_cong)
qed

section \<open>The properties of the table\<close>

text \<open>Looking up one name after the other, as the parser does.\<close>

fun lookup_all :: "symbol_flag set \<Rightarrow> string list \<Rightarrow> ktab \<Rightarrow> sym list \<times> ktab" where
  "lookup_all F [] t = ([], t)"
| "lookup_all F (n # ns) t =
     (let (s, t) = sym_lookup (Some n) F t; (ss, t) = lookup_all F ns t in (s # ss, t))"

lemma lookup_all_intern: "lookup_all F ns t = tab.intern F ns t"
  by (induction ns arbitrary: t) (auto split: prod.split)

text \<open>An empty table, to start from.\<close>

definition empty_conf :: kconf where
  "empty_conf = \<lparr>k_sym = static_symbols, k_prop = (\<lambda>_. null_property),
     k_menu = (\<lambda>_. \<lparr>m_next = None, m_parent = None, m_list = None, m_sym = None, m_prompt = None,
       m_visibility = None, m_dep = None, m_changed = False, m_help = None, m_file = None,
       m_lineno = 0\<rparr>), k_all = [], k_modules_sym = None, k_modules_val = tri_no,
     k_change_count = 0\<rparr>"

definition empty_tab :: ktab where
  "empty_tab = \<lparr>t_conf = empty_conf, t_hash = (\<lambda>_. []), t_syms = 0, t_props = 0,
     t_env_list = None, t_inited = False, t_file = None, t_lineno = 0\<rparr>"

lemma empty_tab_ok: "ktab_ok empty_tab" "names_unique empty_tab"
  by (simp_all add: ktab_ok_def empty_tab_def empty_conf_def conf_of_bucket_def names_unique_def)

text \<open>\<^verbatim>\<open>sym_lookup\<close>: a name that was looked up is found again, as the same symbol and
  without a change of the table; the symbols of other names stay the same, whatever their
  flags; and the invariant of the table holds on.\<close>

theorem lookup_interns:
  assumes "ktab_ok t" "sym_lookup (Some n) F t = (s, t')"
  shows "ktab_ok t' \<and> sym_lookup (Some n) F t' = (s, t') \<and>
    (\<forall>m G. m = n \<or> sym_lookup (Some m) G t' = (fst (sym_lookup (Some m) G t'), t') \<or>
      sym_get G t m = None)"
proof -
  have ok: "ktab_ok t'" using assms by (rule tab.lookup_ok)
  have again: "sym_lookup (Some n) F t' = (s, t')"
    using ok tab.lookup_gets [OF assms] by (rule tab.lookup_old)
  have "sym_lookup (Some m) G t' = (x, t')" if "m \<noteq> n" "sym_get G t m = Some x" for m G x
    using that sym_lookup_other [OF assms that(1)] by (intro sym_lookup_old) simp
  then have "m = n \<or> sym_lookup (Some m) G t' = (fst (sym_lookup (Some m) G t'), t') \<or>
      sym_get G t m = None" for m G
    by (cases "sym_get G t m") (auto, metis fst_conv)
  with ok again show ?thesis by blast
qed

theorem lookup_interns_witness:
  "\<exists>t'. sym_lookup (Some ''FOO'') {} empty_tab = (Sym 0, t') \<and>
     sym_lookup (Some ''FOO'') {} t' = (Sym 0, t')"
proof -
  have l: "\<exists>t'. sym_lookup (Some ''FOO'') {} empty_tab = (Sym 0, t')"
    by (simp add: sym_lookup_def static_sym_def find_bucket_def empty_tab_def new_symbol_def Let_def)
  then obtain t' where "sym_lookup (Some ''FOO'') {} empty_tab = (Sym 0, t')" ..
  with lookup_interns [OF empty_tab_ok(1) this] show ?thesis by blast
qed

text \<open>C23 Names identify symbols: when a list of names is looked up, two of the symbols are the
  same one just if the names are equal, and looking the list up a second time gives the same
  symbols and allocates nothing. Lookups that ask for ordinary symbols, constants or choices
  never leave two ordinary symbols of one name.\<close>

theorem names_identify_symbols:
  assumes "ktab_ok t" "names_unique t" "lookup_all F ns t = (ss, t')"
    and "F = {} \<or> F \<inter> {SYMBOL_CONST, SYMBOL_CHOICE} \<noteq> {}"
  shows "(\<forall>a < length ns. \<forall>b < length ns. ss ! a = ss ! b \<longleftrightarrow> ns ! a = ns ! b) \<and>
    lookup_all F ns t' = (ss, t') \<and> ktab_ok t' \<and> names_unique t'"
proof (intro conjI)
  have i: "tab.intern F ns t = (ss, t')" using assms(3) by (simp add: lookup_all_intern)
  have g: "map (sym_get F t') ns = map Some ss" using tab.intern_gets [OF assms(1) i] .
  show "\<forall>a < length ns. \<forall>b < length ns. ss ! a = ss ! b \<longleftrightarrow> ns ! a = ns ! b"
    using tab.intern_faithful [OF assms(1) i] by blast
  show ok: "ktab_ok t'" using assms(1) i by (rule tab.intern_ok)
  show "lookup_all F ns t' = (ss, t')"
    unfolding lookup_all_intern using ok g by (rule tab.intern_again)
  have "names_unique v" if "lookup_all F xs u = (ys, v)" "ktab_ok u" "names_unique u" for xs ys u v
    using that
    by (induction xs arbitrary: ys u)
      (auto split: prod.splits dest: sym_lookup_ok sym_lookup_unique [OF _ _ assms(4)])
  with assms show "names_unique t'" by blast
qed

theorem names_identify_symbols_witness:
  "\<exists>ss t'. lookup_all {} [''FOO'', ''y'', ''FOO''] empty_tab = (ss, t') \<and> ss ! 0 = ss ! 2 \<and>
     ss ! 0 \<noteq> ss ! 1"
proof -
  obtain ss t' where l: "lookup_all {} [''FOO'', ''y'', ''FOO''] empty_tab = (ss, t')"
    by fastforce
  have "\<forall>i < 3. \<forall>j < 3. ss ! i = ss ! j \<longleftrightarrow>
      [''FOO'', ''y'', ''FOO''] ! i = [''FOO'', ''y'', ''FOO''] ! j"
    using names_identify_symbols [OF empty_tab_ok l] by simp
  from this [rule_format, of 0 2] this [rule_format, of 0 1] l show ?thesis by auto
qed

text \<open>\<^verbatim>\<open>sym_add_default\<close> appends one default to the list of the symbol, behind all
  others; its value is the constant of the given text, and no other symbol changes but the one
  that may be allocated for it.\<close>

theorem default_appended:
  assumes "ktab_ok t" "props_ok t" "\<forall>i. t_syms t \<le> i \<longrightarrow> s \<noteq> Sym i"
  shows "ktab_ok (sym_add_default s str t) \<and>
    for_all_properties (t_conf (sym_add_default s str t)) s P_DEFAULT =
      for_all_properties (t_conf t) s P_DEFAULT @ [t_props t] \<and>
    (\<exists>d. p_expr (k_prop (t_conf (sym_add_default s str t)) (t_props t)) = Some (e_symbol d) \<and>
      sym_get {SYMBOL_CONST} (sym_add_default s str t) str = Some d) \<and>
    (\<forall>x. x = s \<or> x = Sym (t_syms t) \<or>
      k_sym (t_conf (sym_add_default s str t)) x = k_sym (t_conf t) x)"
  using sym_add_default_spec [OF assms, where def = str] by blast

lemma empty_tab_props: "props_ok empty_tab"
proof -
  have "s_prop (static_symbols x) = []" for x
    by (cases x) (simp_all add: static_symbol_simps)
  then show ?thesis by (simp add: props_ok_def empty_tab_def empty_conf_def fresh_symbol_def)
qed

theorem default_appended_witness:
  "for_all_properties (t_conf (sym_add_default symbol_yes ''v'' empty_tab)) symbol_yes P_DEFAULT = [0]"
  using default_appended [of empty_tab symbol_yes "''v''"] empty_tab_ok(1) empty_tab_props
  by (simp add: empty_tab_def empty_conf_def for_all_properties_def static_symbol_simps)

end
