(* ===== verification/Symstrings.thy ===== *)
theory Symstrings
  imports Symtab Symframe "HOL-Library.Multiset"
begin

text \<open>
  Strings in \<^verbatim>\<open>symbol.c\<close>: expanding the references \<^verbatim>\<open>$NAME\<close> of a text, quoting a
  value for the configuration file, and the search of symbols by a regular expression. The
  buffers that the code allocates are modelled with their capacity: a write past the end is
  \<open>None\<close>.
\<close>

section \<open>Bounded buffers\<close>

definition strcat_in :: "nat \<Rightarrow> string \<Rightarrow> string \<Rightarrow> string option" where
  "strcat_in cap res s = (if length res + length s + 1 \<le> cap then Some (res @ s) else None)"

lemma strcat_in_fits [simp]: "length res + length s < cap \<Longrightarrow> strcat_in cap res s = Some (res @ s)"
  by (simp add: strcat_in_def)

section \<open>\<^verbatim>\<open>sym_expand_string_value\<close>\<close>

definition SYMBOL_MAXLENGTH :: nat where "SYMBOL_MAXLENGTH = 256"

definition is_name_char :: "char \<Rightarrow> bool" where
  "is_name_char c \<longleftrightarrow> isalnum c \<or> c = CHR ''_''"

text \<open>The name is copied to an array of SYMBOL_MAXLENGTH characters without a check: a name
  that does not fit with its terminator is written past the end.\<close>

definition copy_name :: "string \<Rightarrow> string option" where
  "copy_name src = (let name = takeWhile is_name_char src in
     if length name < SYMBOL_MAXLENGTH then Some name else None)"

definition ref_value :: "calc \<Rightarrow> string \<Rightarrow> ktab \<Rightarrow> (string \<times> ktab) option" where
  "ref_value cv name t = (case sym_find t (Some name) of
     None \<Rightarrow> Some ([], t)
   | Some s \<Rightarrow> do {
       k \<leftarrow> cv s (t_conf t);
       (v, k) \<leftarrow> sym_get_string_value cv s k;
       Some (v, t\<lparr>t_conf := k\<rparr>) })"

function expand_loop :: "calc \<Rightarrow> nat \<Rightarrow> string \<Rightarrow> string \<Rightarrow> ktab \<Rightarrow> (string \<times> ktab) option" where
  "expand_loop cv reslen res inp t = (case dropWhile (\<lambda>c. c \<noteq> CHR ''$'') inp of
     [] \<Rightarrow> map_option (\<lambda>r. (r, t)) (strcat_in reslen res inp)
   | _ # src \<Rightarrow> do {
       res \<leftarrow> strcat_in reslen res (takeWhile (\<lambda>c. c \<noteq> CHR ''$'') inp);
       name \<leftarrow> copy_name src;
       let src = dropWhile is_name_char src;
       (symval, t) \<leftarrow> ref_value cv name t;
       let newlen = length res + length symval + length src + 1;
       let reslen = (if newlen > reslen then newlen else reslen);
       res \<leftarrow> strcat_in reslen res symval;
       expand_loop cv reslen res src t })"
  by pat_completeness auto
termination
proof (relation "measure (\<lambda>(cv, reslen, res, inp, t). length inp)", goal_cases)
  case (2 cv reslen res inp t c src)
  have "length src < length inp"
    using 2(1) length_dropWhile_le [of "\<lambda>c. c \<noteq> CHR ''$''" inp] by (metis Suc_le_eq length_Cons)
  then show ?case
    using 2 length_dropWhile_le [of is_name_char src] by (auto intro: le_less_trans)
qed auto

declare expand_loop.simps [simp del]

definition sym_expand_string_value :: "calc \<Rightarrow> string \<Rightarrow> ktab \<Rightarrow> (string \<times> ktab) option" where
  "sym_expand_string_value cv inp t = expand_loop cv (length inp + 1) [] inp t"

text \<open>What expanding means: the text is cut into literals and references, and the references
  are replaced by their values, from left to right.\<close>

datatype piece = Lit string | Ref string

function pieces :: "string \<Rightarrow> piece list" where
  "pieces inp = (case dropWhile (\<lambda>c. c \<noteq> CHR ''$'') inp of
     [] \<Rightarrow> [Lit inp]
   | _ # src \<Rightarrow> Lit (takeWhile (\<lambda>c. c \<noteq> CHR ''$'') inp) # Ref (takeWhile is_name_char src) #
                 pieces (dropWhile is_name_char src))"
  by pat_completeness auto
termination
proof (relation "measure length", goal_cases)
  case (2 inp c src)
  have "length src < length inp"
    using 2 length_dropWhile_le [of "\<lambda>c. c \<noteq> CHR ''$''" inp] by (metis Suc_le_eq length_Cons)
  then show ?case
    using length_dropWhile_le [of is_name_char src] by simp
qed auto

declare pieces.simps [simp del]

fun piece_text :: "piece \<Rightarrow> string" where
  "piece_text (Lit s) = s"
| "piece_text (Ref n) = CHR ''$'' # n"

fun render :: "calc \<Rightarrow> piece list \<Rightarrow> ktab \<Rightarrow> (string \<times> ktab) option" where
  "render cv [] t = Some ([], t)"
| "render cv (Lit s # ps) t = do { (r, t) \<leftarrow> render cv ps t; Some (s @ r, t) }"
| "render cv (Ref n # ps) t = do {
     (v, t) \<leftarrow> ref_value cv n t;
     (r, t) \<leftarrow> render cv ps t;
     Some (v @ r, t) }"

lemma dropWhile_head: "dropWhile P xs = y # ys \<Longrightarrow> \<not> P y"
  by (metis hd_dropWhile list.distinct(1) list.sel(1))

lemma pieces_cases:
  "dropWhile (\<lambda>c. c \<noteq> CHR ''$'') inp = [] \<Longrightarrow> pieces inp = [Lit inp]"
  "dropWhile (\<lambda>c. c \<noteq> CHR ''$'') inp = c # src \<Longrightarrow> pieces inp =
     Lit (takeWhile (\<lambda>c. c \<noteq> CHR ''$'') inp) # Ref (takeWhile is_name_char src) #
     pieces (dropWhile is_name_char src)"
  by (subst pieces.simps, simp only: list.case)+

lemma pieces_text: "concat (map piece_text (pieces inp)) = inp"
proof (induction inp rule: pieces.induct)
  case (1 inp)
  show ?case
  proof (cases "dropWhile (\<lambda>c. c \<noteq> CHR ''$'') inp")
    case Nil
    then show ?thesis by (simp only: pieces_cases) simp
  next
    case (Cons c src)
    with dropWhile_head [OF Cons] have "takeWhile (\<lambda>c. c \<noteq> CHR ''$'') inp @ CHR ''$'' # src = inp"
      by (metis takeWhile_dropWhile_id)
    with 1 [OF Cons] show ?thesis by (simp add: pieces_cases(2) [OF Cons])
  qed
qed

definition short_names :: "string \<Rightarrow> bool" where
  "short_names inp \<longleftrightarrow> (\<forall>n. Ref n \<in> set (pieces inp) \<longrightarrow> length n < SYMBOL_MAXLENGTH)"

text \<open>The buffer always has room for the text that is left: the invariant of the loop.\<close>

lemma expand_loop_render:
  "length res + length inp < reslen \<Longrightarrow> short_names inp \<Longrightarrow>
   expand_loop cv reslen res inp t = map_option (\<lambda>(r, t). (res @ r, t)) (render cv (pieces inp) t)"
proof (induction inp arbitrary: reslen res t rule: pieces.induct)
  case (1 inp)
  show ?case
  proof (cases "dropWhile (\<lambda>c. c \<noteq> CHR ''$'') inp")
    case Nil
    with 1(2) show ?thesis
      unfolding pieces_cases(1) [OF Nil] expand_loop.simps [of _ _ _ inp] Nil by simp
  next
    case (Cons c src)
    let ?pre = "takeWhile (\<lambda>c. c \<noteq> CHR ''$'') inp" and ?src = "dropWhile is_name_char src"
    let ?name = "takeWhile is_name_char src"
    have len: "length ?pre + length src < length inp" "length ?src \<le> length src"
      using Cons by (metis takeWhile_dropWhile_id length_append length_Cons lessI add_Suc_right)
        (simp add: length_dropWhile_le)
    have p: "pieces inp = Lit ?pre # Ref ?name # pieces ?src"
      by (rule pieces_cases(2) [OF Cons])
    with 1(3) have name: "copy_name src = Some ?name" and short: "short_names ?src"
      by (simp_all add: short_names_def copy_name_def Let_def)
    have IH: "\<And>reslen res t. length res + length ?src < reslen \<Longrightarrow>
        expand_loop cv reslen res ?src t =
          map_option (\<lambda>(r, t). (res @ r, t)) (render cv (pieces ?src) t)"
      using 1(1) [OF Cons _ short] .
    have step: "expand_loop cv reslen res inp t = do {
        (v, t) \<leftarrow> ref_value cv ?name t;
        let r = res @ ?pre @ v;
        map_option (\<lambda>(x, t). (r @ x, t)) (render cv (pieces ?src) t) }"
      unfolding expand_loop.simps [of _ _ _ inp] Cons
      using 1(2) len name
      by (cases "ref_value cv ?name t") (simp_all add: IH Let_def split_def)
    show ?thesis
      unfolding p step
      by (simp add: Let_def split_def map_option_bind bind_map_option comp_def option.map_comp)
        (cases "ref_value cv ?name t"; simp add: map_conv_bind_option comp_def)
  qed
qed

lemma expand_long_name:
  "dropWhile (\<lambda>c. c \<noteq> CHR ''$'') inp = c # src \<Longrightarrow>
   SYMBOL_MAXLENGTH \<le> length (takeWhile is_name_char src) \<Longrightarrow>
   sym_expand_string_value cv inp t = None"
  by (simp add: sym_expand_string_value_def expand_loop.simps [of _ _ _ inp] copy_name_def Let_def
      strcat_in_def)

section \<open>\<^verbatim>\<open>sym_escape_string_value\<close>\<close>

definition is_special :: "char \<Rightarrow> bool" where
  "is_special c \<longleftrightarrow> c = CHR 0x22 \<or> c = CHR 0x5C"

text \<open>The first loop counts the special characters, the second one writes.\<close>

function escape_count :: "string \<Rightarrow> nat \<Rightarrow> nat" where
  "escape_count p reslen = (case dropWhile (\<lambda>c. \<not> is_special c) p of
     [] \<Rightarrow> reslen
   | _ # q \<Rightarrow> escape_count q (reslen + 1))"
  by pat_completeness auto
termination
proof (relation "measure (\<lambda>(p, reslen). length p)", goal_cases)
  case (2 p reslen c q)
  then show ?case
    using length_dropWhile_le [of "\<lambda>c. \<not> is_special c" p] by (metis Suc_le_eq case_prod_conv in_measure length_Cons)
qed auto

function escape_write :: "nat \<Rightarrow> string \<Rightarrow> string \<Rightarrow> string option" where
  "escape_write cap res p = do {
     res \<leftarrow> strcat_in cap res (takeWhile (\<lambda>c. \<not> is_special c) p);
     case dropWhile (\<lambda>c. \<not> is_special c) p of
       [] \<Rightarrow> Some res
     | c # q \<Rightarrow> do {
         res \<leftarrow> strcat_in cap res [CHR 0x5C];
         res \<leftarrow> strcat_in cap res [c];
         escape_write cap res q } }"
  by pat_completeness auto
termination
proof (relation "measure (\<lambda>(cap, res, p). length p)", goal_cases)
  case (2 cap res p)
  then show ?case
    using length_dropWhile_le [of "\<lambda>c. \<not> is_special c" p] by (metis Suc_le_eq case_prod_conv in_measure length_Cons)
qed auto

declare escape_count.simps [simp del] escape_write.simps [simp del]

definition sym_escape_string_value :: "string \<Rightarrow> string option" where
  "sym_escape_string_value inp = do {
     let reslen = escape_count inp (length inp + 2 + 1);
     res \<leftarrow> strcat_in reslen [] [CHR 0x22];
     res \<leftarrow> escape_write reslen res inp;
     strcat_in reslen res [CHR 0x22] }"

text \<open>The specification, character by character.\<close>

definition escape_char :: "char \<Rightarrow> string" where
  "escape_char c = (if is_special c then [CHR 0x5C, c] else [c])"

definition escaped :: "string \<Rightarrow> string" where
  "escaped s = concat (map escape_char s)"

lemma escaped_simps [simp]:
  "escaped [] = []" "escaped (c # s) = escape_char c @ escaped s"
  "escaped (s @ t) = escaped s @ escaped t"
  by (simp_all add: escaped_def)

lemma escaped_plain: "\<forall>c \<in> set s. \<not> is_special c \<Longrightarrow> escaped s = s"
  by (induction s) (simp_all add: escape_char_def)

lemma split_special:
  "dropWhile (\<lambda>c. \<not> is_special c) p = [] \<Longrightarrow> escaped p = p"
  "dropWhile (\<lambda>c. \<not> is_special c) p = c # q \<Longrightarrow>
     p = takeWhile (\<lambda>c. \<not> is_special c) p @ c # q \<and> is_special c \<and>
     escaped p = takeWhile (\<lambda>c. \<not> is_special c) p @ [CHR 0x5C, c] @ escaped q"
proof -
  show "dropWhile (\<lambda>c. \<not> is_special c) p = [] \<Longrightarrow> escaped p = p"
    by (simp add: escaped_plain dropWhile_eq_Nil_conv)
  let ?t = "takeWhile (\<lambda>c. \<not> is_special c) p"
  assume d: "dropWhile (\<lambda>c. \<not> is_special c) p = c # q"
  then have p: "p = ?t @ c # q" by (metis takeWhile_dropWhile_id)
  have c: "is_special c" using dropWhile_head [OF d] by simp
  have "escaped p = escaped ?t @ escape_char c @ escaped q" by (subst p) simp
  moreover have "escaped ?t = ?t" by (rule escaped_plain) (auto dest: set_takeWhileD)
  ultimately show "p = ?t @ c # q \<and> is_special c \<and> escaped p = ?t @ [CHR 0x5C, c] @ escaped q"
    using p c by (simp add: escape_char_def)
qed

lemma escape_count_length: "escape_count p n + length p = n + length (escaped p)"
proof (induction p n rule: escape_count.induct)
  case (1 p n)
  show ?case
  proof (cases "dropWhile (\<lambda>c. \<not> is_special c) p")
    case Nil
    then show ?thesis unfolding escape_count.simps [of p] split_special(1) [OF Nil] Nil by simp
  next
    case (Cons c q)
    let ?t = "takeWhile (\<lambda>c. \<not> is_special c) p"
    from split_special(2) [OF Cons] have "length p = length ?t + Suc (length q)"
      by (metis length_append length_Cons)
    moreover from split_special(2) [OF Cons]
    have "length (escaped p) = length ?t + 2 + length (escaped q)" by simp
    ultimately show ?thesis
      using 1 [OF Cons] unfolding escape_count.simps [of p] Cons by simp
  qed
qed

lemma escape_write_fits:
  "length res + length (escaped p) < cap \<Longrightarrow> escape_write cap res p = Some (res @ escaped p)"
proof (induction cap res p rule: escape_write.induct)
  case (1 cap res p)
  let ?t = "takeWhile (\<lambda>c. \<not> is_special c) p"
  show ?case
  proof (cases "dropWhile (\<lambda>c. \<not> is_special c) p")
    case Nil
    then have all: "?t = p" by (metis append_Nil2 takeWhile_dropWhile_id)
    with 1(2) show ?thesis
      unfolding escape_write.simps [of _ _ p] split_special(1) [OF Nil] Nil all by simp
  next
    case (Cons c q)
    have s: "escaped p = ?t @ [CHR 0x5C, c] @ escaped q" using split_special(2) [OF Cons] by blast
    with 1(2) have l: "length res + length ?t + 2 + length (escaped q) < cap" by simp
    have "escape_write cap (res @ ?t @ [CHR 0x5C, c]) q =
        Some ((res @ ?t @ [CHR 0x5C, c]) @ escaped q)"
      using l by (intro 1(1) [of "res @ ?t" c q "res @ ?t @ [CHR 0x5C]"]) (simp_all add: Cons)
    with l show ?thesis
      unfolding escape_write.simps [of _ _ p] Cons s by simp
  qed
qed

text \<open>The allocation is exact: the quoted string with its terminator fills it.\<close>

lemma escape_exact:
  "sym_escape_string_value inp = Some (CHR 0x22 # escaped inp @ [CHR 0x22])"
  "escape_count inp (length inp + 2 + 1) = length (CHR 0x22 # escaped inp @ [CHR 0x22]) + 1"
proof -
  have "escape_count inp (length inp + 2 + 1) = length (escaped inp) + 3"
    using escape_count_length [of inp "length inp + 2 + 1"] by simp
  then show "escape_count inp (length inp + 2 + 1) = length (CHR 0x22 # escaped inp @ [CHR 0x22]) + 1"
    and "sym_escape_string_value inp = Some (CHR 0x22 # escaped inp @ [CHR 0x22])"
    by (simp_all add: sym_escape_string_value_def escape_write_fits)
qed

section \<open>\<^verbatim>\<open>sym_re_search\<close>\<close>

record sym_match =
  sm_sym :: sym
  sm_so :: int
  sm_eo :: int

text \<open>Only symbols with a name are matched.\<close>

definition sm_name :: "kconf \<Rightarrow> sym_match \<Rightarrow> string" where
  "sm_name k m = (case s_name (k_sym k (sm_sym m)) of None \<Rightarrow> [] | Some n \<Rightarrow> n)"

definition sm_exact :: "kconf \<Rightarrow> sym_match \<Rightarrow> bool" where
  "sm_exact k m \<longleftrightarrow> sm_eo m - sm_so m = int (length (sm_name k m))"

definition sym_rel_comp :: "kconf \<Rightarrow> sym_match \<Rightarrow> sym_match \<Rightarrow> int" where
  "sym_rel_comp k s1 s2 =
     (let exact1 = sm_exact k s1; exact2 = sm_exact k s2 in
      if exact1 \<and> \<not> exact2 then -1 else if \<not> exact1 \<and> exact2 then 1
      else strcmp (sm_name k s1) (sm_name k s2))"

text \<open>\<^verbatim>\<open>qsort\<close>, which leaves the order of equal elements open; here they keep theirs.\<close>

fun insert_by :: "('a \<Rightarrow> 'a \<Rightarrow> int) \<Rightarrow> 'a \<Rightarrow> 'a list \<Rightarrow> 'a list" where
  "insert_by cmp x [] = [x]"
| "insert_by cmp x (y # ys) = (if cmp x y \<le> 0 then x # y # ys else y # insert_by cmp x ys)"

definition qsort :: "('a \<Rightarrow> 'a \<Rightarrow> int) \<Rightarrow> 'a list \<Rightarrow> 'a list" where
  "qsort cmp xs = foldr (insert_by cmp) xs []"

text \<open>A compiled expression gives, for a name, the first match in it; \<^verbatim>\<open>regcomp\<close> may
  fail.\<close>

type_synonym regex = "string \<Rightarrow> (int \<times> int) option"

fun match_symbols :: "regex \<Rightarrow> calc \<Rightarrow> sym list \<Rightarrow> kconf \<Rightarrow> (sym_match list \<times> kconf) option" where
  "match_symbols re cv [] k = Some ([], k)"
| "match_symbols re cv (s # ss) k =
     (if has_flag k s SYMBOL_CONST then match_symbols re cv ss k
      else case s_name (k_sym k s) of None \<Rightarrow> match_symbols re cv ss k
      | Some n \<Rightarrow> (case re n of None \<Rightarrow> match_symbols re cv ss k
          | Some (so, eo) \<Rightarrow> do {
              k \<leftarrow> cv s k;
              (ms, k) \<leftarrow> match_symbols re cv ss k;
              Some (\<lparr>sm_sym = s, sm_so = so, sm_eo = eo\<rparr> # ms, k) }))"

definition sym_re_search :: "(string \<Rightarrow> regex option) \<Rightarrow> calc \<Rightarrow> string \<Rightarrow> kconf \<Rightarrow>
    (sym list option \<times> kconf) option" where
  "sym_re_search regcomp cv pattern k =
     (if length pattern = 0 then Some (None, k)
      else case regcomp pattern of None \<Rightarrow> Some (None, k)
      | Some re \<Rightarrow> do {
          (ms, k) \<leftarrow> match_symbols re cv (for_all_symbols k) k;
          Some (if ms = [] then None else Some (map sm_sym (qsort (sym_rel_comp k) ms)), k) })"

text \<open>\<^verbatim>\<open>qsort\<close> requires an order; what it then gives is shown for any preorder.\<close>

locale sort_order =
  fixes cmp :: "'a \<Rightarrow> 'a \<Rightarrow> int"
  assumes anti: "cmp y x = - cmp x y"
    and trans: "cmp x y \<le> 0 \<Longrightarrow> cmp y z \<le> 0 \<Longrightarrow> cmp x z \<le> 0"
begin

lemma mset_insert_by: "mset (insert_by cmp x ys) = add_mset x (mset ys)"
  by (induction ys) auto

lemma sorted_insert_by:
  "sorted_wrt (\<lambda>a b. cmp a b \<le> 0) ys \<Longrightarrow> sorted_wrt (\<lambda>a b. cmp a b \<le> 0) (insert_by cmp x ys)"
proof (induction ys)
  case (Cons y ys)
  have set: "set (insert_by cmp x ys) = insert x (set ys)"
    using arg_cong [OF mset_insert_by, of set_mset x ys] by simp
  show ?case
  proof (cases "cmp x y \<le> 0")
    case True
    with Cons.prems trans show ?thesis by auto
  next
    case False
    then have "cmp y x \<le> 0" using anti [of y x] by simp
    with False Cons set show ?thesis by auto
  qed
qed simp

lemma qsort_sorts:
  "mset (qsort cmp xs) = mset xs" "sorted_wrt (\<lambda>a b. cmp a b \<le> 0) (qsort cmp xs)"
proof -
  show "mset (qsort cmp xs) = mset xs"
    by (induction xs) (simp_all add: qsort_def mset_insert_by)
  show "sorted_wrt (\<lambda>a b. cmp a b \<le> 0) (qsort cmp xs)"
    by (induction xs) (simp_all add: qsort_def sorted_insert_by)
qed

end

interpretation rel_comp: sort_order "sym_rel_comp k" for k
proof
  show "sym_rel_comp k y x = - sym_rel_comp k x y" for x y
    by (simp add: sym_rel_comp_def Let_def strcmp_antisym [of "sm_name k y"])
  show "sym_rel_comp k x z \<le> 0" if "sym_rel_comp k x y \<le> 0" "sym_rel_comp k y z \<le> 0" for x y z
    using that strcmp_trans [of "sm_name k x" "sm_name k y" "sm_name k z"]
    by (auto simp: sym_rel_comp_def Let_def split: if_splits)
qed

section \<open>Properties\<close>

lemma expand_loop_overflow: "\<not> short_names inp \<Longrightarrow> expand_loop cv reslen res inp t = None"
proof (induction inp arbitrary: reslen res t rule: pieces.induct)
  case (1 inp)
  show ?case
  proof (cases "dropWhile (\<lambda>c. c \<noteq> CHR ''$'') inp")
    case Nil
    with 1(2) have False unfolding short_names_def pieces_cases(1) [OF Nil] by simp
    then show ?thesis ..
  next
    case (Cons c src)
    from 1(2) have "copy_name src = None \<or> \<not> short_names (dropWhile is_name_char src)"
      unfolding short_names_def pieces_cases(2) [OF Cons] copy_name_def Let_def by auto
    with 1(1) [OF Cons] have "expand_loop cv reslen res inp t \<noteq> Some r" for r
      unfolding expand_loop.simps [of _ _ _ inp] Cons
      by (auto simp: Let_def split: prod.splits elim!: bind_eq_SomeE)
    then show ?thesis by (cases "expand_loop cv reslen res inp t") auto
  qed
qed

text \<open>C24 Expanding a text replaces each reference \<^verbatim>\<open>$NAME\<close> by the value of its symbol and
  keeps the rest; the buffer that is enlarged on the way is never overrun. The exception are
  names of SYMBOL_MAXLENGTH characters or more: the copy of such a name runs past the end of
  the array on the stack.\<close>

theorem expand_renders:
  "sym_expand_string_value cv inp t =
     (if \<forall>p \<in> set (pieces inp). length (piece_text p) \<le> SYMBOL_MAXLENGTH \<or> (\<exists>s. p = Lit s)
      then render cv (pieces inp) t else None) \<and>
   concat (map piece_text (pieces inp)) = inp"
proof -
  have "short_names inp \<longleftrightarrow>
      (\<forall>p \<in> set (pieces inp). length (piece_text p) \<le> SYMBOL_MAXLENGTH \<or> (\<exists>s. p = Lit s))"
    unfolding short_names_def by (auto simp: Suc_le_eq) (metis piece.exhaust piece_text.simps(2)
      length_Cons Suc_le_eq piece.distinct(1))+
  then show ?thesis
    using expand_loop_render [of "[]" inp "length inp + 1" cv t]
      expand_loop_overflow [of inp cv "length inp + 1" "[]" t] pieces_text [of inp]
    by (auto simp: sym_expand_string_value_def option.map_id case_prod_eta)
qed

theorem expand_renders_witness:
  "sym_expand_string_value (sym_calc_value 0) ''a$Xb'' empty_tab = Some (''a'', empty_tab) \<and>
   pieces ''a$Xb'' = [Lit ''a'', Ref ''Xb'', Lit []]"
proof -
  have p: "pieces ''a$Xb'' = [Lit ''a'', Ref ''Xb'', Lit []]" by code_simp
  then show ?thesis
    using expand_renders [of "sym_calc_value 0" "''a$Xb''" empty_tab]
    by (simp add: SYMBOL_MAXLENGTH_def ref_value_def sym_find_def static_sym_def empty_tab_def)
qed

text \<open>\<^verbatim>\<open>sym_escape_string_value\<close> puts a backslash before each quote and backslash and
  encloses the text in quotes; the length it counts first is the length it writes.\<close>

theorem escape_fills_buffer:
  "sym_escape_string_value inp = Some (CHR 0x22 # escaped inp @ [CHR 0x22]) \<and>
   escape_count inp (length inp + 2 + 1) = length (CHR 0x22 # escaped inp @ [CHR 0x22]) + 1"
  using escape_exact by blast

definition matches :: "regex \<Rightarrow> kconf \<Rightarrow> sym \<Rightarrow> bool" where
  "matches re k s \<longleftrightarrow> \<not> has_flag k s SYMBOL_CONST \<and>
     (case s_name (k_sym k s) of None \<Rightarrow> False | Some n \<Rightarrow> re n \<noteq> None)"

definition exact_match :: "regex \<Rightarrow> kconf \<Rightarrow> sym \<Rightarrow> bool" where
  "exact_match re k s = (case s_name (k_sym k s) of None \<Rightarrow> False
     | Some n \<Rightarrow> (case re n of None \<Rightarrow> False | Some (so, eo) \<Rightarrow> eo - so = int (length n)))"

lemma static_view_name: "static_view k' = static_view k \<Longrightarrow> s_name (k_sym k' s) = s_name (k_sym k s)"
  by (auto simp: static_view_def static_view_sym_def fun_eq_iff)

lemma static_view_const:
  "static_view k' = static_view k \<Longrightarrow> has_flag k' s SYMBOL_CONST = has_flag k s SYMBOL_CONST"
proof -
  assume "static_view k' = static_view k"
  then have "stable_flags (k_sym k' s) = stable_flags (k_sym k s)"
    by (auto simp: static_view_def static_view_sym_def fun_eq_iff)
  then show ?thesis by (auto simp: has_flag_def stable_flags_def loud_flags_def)
qed

lemma match_symbols_spec:
  assumes "match_symbols re (sym_calc_value n) ss k = Some (ms, k')" "static_ok k"
  shows "static_ok k' \<and> static_view k' = static_view k \<and>
    map sm_sym ms = filter (matches re k) ss \<and>
    (\<forall>m \<in> set ms. sm_exact k' m = exact_match re k (sm_sym m))"
  using assms
proof (induction ss arbitrary: k ms)
  case (Cons s ss)
  show ?case
  proof (cases "matches re k s")
    case False
    with Cons show ?thesis by (auto simp: matches_def split: option.splits if_splits)
  next
    case True
    then obtain nm so eo where nm: "s_name (k_sym k s) = Some nm" "re nm = Some (so, eo)"
      "\<not> has_flag k s SYMBOL_CONST" by (auto simp: matches_def split: option.splits)
    with Cons.prems(1) obtain k1 ms1 where k1: "sym_calc_value n s k = Some k1"
      "match_symbols re (sym_calc_value n) ss k1 = Some (ms1, k')"
      "ms = \<lparr>sm_sym = s, sm_so = so, sm_eo = eo\<rparr> # ms1"
      by (auto elim!: bind_eq_SomeE split: prod.splits)
    have v: "static_ok k1" "static_view k1 = static_view k"
      using calc_value_frame [OF k1(1) Cons.prems(2)] by (auto simp: calc_frame_def)
    note names = static_view_name [OF v(2)] static_view_const [OF v(2)]
    have eq: "matches re k1 = matches re k" "exact_match re k1 = exact_match re k"
      by (auto simp: fun_eq_iff matches_def exact_match_def names)
    note IH = Cons.IH [OF k1(2) v(1), unfolded eq]
    have "s_name (k_sym k' s) = Some nm"
      using IH v nm static_view_name [of k' k s] by simp
    then have "sm_exact k' \<lparr>sm_sym = s, sm_so = so, sm_eo = eo\<rparr> = exact_match re k s"
      using nm by (simp add: sm_exact_def sm_name_def exact_match_def)
    with IH v True k1(3) show ?thesis by simp
  qed
qed simp

text \<open>C27 The search returns each matching symbol once (constants and symbols without a name
  left out), those that match as a whole first, and else in the order of their names; a value
  calculated on the way changes no name.\<close>

theorem re_search_sorted:
  assumes "sym_re_search regcomp (sym_calc_value n) pattern k = Some (Some ss, k')" "static_ok k"
    and "regcomp pattern = Some re"
  shows "mset ss = mset (filter (matches re k) (for_all_symbols k)) \<and>
    sorted_wrt (\<lambda>a b. (exact_match re k b \<longrightarrow> exact_match re k a) \<and>
      (exact_match re k a = exact_match re k b \<longrightarrow>
         strcmp (the (s_name (k_sym k a))) (the (s_name (k_sym k b))) \<le> 0)) ss"
proof -
  obtain ms where ms: "match_symbols re (sym_calc_value n) (for_all_symbols k) k = Some (ms, k')"
    and ss: "ss = map sm_sym (qsort (sym_rel_comp k') ms)"
    using assms(1,3) by (auto simp: sym_re_search_def elim!: bind_eq_SomeE
        split: prod.splits if_splits)
  note spec = match_symbols_spec [OF ms assms(2)]
  have perm: "mset (qsort (sym_rel_comp k') ms) = mset ms" by (rule rel_comp.qsort_sorts)
  have set: "set (qsort (sym_rel_comp k') ms) = set ms"
    using arg_cong [OF perm, of set_mset] by simp
  have named: "s_name (k_sym k (sm_sym m)) = Some (sm_name k' m)" if "m \<in> set ms" for m
  proof -
    have "sm_sym m \<in> set (map sm_sym ms)" using that by simp
    then have "matches re k (sm_sym m)" using spec by simp
    then show ?thesis using static_view_name [of k' k "sm_sym m"] spec
      by (auto simp: sm_name_def matches_def split: option.splits)
  qed
  have "sorted_wrt (\<lambda>a b. sym_rel_comp k' a b \<le> 0) (qsort (sym_rel_comp k') ms)"
    by (rule rel_comp.qsort_sorts)
  then have "sorted_wrt (\<lambda>a b. (exact_match re k (sm_sym b) \<longrightarrow> exact_match re k (sm_sym a)) \<and>
      (exact_match re k (sm_sym a) = exact_match re k (sm_sym b) \<longrightarrow>
         strcmp (the (s_name (k_sym k (sm_sym a)))) (the (s_name (k_sym k (sm_sym b)))) \<le> 0))
      (qsort (sym_rel_comp k') ms)"
    by (rule sorted_wrt_mono_rel [rotated])
      (use spec named set in \<open>auto simp: sym_rel_comp_def Let_def split: if_splits\<close>)
  moreover have "mset ss = mset (filter (matches re k) (for_all_symbols k))"
    using spec perm by (metis ss mset_map)
  ultimately show ?thesis by (simp add: ss sorted_wrt_map)
qed

definition re_conf :: kconf where
  "re_conf = empty_conf\<lparr>k_sym := (\<lambda>s. if s = Sym 0 then fresh_symbol (Some ''FOO_BAR'') {SYMBOL_VALID}
     else if s = Sym 1 then fresh_symbol (Some ''FOO'') {SYMBOL_VALID} else static_symbols s),
     k_all := [Sym 0, Sym 1]\<rparr>"

definition foo_regcomp :: "string \<Rightarrow> regex option" where
  "foo_regcomp p = Some (\<lambda>n. if take 3 n = ''FOO'' then Some (0, 3) else None)"

lemma re_conf_static: "static_ok re_conf"
  by (auto simp: static_ok_def static_syms_def re_conf_def has_flag_def static_symbol_simps)

theorem re_search_sorted_witness:
  "sym_re_search foo_regcomp (sym_calc_value 1) ''FOO'' re_conf = Some (Some [Sym 1, Sym 0], re_conf) \<and>
   mset [Sym 1, Sym 0] = mset (filter (matches (the (foo_regcomp ''FOO'')) re_conf) [Sym 0, Sym 1])"
proof -
  have s: "sym_re_search foo_regcomp (sym_calc_value 1) ''FOO'' re_conf = Some (Some [Sym 1, Sym 0], re_conf)"
    by (simp add: sym_re_search_def foo_regcomp_def for_all_symbols_def re_conf_def empty_conf_def
        fresh_symbol_def has_flag_def calc_value_step_def qsort_def sym_rel_comp_def sm_exact_def
        sm_name_def)
  have "for_all_symbols re_conf = [Sym 0, Sym 1]"
    by (simp add: for_all_symbols_def re_conf_def fresh_symbol_def)
  with s re_search_sorted [OF s re_conf_static, of "the (foo_regcomp ''FOO'')"] show ?thesis
    by (simp add: foo_regcomp_def)
qed

end
