(* ===== verification/Symdeps.thy ===== *)
theory Symdeps
  imports Symtab
begin

text \<open>
  The check for recursive dependencies of \<^verbatim>\<open>symbol.c\<close>: a depth-first search that marks
  the symbols under way with SYMBOL_CHECK and those it has seen with SYMBOL_CHECKED, keeps the
  path on a stack for the messages, and treats a choice with its values as one group.
  \<open>None\<close> is a read through NULL or out of fuel.
\<close>

section \<open>The stack and the messages\<close>

record dep_frame =
  d_sym :: sym
  d_prop :: "pid option"
  d_expr :: "expr option"

datatype dep_msg = At string int string | Unexpected | Oops expr_type

text \<open>The stack is listed from \<^verbatim>\<open>check_top\<close> down.\<close>

record chk =
  c_conf :: kconf
  c_stack :: "dep_frame list"
  c_out :: "dep_msg list"

definition dep_stack_insert :: "sym \<Rightarrow> chk \<Rightarrow> chk" where
  "dep_stack_insert s st = st\<lparr>c_stack := \<lparr>d_sym = s, d_prop = None, d_expr = None\<rparr> # c_stack st\<rparr>"

definition dep_stack_remove :: "chk \<Rightarrow> chk" where
  "dep_stack_remove st = st\<lparr>c_stack := tl (c_stack st)\<rparr>"

definition on_top :: "(dep_frame \<Rightarrow> dep_frame) \<Rightarrow> chk \<Rightarrow> chk" where
  "on_top f st = st\<lparr>c_stack := (case c_stack st of [] \<Rightarrow> [] | d # ds \<Rightarrow> f d # ds)\<rparr>"

definition on_conf :: "(kconf \<Rightarrow> kconf) \<Rightarrow> chk \<Rightarrow> chk" where
  "on_conf f st = st\<lparr>c_conf := f (c_conf st)\<rparr>"

definition say :: "dep_msg \<Rightarrow> chk \<Rightarrow> chk" where
  "say m st = st\<lparr>c_out := c_out st @ [m]\<rparr>"

definition name_or_choice :: "kconf \<Rightarrow> sym \<Rightarrow> string" where
  "name_or_choice k s = (case s_name (k_sym k s) of Some n \<Rightarrow> n | None \<Rightarrow> ''<choice>'')"

text \<open>The inner loop: the first property with a menu, and the menu last looked at.\<close>

fun find_menu :: "kconf \<Rightarrow> mid option \<Rightarrow> pid list \<Rightarrow> pid option \<times> mid option" where
  "find_menu k menu [] = (None, menu)"
| "find_menu k menu (p # ps) = (case p_menu (k_prop k p) of
     None \<Rightarrow> find_menu k None ps | Some m \<Rightarrow> (Some p, Some m))"

definition at_prop :: "kconf \<Rightarrow> pid option \<Rightarrow> string \<Rightarrow> dep_msg option" where
  "at_prop k po txt = do {
     p \<leftarrow> po;
     f \<leftarrow> p_file (k_prop k p);
     Some (At f (p_lineno (k_prop k p)) txt) }"

definition at_menu :: "kconf \<Rightarrow> mid option \<Rightarrow> string \<Rightarrow> dep_msg option" where
  "at_menu k mo txt = do {
     m \<leftarrow> mo;
     f \<leftarrow> m_file (k_menu k m);
     Some (At f (m_lineno (k_menu k m)) txt) }"

definition frame_msg :: "kconf \<Rightarrow> dep_frame \<Rightarrow> sym \<Rightarrow> pid option \<Rightarrow> mid option \<Rightarrow> dep_msg option" where
  "frame_msg k d next_sym prop menu =
     (let s = d_sym d; n = name_or_choice k s; m = name_or_choice k next_sym in
      if d_expr d \<noteq> None then
        at_prop k prop (''symbol '' @ n @ '' '' @
          (case prop of None \<Rightarrow> [] | Some p \<Rightarrow> prop_get_type_name (p_type (k_prop k p))) @
          '' value contains '' @ m)
      else if d_prop d \<noteq> None then at_prop k prop (''symbol '' @ n @ '' depends on '' @ m)
      else if has_flag k s SYMBOL_CHOICE then
        at_menu k menu (''choice '' @ n @ '' contains symbol '' @ m)
      else if has_flag k s SYMBOL_CHOICEVAL then
        at_menu k menu (''symbol '' @ n @ '' is part of choice '' @ m)
      else at_prop k prop (''symbol '' @ n @ '' is selected by '' @ m))"

text \<open>One line per frame, from the frame of \<open>last\<close> up to the top.\<close>

fun print_frames :: "kconf \<Rightarrow> sym \<Rightarrow> mid option \<Rightarrow> dep_frame list \<Rightarrow> dep_msg list option" where
  "print_frames k lst menu [] = Some []"
| "print_frames k lst menu (d # ds) = do {
     let s = d_sym d;
     let next_sym = (case ds of [] \<Rightarrow> lst | e # _ \<Rightarrow> d_sym e);
     let prop = (case d_prop d of None \<Rightarrow> first_of (s_prop (k_sym k s)) | Some p \<Rightarrow> Some p);
     let (prop, menu) = (if has_flag k s SYMBOL_CHOICE \<or> has_flag k s SYMBOL_CHOICEVAL
                         then find_menu k menu (s_prop (k_sym k s)) else (prop, menu));
     h \<leftarrow> (if s = lst then map_option (\<lambda>m. [m]) (at_prop k prop ''error: recursive dependency detected!'')
           else Some []);
     m \<leftarrow> frame_msg k d next_sym prop menu;
     rest \<leftarrow> print_frames k lst menu ds;
     Some (h @ m # rest) }"

definition frames_from :: "sym option \<Rightarrow> dep_frame list \<Rightarrow> dep_frame list option" where
  "frames_from lst ds = (case lst of None \<Rightarrow> None | Some s \<Rightarrow>
     (case dropWhile (\<lambda>d. d_sym d \<noteq> s) ds of [] \<Rightarrow> None
      | d # _ \<Rightarrow> Some (d # rev (takeWhile (\<lambda>d. d_sym d \<noteq> s) ds))))"

text \<open>When the symbol is a choice value its frame is pushed for the printing; on the error path
  the code returns without popping it, which leaves \<^verbatim>\<open>check_top\<close> dangling: \<open>None\<close>.\<close>

definition sym_check_print_recursive :: "sym \<Rightarrow> chk \<Rightarrow> chk option" where
  "sym_check_print_recursive last_sym st =
     (let k = c_conf st; cv = has_flag k last_sym SYMBOL_CHOICEVAL in do {
        let st1 = (if cv then dep_stack_insert last_sym st else st);
        lst \<leftarrow> (if cv then do { p \<leftarrow> sym_get_choice_prop k last_sym; Some (prop_get_symbol k p) }
                 else Some (Some last_sym));
        case frames_from lst (c_stack st1) of
          None \<Rightarrow> if cv then None else Some (say Unexpected st)
        | Some ds \<Rightarrow> do {
            msgs \<leftarrow> print_frames k (the lst) None ds;
            Some (fold say msgs (if cv then dep_stack_remove st1 else st1)) } })"

section \<open>The search\<close>

type_synonym check = "sym \<Rightarrow> chk \<Rightarrow> (sym option \<times> chk) option"

definition if_none :: "sym option \<times> chk \<Rightarrow> (chk \<Rightarrow> (sym option \<times> chk) option) \<Rightarrow>
    (sym option \<times> chk) option" where
  "if_none r f = (case r of (Some s, st) \<Rightarrow> Some (Some s, st) | (None, st) \<Rightarrow> f st)"

fun sym_check_expr1 :: "check \<Rightarrow> expr \<Rightarrow> chk \<Rightarrow> (sym option \<times> chk) option" where
  "sym_check_expr1 cd (e_or l r) st =
     do { x \<leftarrow> sym_check_expr1 cd l st; if_none x (sym_check_expr1 cd r) }"
| "sym_check_expr1 cd (e_and l r) st =
     do { x \<leftarrow> sym_check_expr1 cd l st; if_none x (sym_check_expr1 cd r) }"
| "sym_check_expr1 cd (e_not e) st = sym_check_expr1 cd e st"
| "sym_check_expr1 cd (e_equal a b) st = do { x \<leftarrow> cd a st; if_none x (cd b) }"
| "sym_check_expr1 cd (e_unequal a b) st = do { x \<leftarrow> cd a st; if_none x (cd b) }"
| "sym_check_expr1 cd (e_symbol s) st = cd s st"
| "sym_check_expr1 cd e_none st = Some (None, say (Oops E_NONE) st)"
| "sym_check_expr1 cd (e_list l s) st = Some (None, say (Oops E_LIST) st)"
| "sym_check_expr1 cd (e_range a b) st = Some (None, say (Oops E_RANGE) st)"

definition sym_check_expr_deps :: "check \<Rightarrow> expr option \<Rightarrow> chk \<Rightarrow> (sym option \<times> chk) option" where
  "sym_check_expr_deps cd e st = (case e of None \<Rightarrow> Some (None, st)
     | Some e \<Rightarrow> sym_check_expr1 cd e st)"

fun check_props :: "check \<Rightarrow> sym \<Rightarrow> pid list \<Rightarrow> chk \<Rightarrow> (sym option \<times> chk) option" where
  "check_props cd s [] st = Some (None, st)"
| "check_props cd s (p # ps) st =
     (let prop = k_prop (c_conf st) p in
      if p_type prop = P_CHOICE \<or> p_type prop = P_SELECT then check_props cd s ps st
      else do {
        x \<leftarrow> sym_check_expr_deps cd (ev_expr (p_visible prop)) (on_top (d_prop_update (\<lambda>_. Some p)) st);
        if_none x (\<lambda>st.
          if p_type prop \<noteq> P_DEFAULT \<or> has_flag (c_conf st) s SYMBOL_CHOICE
          then check_props cd s ps st
          else do {
            x \<leftarrow> sym_check_expr_deps cd (p_expr prop) (on_top (d_expr_update (\<lambda>_. p_expr prop)) st);
            if_none x (\<lambda>st. check_props cd s ps (on_top (d_expr_update (\<lambda>_. None)) st)) }) })"

definition sym_check_sym_deps :: "check \<Rightarrow> sym \<Rightarrow> chk \<Rightarrow> (sym option \<times> chk) option" where
  "sym_check_sym_deps cd s st = do {
     let st = dep_stack_insert s st;
     x \<leftarrow> sym_check_expr_deps cd (ev_expr (s_rev_dep (k_sym (c_conf st) s))) st;
     (s2, st) \<leftarrow> if_none x (\<lambda>st. check_props cd s (s_prop (k_sym (c_conf st) s)) st);
     Some (s2, dep_stack_remove st) }"

definition mark_check :: "sym \<Rightarrow> kconf \<Rightarrow> kconf" where
  "mark_check s = upd_sym s (s_flags_update (\<lambda>F. F \<union> {SYMBOL_CHECK, SYMBOL_CHECKED}))"

fun check_values :: "check \<Rightarrow> sym list \<Rightarrow> chk \<Rightarrow> (sym option \<times> chk) option" where
  "check_values cd [] st = Some (None, st)"
| "check_values cd (s # ss) st = do {
     x \<leftarrow> sym_check_sym_deps cd s st;
     if_none x (check_values cd ss) }"

text \<open>A result inside the choice stands for the choice.\<close>

definition choice_result :: "kconf \<Rightarrow> sym \<Rightarrow> sym option \<Rightarrow> sym option option" where
  "choice_result k choice r = (case r of None \<Rightarrow> Some None
     | Some s2 \<Rightarrow> if has_flag k s2 SYMBOL_CHOICEVAL then do {
           p \<leftarrow> sym_get_choice_prop k s2;
           Some (if prop_get_symbol k p = Some choice then Some choice else Some s2) }
         else Some (Some s2))"

definition sym_check_choice_deps :: "check \<Rightarrow> sym \<Rightarrow> chk \<Rightarrow> (sym option \<times> chk) option" where
  "sym_check_choice_deps cd choice st = do {
     let st = dep_stack_insert choice st;
     p \<leftarrow> sym_get_choice_prop (c_conf st) choice;
     let syms = choice_list (c_conf st) p;
     let st = on_conf (mark_check choice \<circ> fold mark_check syms) st;
     (s2, st) \<leftarrow> sym_check_sym_deps cd choice st;
     let st = on_conf (flag_off SYMBOL_CHECK choice) st;
     (s2, st) \<leftarrow> if_none (s2, st) (check_values cd syms);
     let st = on_conf (fold (flag_off SYMBOL_CHECK) syms) st;
     s2 \<leftarrow> choice_result (c_conf st) choice s2;
     Some (s2, dep_stack_remove st) }"

definition check_deps_body :: "check \<Rightarrow> check" where
  "check_deps_body cd s st =
     (let k = c_conf st in
      if has_flag k s SYMBOL_CHOICEVAL then do {
        p \<leftarrow> sym_get_choice_prop k s;
        c \<leftarrow> prop_get_symbol k p;
        (s2, st) \<leftarrow> cd c (dep_stack_insert s st);
        Some (s2, dep_stack_remove st) }
      else if has_flag k s SYMBOL_CHOICE then sym_check_choice_deps cd s st
      else do {
        (s2, st) \<leftarrow> sym_check_sym_deps cd s (on_conf (mark_check s) st);
        Some (s2, on_conf (flag_off SYMBOL_CHECK s) st) })"

definition check_deps_step :: "check \<Rightarrow> check" where
  "check_deps_step cd s st =
     (if has_flag (c_conf st) s SYMBOL_CHECK then
        map_option (\<lambda>st. (Some s, st)) (sym_check_print_recursive s st)
      else if has_flag (c_conf st) s SYMBOL_CHECKED then Some (None, st)
      else do {
        (s2, st) \<leftarrow> check_deps_body cd s st;
        Some (if s2 = Some s then None else s2, st) })"

fun sym_check_deps :: "nat \<Rightarrow> check" where
  "sym_check_deps 0 s st = None"
| "sym_check_deps (Suc n) s st = check_deps_step (sym_check_deps n) s st"

lemma sym_check_deps_Suc: "sym_check_deps (Suc n) = check_deps_step (sym_check_deps n)"
  by (simp add: fun_eq_iff)

text \<open>The loop of \<^verbatim>\<open>conf_parse\<close> over all symbols, with the errors it counts
  in \<^verbatim>\<open>zconfnerrs\<close>.\<close>

fun check_all :: "nat \<Rightarrow> sym list \<Rightarrow> nat \<Rightarrow> chk \<Rightarrow> (nat \<times> chk) option" where
  "check_all n [] errs st = Some (errs, st)"
| "check_all n (s # ss) errs st = do {
     (s2, st) \<leftarrow> sym_check_deps n s st;
     check_all n ss (if s2 = None then errs else errs + 1) st }"

section \<open>What the search reads\<close>

fun expr_refs :: "expr \<Rightarrow> sym set" where
  "expr_refs (e_or l r) = expr_refs l \<union> expr_refs r"
| "expr_refs (e_and l r) = expr_refs l \<union> expr_refs r"
| "expr_refs (e_not e) = expr_refs e"
| "expr_refs (e_equal a b) = {a, b}"
| "expr_refs (e_unequal a b) = {a, b}"
| "expr_refs (e_symbol s) = {s}"
| "expr_refs _ = {}"

definition opt_refs :: "expr option \<Rightarrow> sym set" where
  "opt_refs e = (case e of None \<Rightarrow> {} | Some e \<Rightarrow> expr_refs e)"

definition prop_refs :: "kconf \<Rightarrow> sym \<Rightarrow> pid \<Rightarrow> sym set" where
  "prop_refs k s p = (let prop = k_prop k p in
     if p_type prop = P_CHOICE \<or> p_type prop = P_SELECT then {}
     else opt_refs (ev_expr (p_visible prop)) \<union>
       (if p_type prop = P_DEFAULT \<and> \<not> has_flag k s SYMBOL_CHOICE then opt_refs (p_expr prop) else {}))"

definition dep_refs :: "kconf \<Rightarrow> sym \<Rightarrow> sym set" where
  "dep_refs k s = opt_refs (ev_expr (s_rev_dep (k_sym k s))) \<union>
     (\<Union>p \<in> set (s_prop (k_sym k s)). prop_refs k s p)"

definition depends :: "kconf \<Rightarrow> (sym \<times> sym) set" where
  "depends k = {(s, t). t \<in> dep_refs k s}"

text \<open>The configuration but for the two marks of the search.\<close>

definition graph_view where
  "graph_view k = (\<lambda>s. ((k_sym k s)\<lparr>s_flags := s_flags (k_sym k s) - {SYMBOL_CHECK, SYMBOL_CHECKED}\<rparr>),
     k_prop k, k_menu k, k_all k, k_modules_sym k)"

definition choice_of :: "kconf \<Rightarrow> sym \<Rightarrow> sym option" where
  "choice_of k s = do { p \<leftarrow> sym_get_choice_prop k s; prop_get_symbol k p }"

definition values_of :: "kconf \<Rightarrow> sym \<Rightarrow> sym list" where
  "values_of k c = (case sym_get_choice_prop k c of None \<Rightarrow> [] | Some p \<Rightarrow> choice_list k p)"

text \<open>Choices and their values point to each other.\<close>

definition choices_ok :: "kconf \<Rightarrow> bool" where
  "choices_ok k \<longleftrightarrow>
     (\<forall>v. has_flag k v SYMBOL_CHOICEVAL \<longrightarrow> (\<exists>c. choice_of k v = Some c \<and>
        has_flag k c SYMBOL_CHOICE \<and> \<not> has_flag k c SYMBOL_CHOICEVAL \<and> v \<in> set (values_of k c))) \<and>
     (\<forall>c. has_flag k c SYMBOL_CHOICE \<and> \<not> has_flag k c SYMBOL_CHOICEVAL \<longrightarrow>
        sym_get_choice_prop k c \<noteq> None \<and>
        (\<forall>v \<in> set (values_of k c). has_flag k v SYMBOL_CHOICEVAL \<and> choice_of k v = Some c))"

lemma graph_viewD:
  assumes "graph_view k' = graph_view k"
  shows "s_prop (k_sym k' s) = s_prop (k_sym k s)" "s_rev_dep (k_sym k' s) = s_rev_dep (k_sym k s)"
    "s_name (k_sym k' s) = s_name (k_sym k s)" "k_prop k' = k_prop k" "k_menu k' = k_menu k"
    "has_flag k' s SYMBOL_CHOICE = has_flag k s SYMBOL_CHOICE"
    "has_flag k' s SYMBOL_CHOICEVAL = has_flag k s SYMBOL_CHOICEVAL"
proof -
  let ?f = "\<lambda>k. (k_sym k s)\<lparr>s_flags := s_flags (k_sym k s) - {SYMBOL_CHECK, SYMBOL_CHECKED}\<rparr>"
  have f: "?f k' = ?f k" using assms by (simp add: graph_view_def fun_eq_iff)
  show "s_prop (k_sym k' s) = s_prop (k_sym k s)" using arg_cong [OF f, of s_prop] by simp
  show "s_rev_dep (k_sym k' s) = s_rev_dep (k_sym k s)" using arg_cong [OF f, of s_rev_dep] by simp
  show "s_name (k_sym k' s) = s_name (k_sym k s)" using arg_cong [OF f, of s_name] by simp
  have "s_flags (k_sym k' s) - {SYMBOL_CHECK, SYMBOL_CHECKED} =
      s_flags (k_sym k s) - {SYMBOL_CHECK, SYMBOL_CHECKED}"
    using arg_cong [OF f, of s_flags] by simp
  then show "has_flag k' s SYMBOL_CHOICE = has_flag k s SYMBOL_CHOICE"
    "has_flag k' s SYMBOL_CHOICEVAL = has_flag k s SYMBOL_CHOICEVAL"
    by (auto simp: has_flag_def)
  show "k_prop k' = k_prop k" "k_menu k' = k_menu k" using assms by (simp_all add: graph_view_def)
qed

lemma graph_view_same:
  assumes "graph_view k' = graph_view k"
  shows "prop_refs k' = prop_refs k" "dep_refs k' = dep_refs k" "choice_of k' = choice_of k"
    "values_of k' = values_of k" "sym_get_choice_prop k' = sym_get_choice_prop k"
    "choice_list k' = choice_list k" "prop_get_symbol k' = prop_get_symbol k"
  by (simp_all add: fun_eq_iff Let_def prop_refs_def dep_refs_def choice_of_def values_of_def
      sym_get_choice_prop_def option.case_eq_if for_all_properties_def choice_list_def prop_get_symbol_def
      graph_viewD [OF assms])

lemma graph_view_marks [simp]:
  "graph_view (mark_check s k) = graph_view k"
  "graph_view (flag_off SYMBOL_CHECK s k) = graph_view k"
  "graph_view (fold mark_check ss k) = graph_view k"
  "graph_view (fold (flag_off SYMBOL_CHECK) ss k) = graph_view k"
proof -
  show m: "graph_view (mark_check s k) = graph_view k" for s k
    by (auto simp: graph_view_def mark_check_def fun_eq_iff intro!: symbol.equality)
  show o: "graph_view (flag_off SYMBOL_CHECK s k) = graph_view k" for s k
    by (auto simp: graph_view_def flag_off_def fun_eq_iff intro!: symbol.equality)
  show "graph_view (fold mark_check ss k) = graph_view k"
    by (induction ss arbitrary: k) (simp_all add: m)
  show "graph_view (fold (flag_off SYMBOL_CHECK) ss k) = graph_view k"
    by (induction ss arbitrary: k) (simp_all add: o)
qed

section \<open>The marks\<close>

definition grey :: "kconf \<Rightarrow> sym set" where
  "grey k = {s. has_flag k s SYMBOL_CHECK}"

definition seen :: "kconf \<Rightarrow> sym set" where
  "seen k = {s. has_flag k s SYMBOL_CHECKED}"

definition black :: "kconf \<Rightarrow> sym set" where
  "black k = seen k - grey k"

lemma marks_simps [simp]:
  "grey (mark_check s k) = insert s (grey k)" "seen (mark_check s k) = insert s (seen k)"
  "grey (flag_off SYMBOL_CHECK s k) = grey k - {s}" "seen (flag_off SYMBOL_CHECK s k) = seen k"
  by (auto simp: grey_def seen_def has_flag_def mark_check_def flag_off_def)

lemma marks_fold [simp]:
  "grey (fold mark_check ss k) = set ss \<union> grey k" "seen (fold mark_check ss k) = set ss \<union> seen k"
  "grey (fold (flag_off SYMBOL_CHECK) ss k) = grey k - set ss"
  "seen (fold (flag_off SYMBOL_CHECK) ss k) = seen k"
  by (induction ss arbitrary: k) auto

lemma acyclic_extend:
  assumes "acyclic E" "E \<subseteq> B \<times> B" "F \<subseteq> N \<times> B" "N \<inter> B = {}"
  shows "acyclic (E \<union> F)"
proof -
  have p: "y \<in> B \<and> (x \<in> B \<longrightarrow> (x, y) \<in> E\<^sup>+)" if "(x, y) \<in> (E \<union> F)\<^sup>+" for x y
    using that
  proof (induction rule: trancl_induct)
    case (base y)
    with assms show ?case by blast
  next
    case (step y z)
    then have "(y, z) \<in> E" using assms by blast
    with step.IH assms(2) show ?case by (meson SigmaD2 subsetD trancl.simps)
  qed
  show ?thesis
    using p assms(1) unfolding acyclic_def by blast
qed

text \<open>The invariant of the search: no edge leaves the black symbols, they have no cycle, and a
  choice is seen together with its values.\<close>

definition search_inv :: "kconf \<Rightarrow> kconf \<Rightarrow> bool" where
  "search_inv k0 k \<longleftrightarrow> choices_ok k0 \<and> graph_view k = graph_view k0 \<and> grey k \<subseteq> seen k \<and>
     (\<forall>s \<in> black k. dep_refs k0 s \<subseteq> black k) \<and>
     acyclic (depends k0 \<inter> black k \<times> UNIV) \<and>
     (\<forall>v c. has_flag k0 v SYMBOL_CHOICEVAL \<longrightarrow> choice_of k0 v = Some c \<longrightarrow>
        (v \<in> seen k \<longleftrightarrow> c \<in> seen k))"

lemma search_inv_add:
  assumes "search_inv k0 k" "graph_view k' = graph_view k" "seen k' = seen k" "grey k' \<subseteq> grey k"
    and "black k' = black k \<union> N" "\<forall>s \<in> N. dep_refs k0 s \<subseteq> black k" "N \<inter> black k = {}"
  shows "search_inv k0 k'"
proof -
  have "acyclic ((depends k0 \<inter> black k \<times> UNIV) \<union> (depends k0 \<inter> N \<times> UNIV))"
    using assms by (intro acyclic_extend [where B = "black k" and N = N])
      (auto simp: search_inv_def depends_def)
  then have "acyclic (depends k0 \<inter> (black k \<union> N) \<times> UNIV)"
    by (rule back_subst [of acyclic]) auto
  then show ?thesis using assms by (auto simp: search_inv_def)
qed

section \<open>A silent search\<close>

text \<open>What a step of the search achieves for the symbols \<open>S\<close>: it only adds messages, and when it
  adds none, it returns NULL and leaves the symbols black.\<close>

definition walked :: "kconf \<Rightarrow> sym set \<Rightarrow> chk \<Rightarrow> sym option \<times> chk \<Rightarrow> bool" where
  "walked k0 S st x \<longleftrightarrow>
     (\<exists>ms. c_out (snd x) = c_out st @ ms) \<and>
     (search_inv k0 (c_conf st) \<and> c_out (snd x) = c_out st \<longrightarrow>
        fst x = None \<and> search_inv k0 (c_conf (snd x)) \<and>
        grey (c_conf (snd x)) = grey (c_conf st) \<and> seen (c_conf st) \<subseteq> seen (c_conf (snd x)) \<and>
        black (c_conf st) \<subseteq> black (c_conf (snd x)) \<and> S \<subseteq> black (c_conf (snd x)))"

lemma walked_refl [simp]: "walked k0 {} st (None, st)"
  by (simp add: walked_def)

lemma walked_trans:
  assumes "walked k0 S st (None, st1)" "walked k0 T st1 x"
  shows "walked k0 (S \<union> T) st x"
proof -
  from assms obtain ms where ms: "c_out st1 = c_out st @ ms" unfolding walked_def by auto
  from assms obtain ns where ns: "c_out (snd x) = c_out st1 @ ns" unfolding walked_def by auto
  from assms ms ns show ?thesis unfolding walked_def by auto
qed

lemma walked_stop: "walked k0 S st (Some s, st1) \<Longrightarrow> walked k0 T st (Some s, st1)"
  by (auto simp: walked_def)

lemma walked_mono: "walked k0 S st x \<Longrightarrow> T \<subseteq> S \<Longrightarrow> walked k0 T st x"
  by (auto simp: walked_def)

lemma walked_cong:
  "walked k0 S st (r, st') \<Longrightarrow> c_conf u = c_conf st \<Longrightarrow> c_out u = c_out st \<Longrightarrow>
   c_conf u' = c_conf st' \<Longrightarrow> c_out u' = c_out st' \<Longrightarrow> walked k0 S u (r, u')"
  by (simp add: walked_def)

lemma chk_upd_simps [simp]:
  "c_conf (dep_stack_insert s st) = c_conf st" "c_out (dep_stack_insert s st) = c_out st"
  "c_conf (dep_stack_remove st) = c_conf st" "c_out (dep_stack_remove st) = c_out st"
  "c_conf (on_top f st) = c_conf st" "c_out (on_top f st) = c_out st"
  "c_conf (on_conf g st) = g (c_conf st)" "c_out (on_conf g st) = c_out st"
  "c_conf (say m st) = c_conf st" "c_out (say m st) = c_out st @ [m]"
  by (simp_all add: dep_stack_insert_def dep_stack_remove_def on_top_def on_conf_def say_def)

lemma fold_say [simp]:
  "c_conf (fold say ms st) = c_conf st" "c_out (fold say ms st) = c_out st @ ms"
  "c_stack (fold say ms st) = c_stack st"
  by (induction ms arbitrary: st) (simp_all add: say_def)

lemma walked_say [simp]: "walked k0 S st (r, say m st)"
  by (simp add: walked_def)

lemma post_walked_mono: "post m (walked k0 S st) \<Longrightarrow> T \<subseteq> S \<Longrightarrow> post m (walked k0 T st)"
  by (auto simp: post_def intro: walked_mono)

text \<open>The reading of the graph does not change under way.\<close>

definition stays :: "kconf \<Rightarrow> (sym option \<times> chk) option \<Rightarrow> bool" where
  "stays k0 m \<longleftrightarrow> post m (\<lambda>x. graph_view (c_conf (snd x)) = graph_view k0)"

locale dep_search =
  fixes k0 :: kconf and cd :: check
  assumes cd_walks: "graph_view (c_conf st) = graph_view k0 \<Longrightarrow> post (cd s st) (walked k0 {s} st)"
    and cd_stays: "graph_view (c_conf st) = graph_view k0 \<Longrightarrow> stays k0 (cd s st)"
begin

abbreviation good :: "sym set \<Rightarrow> chk \<Rightarrow> sym option \<times> chk \<Rightarrow> bool" where
  "good S st x \<equiv> walked k0 S st x \<and> graph_view (c_conf (snd x)) = graph_view k0"

lemma cd_good: "graph_view (c_conf st) = graph_view k0 \<Longrightarrow> post (cd s st) (good {s} st)"
  using cd_walks [of st s] cd_stays [of st s] by (auto simp: post_def stays_def)

lemma good_if_none:
  assumes "post m (good S st)"
    and "\<And>st1. walked k0 S st (None, st1) \<Longrightarrow> graph_view (c_conf st1) = graph_view k0 \<Longrightarrow>
      post (f st1) (good T st1)"
    and "U \<subseteq> S \<union> T"
  shows "post (do { x \<leftarrow> m; if_none x f }) (good U st)"
proof (rule postI)
  fix x assume x: "do { x \<leftarrow> m; if_none x f } = Some x"
  then obtain r st1 where m: "m = Some (r, st1)" "if_none (r, st1) f = Some x"
    by (auto elim!: bind_eq_SomeE)
  with assms(1) have g: "good S st (r, st1)" by (auto simp: post_def)
  show "good U st x"
  proof (cases r)
    case None
    with m g assms(2) [of st1] have "good T st1 x" by (simp add: post_def if_none_def)
    with None g assms(3) show ?thesis by (auto intro: walked_mono walked_trans)
  next
    case (Some s)
    with m g show ?thesis by (auto simp: if_none_def intro: walked_stop)
  qed
qed

lemma expr1_good: "graph_view (c_conf st) = graph_view k0 \<Longrightarrow>
    post (sym_check_expr1 cd e st) (good (expr_refs e) st)"
proof (induction e arbitrary: st)
  case (e_or l r)
  then show ?case by (simp only: sym_check_expr1.simps expr_refs.simps) (rule good_if_none, auto)
next
  case (e_and l r)
  then show ?case by (simp only: sym_check_expr1.simps expr_refs.simps) (rule good_if_none, auto)
next
  case (e_equal a b)
  then show ?case
    by (simp only: sym_check_expr1.simps expr_refs.simps)
      (rule good_if_none [OF cd_good cd_good], auto)
next
  case (e_unequal a b)
  then show ?case
    by (simp only: sym_check_expr1.simps expr_refs.simps)
      (rule good_if_none [OF cd_good cd_good], auto)
qed (auto simp: cd_good post_simps)

lemma expr_good: "graph_view (c_conf st) = graph_view k0 \<Longrightarrow>
    post (sym_check_expr_deps cd e st) (good (opt_refs e) st)"
  by (auto simp: sym_check_expr_deps_def opt_refs_def expr1_good post_simps split: option.split)

text \<open>The stack plays no part.\<close>

lemma good_stack:
  "post m (good S u) \<Longrightarrow> c_conf u = c_conf st \<Longrightarrow> c_out u = c_out st \<Longrightarrow> post m (good S st)"
  by (auto simp: post_def walked_def)

lemma props_good: "graph_view (c_conf st) = graph_view k0 \<Longrightarrow>
    post (check_props cd s ps st) (good (\<Union>p \<in> set ps. prop_refs k0 s p) st)"
proof (induction ps arbitrary: st)
  case (Cons p ps)
  let ?pr = "k_prop k0 p"
  note g = graph_viewD [OF Cons.prems]
  have IH: "graph_view (c_conf u) = graph_view k0 \<Longrightarrow>
      post (check_props cd s ps u) (good (\<Union>p \<in> set ps. prop_refs k0 s p) u)" for u
    by (rule Cons.IH)
  show ?case
  proof (cases "p_type ?pr = P_CHOICE \<or> p_type ?pr = P_SELECT")
    case True
    with IH [OF Cons.prems] show ?thesis by (simp add: g prop_refs_def)
  next
    case False
    let ?visible = "opt_refs (ev_expr (p_visible ?pr))"
    have vis: "post (sym_check_expr_deps cd (ev_expr (p_visible ?pr)) (on_top (d_prop_update (\<lambda>_. Some p)) st))
        (good ?visible st)"
      using Cons.prems by (intro good_stack [OF expr_good]) simp_all
    have "post (do {
        x \<leftarrow> sym_check_expr_deps cd (ev_expr (p_visible ?pr)) (on_top (d_prop_update (\<lambda>_. Some p)) st);
        if_none x (\<lambda>st.
          if p_type ?pr \<noteq> P_DEFAULT \<or> has_flag (c_conf st) s SYMBOL_CHOICE
          then check_props cd s ps st
          else do {
            x \<leftarrow> sym_check_expr_deps cd (p_expr ?pr) (on_top (d_expr_update (\<lambda>_. p_expr ?pr)) st);
            if_none x (\<lambda>st. check_props cd s ps (on_top (d_expr_update (\<lambda>_. None)) st)) }) })
        (good (?visible \<union> (prop_refs k0 s p - ?visible \<union> (\<Union>p \<in> set ps. prop_refs k0 s p))) st)"
    proof (rule good_if_none [OF vis])
      fix st1 :: chk assume s1: "graph_view (c_conf st1) = graph_view k0"
      show "post (if p_type ?pr \<noteq> P_DEFAULT \<or> has_flag (c_conf st1) s SYMBOL_CHOICE
          then check_props cd s ps st1
          else do {
            x \<leftarrow> sym_check_expr_deps cd (p_expr ?pr) (on_top (d_expr_update (\<lambda>_. p_expr ?pr)) st1);
            if_none x (\<lambda>st. check_props cd s ps (on_top (d_expr_update (\<lambda>_. None)) st)) })
          (good (prop_refs k0 s p - ?visible \<union> (\<Union>p \<in> set ps. prop_refs k0 s p)) st1)"
      proof (cases "p_type ?pr \<noteq> P_DEFAULT \<or> has_flag k0 s SYMBOL_CHOICE")
        case True
        then have e: "prop_refs k0 s p - ?visible \<union> (\<Union>p \<in> set ps. prop_refs k0 s p) =
            (\<Union>p \<in> set ps. prop_refs k0 s p)" using False by (auto simp: prop_refs_def)
        from True IH [OF s1] show ?thesis unfolding e by (simp add: graph_viewD [OF s1])
      next
        case default: False
        have d: "post (sym_check_expr_deps cd (p_expr ?pr) (on_top (d_expr_update (\<lambda>_. p_expr ?pr)) st1))
            (good (opt_refs (p_expr ?pr)) st1)"
          using s1 by (intro good_stack [OF expr_good]) simp_all
        have "post (do {
            x \<leftarrow> sym_check_expr_deps cd (p_expr ?pr) (on_top (d_expr_update (\<lambda>_. p_expr ?pr)) st1);
            if_none x (\<lambda>st. check_props cd s ps (on_top (d_expr_update (\<lambda>_. None)) st)) })
            (good (prop_refs k0 s p - ?visible \<union> (\<Union>p \<in> set ps. prop_refs k0 s p)) st1)"
          by (rule good_if_none [OF d good_stack [OF IH]])
            (auto simp: prop_refs_def Let_def split: if_splits)
        with default show ?thesis by (simp add: graph_viewD [OF s1])
      qed
    qed auto
    moreover have "insert p (set ps) = set (p # ps)" "prop_refs k0 s p \<supseteq> ?visible"
      using False by (auto simp: prop_refs_def Let_def)
    then have "?visible \<union> (prop_refs k0 s p - ?visible \<union> (\<Union>p \<in> set ps. prop_refs k0 s p)) =
        (\<Union>p \<in> set (p # ps). prop_refs k0 s p)" by auto
    ultimately show ?thesis using False by (simp add: g Let_def)
  qed
qed (simp add: post_simps)

lemma sym_deps_good:
  assumes "graph_view (c_conf st) = graph_view k0"
  shows "post (sym_check_sym_deps cd s st) (good (dep_refs k0 s) st)"
proof -
  note g = graph_viewD [OF assms]
  have "post (do {
      x \<leftarrow> sym_check_expr_deps cd (ev_expr (s_rev_dep (k_sym (c_conf st) s))) (dep_stack_insert s st);
      if_none x (\<lambda>st. check_props cd s (s_prop (k_sym (c_conf st) s)) st) })
      (good (dep_refs k0 s) (dep_stack_insert s st))"
  proof (rule good_if_none [OF expr_good])
    show "graph_view (c_conf (dep_stack_insert s st)) = graph_view k0" using assms by simp
    show "post (check_props cd s (s_prop (k_sym (c_conf st1) s)) st1)
        (good (\<Union>p \<in> set (s_prop (k_sym k0 s)). prop_refs k0 s p) st1)"
      if "graph_view (c_conf st1) = graph_view k0" for st1
      using props_good [OF that, of s "s_prop (k_sym k0 s)"] by (simp add: graph_viewD [OF that])
  qed (simp add: dep_refs_def g)
  then show ?thesis
    by (auto simp: sym_check_sym_deps_def post_def walked_def elim!: bind_eq_SomeE)
qed

end

section \<open>One symbol or choice\<close>

lemma print_frames_some: "print_frames k lst menu (d # ds) = Some ms \<Longrightarrow> ms \<noteq> []"
  by (auto simp: Let_def split: prod.splits elim!: bind_eq_SomeE)

lemma print_recursive_talks:
  "sym_check_print_recursive s st = Some st' \<Longrightarrow>
     c_conf st' = c_conf st \<and> (\<exists>ms. ms \<noteq> [] \<and> c_out st' = c_out st @ ms)"
  by (auto simp: sym_check_print_recursive_def Let_def frames_from_def elim!: bind_eq_SomeE
      split: option.splits if_splits list.splits dest!: print_frames_some)

context dep_search
begin

lemma values_good: "graph_view (c_conf st) = graph_view k0 \<Longrightarrow>
    post (check_values cd ss st) (good (\<Union>v \<in> set ss. dep_refs k0 v) st)"
proof (induction ss arbitrary: st)
  case (Cons v ss)
  show ?case
    unfolding check_values.simps
    by (rule good_if_none [OF sym_deps_good Cons.IH]) (use Cons.prems in auto)
qed (simp add: post_simps)

text \<open>An ordinary symbol: while its dependencies are checked it is grey, afterwards black.\<close>

lemma ordinary_good:
  assumes g: "graph_view (c_conf st) = graph_view k0"
    and new: "s \<notin> grey (c_conf st)" "s \<notin> seen (c_conf st)"
    and ord: "\<not> has_flag k0 s SYMBOL_CHOICEVAL" "\<not> has_flag k0 s SYMBOL_CHOICE"
  shows "post (do {
      (s2, st) \<leftarrow> sym_check_sym_deps cd s (on_conf (mark_check s) st);
      Some (s2, on_conf (flag_off SYMBOL_CHECK s) st) }) (good {s} st)"
proof (rule postI)
  fix x
  assume "do { (s2, st) \<leftarrow> sym_check_sym_deps cd s (on_conf (mark_check s) st);
      Some (s2, on_conf (flag_off SYMBOL_CHECK s) st) } = Some x"
  then obtain r st1 where c: "sym_check_sym_deps cd s (on_conf (mark_check s) st) = Some (r, st1)"
    and x: "x = (r, on_conf (flag_off SYMBOL_CHECK s) st1)"
    by (auto elim!: bind_eq_SomeE)
  have "good (dep_refs k0 s) (on_conf (mark_check s) st) (r, st1)"
    using c by (rule postD [OF sym_deps_good, rotated]) (simp add: g)
  then have w: "walked k0 (dep_refs k0 s) (on_conf (mark_check s) st) (r, st1)"
    and g1: "graph_view (c_conf st1) = graph_view k0" by simp_all
  have "search_inv k0 (mark_check s (c_conf st))" if "search_inv k0 (c_conf st)"
  proof -
    have b: "black (mark_check s (c_conf st)) = black (c_conf st)"
      using new by (auto simp: black_def)
    have "s \<noteq> c" if "has_flag k0 v SYMBOL_CHOICEVAL" "choice_of k0 v = Some c" for v c
      using that ord \<open>search_inv k0 (c_conf st)\<close> unfolding search_inv_def choices_ok_def
      by (metis option.inject)
    moreover have "s \<noteq> v" if "has_flag k0 v SYMBOL_CHOICEVAL" for v using that ord by auto
    ultimately show ?thesis
      using \<open>search_inv k0 (c_conf st)\<close> unfolding search_inv_def b by auto
  qed
  moreover have "search_inv k0 (flag_off SYMBOL_CHECK s (c_conf st1))"
    if i: "search_inv k0 (c_conf st1)" "grey (c_conf st1) = insert s (grey (c_conf st))"
      "dep_refs k0 s \<subseteq> black (c_conf st1)" "s \<in> seen (c_conf st1)"
    by (rule search_inv_add [OF i(1), where N = "{s}"]) (use i in \<open>auto simp: black_def\<close>)
  ultimately show "good {s} st x"
    using w g1 new unfolding x walked_def
    by (auto simp: black_def)
qed

text \<open>A choice: its own dependencies come first; the values stay grey to the end of the
  group, so that none of them may depend on another one.\<close>

lemma choice_good:
  assumes g: "graph_view (c_conf st) = graph_view k0"
    and new: "c \<notin> grey (c_conf st)" "c \<notin> seen (c_conf st)"
    and c: "\<not> has_flag k0 c SYMBOL_CHOICEVAL" "has_flag k0 c SYMBOL_CHOICE"
  shows "post (sym_check_choice_deps cd c st) (good {c} st)"
proof (rule postI)
  fix x assume run: "sym_check_choice_deps cd c st = Some x"
  let ?vs = "values_of k0 c" and ?k = "c_conf st"
  define st0 where "st0 = on_conf (mark_check c \<circ> fold mark_check ?vs) (dep_stack_insert c st)"
  have same: "sym_get_choice_prop ?k = sym_get_choice_prop k0" "choice_list ?k = choice_list k0"
    using graph_view_same [OF g] by simp_all
  from run obtain r1 st1 r2 st2 r3 where
    c1: "sym_check_sym_deps cd c st0 = Some (r1, st1)"
    and c2: "if_none (r1, on_conf (flag_off SYMBOL_CHECK c) st1) (check_values cd ?vs) = Some (r2, st2)"
    and c3: "choice_result (fold (flag_off SYMBOL_CHECK) ?vs (c_conf st2)) c r2 = Some r3"
    and x: "x = (r3, dep_stack_remove (on_conf (fold (flag_off SYMBOL_CHECK) ?vs) st2))"
    by (auto simp: sym_check_choice_deps_def st0_def same values_of_def Let_def elim!: bind_eq_SomeE)
  have g0: "graph_view (c_conf st0) = graph_view k0" by (simp add: st0_def g)
  have w1: "good (dep_refs k0 c) st0 (r1, st1)" by (rule postD [OF sym_deps_good [OF g0] c1])
  let ?st1 = "on_conf (flag_off SYMBOL_CHECK c) st1"
  have g1: "graph_view (c_conf ?st1) = graph_view k0" using w1 by simp
  have w2: "if r1 = None then good (\<Union>v \<in> set ?vs. dep_refs k0 v) ?st1 (r2, st2) else (r2, st2) = (r1, ?st1)"
    using c2 postD [OF values_good [OF g1]] by (auto simp: if_none_def split: option.splits)
  obtain ms1 where ms1: "c_out st1 = c_out st @ ms1" using w1 by (auto simp: walked_def st0_def)
  obtain ms2 where ms2: "c_out st2 = c_out st1 @ ms2"
    using w2 by (auto simp: walked_def split: if_splits)
  have "graph_view (c_conf (snd x)) = graph_view k0"
    using w2 g1 by (auto simp: x split: if_splits)
  moreover have "walked k0 {c} st x"
  proof -
    have "fst x = None \<and> search_inv k0 (c_conf (snd x)) \<and> grey (c_conf (snd x)) = grey ?k \<and>
        seen ?k \<subseteq> seen (c_conf (snd x)) \<and> black ?k \<subseteq> black (c_conf (snd x)) \<and>
        {c} \<subseteq> black (c_conf (snd x))"
      if i: "search_inv k0 ?k" and q: "c_out (snd x) = c_out st"
    proof -
      have choices: "choices_ok k0" and grey_seen: "grey ?k \<subseteq> seen ?k"
        using i by (simp_all add: search_inv_def)
      have vals: "has_flag k0 v SYMBOL_CHOICEVAL \<and> choice_of k0 v = Some c" if "v \<in> set ?vs" for v
        using choices c that by (auto simp: choices_ok_def)
      have quiet: "c_out st1 = c_out st0" "c_out st2 = c_out ?st1"
        using q ms1 ms2 by (simp_all add: x st0_def)
      have cv: "c \<notin> set ?vs" using vals c by blast
      have fresh: "v \<notin> seen ?k" "v \<notin> grey ?k" if "v \<in> set ?vs" for v
        using i vals [OF that] new grey_seen by (auto simp: search_inv_def)
      have m0: "grey (c_conf st0) = insert c (set ?vs \<union> grey ?k)"
        "seen (c_conf st0) = insert c (set ?vs \<union> seen ?k)" by (simp_all add: st0_def)
      have b0: "black (c_conf st0) = black ?k"
        using m0 new fresh by (auto simp: black_def)
      have "v \<in> seen (c_conf st0) \<longleftrightarrow> c' \<in> seen (c_conf st0)"
        if v: "has_flag k0 v SYMBOL_CHOICEVAL" "choice_of k0 v = Some c'" for v c'
      proof -
        have c': "\<not> has_flag k0 c' SYMBOL_CHOICEVAL" "v \<in> set (values_of k0 c')"
          using choices v unfolding choices_ok_def by auto
        then have "c' \<notin> set ?vs" using vals by blast
        moreover have "v \<noteq> c" using v(1) c(1) by blast
        moreover have "c' = c \<longleftrightarrow> v \<in> set ?vs" using c'(2) vals [of v] v(2) by auto
        moreover have "v \<in> seen ?k \<longleftrightarrow> c' \<in> seen ?k" using i v by (simp add: search_inv_def)
        ultimately show ?thesis unfolding m0(2) by blast
      qed
      then have i0: "search_inv k0 (c_conf st0)"
        using i g0 m0 unfolding search_inv_def b0 by blast
      with w1 quiet have r1: "r1 = None" and i1: "search_inv k0 (c_conf st1)"
        and m1: "grey (c_conf st1) = grey (c_conf st0)" "seen (c_conf st0) \<subseteq> seen (c_conf st1)"
          "black (c_conf st0) \<subseteq> black (c_conf st1)" "dep_refs k0 c \<subseteq> black (c_conf st1)"
        by (auto simp: walked_def)
      have i1': "search_inv k0 (c_conf ?st1)"
        by (rule search_inv_add [OF i1, where N = "{c}"])
          (use m0 m1 new cv in \<open>auto simp: black_def\<close>)
      with w2 quiet r1 have r2: "r2 = None" and i2: "search_inv k0 (c_conf st2)"
        and m2: "grey (c_conf st2) = grey (c_conf ?st1)" "seen (c_conf ?st1) \<subseteq> seen (c_conf st2)"
          "black (c_conf ?st1) \<subseteq> black (c_conf st2)"
          "\<forall>v \<in> set ?vs. dep_refs k0 v \<subseteq> black (c_conf st2)"
        by (auto simp: walked_def)
      have "search_inv k0 (c_conf (snd x))"
        by (rule search_inv_add [OF i2, where N = "set ?vs"])
          (use m0 m1 m2 new fresh cv in \<open>auto simp: black_def x\<close>)
      moreover have "r3 = None" using c3 r2 by (simp add: choice_result_def)
      moreover have "grey (c_conf (snd x)) = grey ?k"
        using m0 m1 m2 new fresh cv by (auto simp: x)
      moreover have "seen ?k \<subseteq> seen (c_conf (snd x))" "black ?k \<subseteq> black (c_conf (snd x))"
          "c \<in> black (c_conf (snd x))"
        using m0 m1 m2 new fresh cv b0 by (auto simp: x black_def)
      ultimately show ?thesis by (simp add: x)
    qed
    moreover have "\<exists>ms. c_out (snd x) = c_out st @ ms" using ms1 ms2 by (simp add: x)
    ultimately show ?thesis unfolding walked_def by blast
  qed
  ultimately show "good {c} st x" by simp
qed

lemma step_good:
  assumes g: "graph_view (c_conf st) = graph_view k0"
  shows "post (check_deps_step cd s st) (good {s} st)"
proof -
  note fl = graph_viewD(6,7) [OF g]
  have body: "post (check_deps_body cd s st) (good {s} st)"
    if new: "s \<notin> grey (c_conf st)" "s \<notin> seen (c_conf st)"
  proof (cases "has_flag k0 s SYMBOL_CHOICEVAL")
    case True
    show ?thesis
    proof (rule postI)
      fix x assume "check_deps_body cd s st = Some x"
      with True obtain p c r st1 where p: "sym_get_choice_prop (c_conf st) s = Some p"
          "prop_get_symbol (c_conf st) p = Some c"
        and c: "cd c (dep_stack_insert s st) = Some (r, st1)" and x: "x = (r, dep_stack_remove st1)"
        by (auto simp: check_deps_body_def Let_def fl elim!: bind_eq_SomeE)
      have gd: "good {c} (dep_stack_insert s st) (r, st1)"
        by (rule postD [OF cd_good c]) (simp add: g)
      have co: "choice_of k0 s = Some c"
        using p graph_view_same [OF g] by (simp add: choice_of_def)
      have "s \<in> seen (c_conf st1)" if "search_inv k0 (c_conf st1)" "c \<in> black (c_conf st1)"
        using that co True by (auto simp: search_inv_def black_def)
      with gd new show "good {s} st x" by (auto simp: walked_def x black_def)
    qed
  next
    case False
    with choice_good [OF g new] ordinary_good [OF g new] show ?thesis
      by (simp add: check_deps_body_def Let_def fl)
  qed
  show ?thesis
  proof (rule postI)
    fix x assume x: "check_deps_step cd s st = Some x"
    consider "s \<in> grey (c_conf st)" | "s \<notin> grey (c_conf st)" "s \<in> seen (c_conf st)"
      | "s \<notin> grey (c_conf st)" "s \<notin> seen (c_conf st)" by blast
    then show "good {s} st x"
    proof cases
      case 1
      with x g show ?thesis
        by (auto simp: check_deps_step_def grey_def walked_def dest!: print_recursive_talks)
    next
      case 2
      with x g show ?thesis
        by (auto simp: check_deps_step_def grey_def seen_def walked_def black_def)
    next
      case 3
      then obtain r st1 where b: "check_deps_body cd s st = Some (r, st1)"
          and r: "x = (if r = Some s then None else r, st1)"
        using x by (auto simp: check_deps_step_def grey_def seen_def elim!: bind_eq_SomeE)
      with postD [OF body [OF 3] b] show ?thesis by (auto simp: walked_def)
    qed
  qed
qed

end

lemma sym_check_deps_search: "dep_search k0 (sym_check_deps n)"
proof (induction n)
  case 0
  show ?case by unfold_locales (simp_all add: stays_def post_simps)
next
  case (Suc n)
  show ?case
    by unfold_locales (use dep_search.step_good [OF Suc] in \<open>auto simp: stays_def post_def\<close>)
qed

text \<open>The search of the model, at every depth.\<close>

interpretation deps: dep_search k0 "sym_check_deps n" for k0 n
  by (rule sym_check_deps_search)

lemma check_all_good:
  "check_all n ss errs st = Some (errs', st') \<Longrightarrow> graph_view (c_conf st) = graph_view k0 \<Longrightarrow>
     (\<exists>ms. c_out st' = c_out st @ ms) \<and>
     (search_inv k0 (c_conf st) \<and> c_out st' = c_out st \<longrightarrow> errs' = errs \<and>
        search_inv k0 (c_conf st') \<and> black (c_conf st) \<subseteq> black (c_conf st') \<and>
        set ss \<subseteq> black (c_conf st'))"
proof (induction ss arbitrary: errs st)
  case (Cons s ss)
  from Cons.prems(1) obtain r st1 where s: "sym_check_deps n s st = Some (r, st1)"
    and ss: "check_all n ss (if r = None then errs else errs + 1) st1 = Some (errs', st')"
    by (auto elim!: bind_eq_SomeE)
  have g: "walked k0 {s} st (r, st1)" "graph_view (c_conf st1) = graph_view k0"
    using postD [OF deps.cd_good [OF Cons.prems(2)] s] by simp_all
  from g(1) obtain ms where ms: "c_out st1 = c_out st @ ms" by (auto simp: walked_def)
  from Cons.IH [OF ss g(2)] obtain ns where ns: "c_out st' = c_out st1 @ ns" by blast
  from g(1) Cons.IH [OF ss g(2)] ms ns show ?case by (auto simp: walked_def)
qed simp

section \<open>The search ends\<close>

text \<open>A finite set of symbols that holds what it refers to, whose symbols can be named in a
  message: each has a property, with its file, and choices and their values have a menu.\<close>

definition printable :: "kconf \<Rightarrow> sym \<Rightarrow> bool" where
  "printable k s \<longleftrightarrow> s_prop (k_sym k s) \<noteq> [] \<and>
     (\<forall>p \<in> set (s_prop (k_sym k s)). p_file (k_prop k p) \<noteq> None) \<and>
     (has_flag k s SYMBOL_CHOICE \<or> has_flag k s SYMBOL_CHOICEVAL \<longrightarrow>
        (\<exists>p m. find_menu k None (s_prop (k_sym k s)) = (Some p, Some m) \<and> m_file (k_menu k m) \<noteq> None))"

definition closed_graph :: "kconf \<Rightarrow> sym set \<Rightarrow> bool" where
  "closed_graph k U \<longleftrightarrow> finite U \<and> choices_ok k \<and> (\<forall>s \<in> U. dep_refs k s \<subseteq> U \<and> printable k s \<and>
     set (values_of k s) \<subseteq> U \<and> (\<forall>c. has_flag k s SYMBOL_CHOICEVAL \<longrightarrow> choice_of k s = Some c \<longrightarrow> c \<in> U))"

definition stack_ok :: "kconf \<Rightarrow> sym set \<Rightarrow> dep_frame list \<Rightarrow> bool" where
  "stack_ok k U ds \<longleftrightarrow> (\<forall>d \<in> set ds. d_sym d \<in> U \<and>
     (\<forall>p. d_prop d = Some p \<longrightarrow> p \<in> set (s_prop (k_sym k (d_sym d)))))"

text \<open>The grey symbols are on the stack, values of a choice by their choice.\<close>

definition stands_for :: "kconf \<Rightarrow> sym \<Rightarrow> sym" where
  "stands_for k s = (if has_flag k s SYMBOL_CHOICEVAL then the (choice_of k s) else s)"

definition on_stack :: "kconf \<Rightarrow> chk \<Rightarrow> bool" where
  "on_stack k st \<longleftrightarrow> (\<forall>s \<in> grey (c_conf st). stands_for k s \<in> d_sym ` set (c_stack st))"

definition ready :: "kconf \<Rightarrow> sym set \<Rightarrow> chk \<Rightarrow> bool" where
  "ready k0 U st \<longleftrightarrow> graph_view (c_conf st) = graph_view k0 \<and> stack_ok k0 U (c_stack st) \<and> on_stack k0 st \<and>
     stands_for k0 ` grey (c_conf st) \<subseteq> seen (c_conf st)"

definition fuel_need :: "sym set \<Rightarrow> chk \<Rightarrow> nat" where
  "fuel_need U st = 2 * card (U - seen (c_conf st))"

text \<open>What a call leaves behind.\<close>

definition came_back :: "kconf \<Rightarrow> sym set \<Rightarrow> chk \<Rightarrow> sym option \<times> chk \<Rightarrow> bool" where
  "came_back k0 U st x \<longleftrightarrow> graph_view (c_conf (snd x)) = graph_view k0 \<and> c_stack (snd x) = c_stack st \<and>
     grey (c_conf (snd x)) = grey (c_conf st) \<and> seen (c_conf st) \<subseteq> seen (c_conf (snd x)) \<and>
     (\<forall>s. fst x = Some s \<longrightarrow> s \<in> U)"

lemma back_trans: "came_back k0 U st (r, st1) \<Longrightarrow> came_back k0 U st1 x \<Longrightarrow> came_back k0 U st x"
  by (auto simp: came_back_def)

lemma back_ready: "ready k0 U st \<Longrightarrow> came_back k0 U st (r, st1) \<Longrightarrow> ready k0 U st1"
  by (auto simp: ready_def came_back_def on_stack_def)

lemma back_todo: "finite U \<Longrightarrow> came_back k0 U st (r, st1) \<Longrightarrow> fuel_need U st1 \<le> fuel_need U st"
  by (auto simp: fuel_need_def came_back_def intro!: card_mono)

lemma returns_if_none:
  assumes "returns m (came_back k0 U st)"
    and "\<And>st1. came_back k0 U st (None, st1) \<Longrightarrow> returns (f st1) (came_back k0 U st1)"
  shows "returns (do { x \<leftarrow> m; if_none x f }) (came_back k0 U st)"
proof -
  obtain r st1 where m: "m = Some (r, st1)" "came_back k0 U st (r, st1)"
    using assms(1) by (auto simp: returns_def)
  show ?thesis
  proof (cases r)
    case None
    with m assms(2) have "returns (f st1) (came_back k0 U st1)" by simp
    with None m show ?thesis by (auto simp: if_none_def elim!: returns_mono intro: back_trans)
  qed (use m in \<open>simp add: if_none_def returns_def\<close>)
qed

lemma find_menu_file: "find_menu k mo ps = (Some p, x) \<Longrightarrow> p \<in> set ps"
  by (induction ps arbitrary: mo) (auto split: option.splits)

lemma find_menu_indep: "ps \<noteq> [] \<Longrightarrow> find_menu k mo ps = find_menu k None ps"
  by (cases ps) (auto split: option.split)

lemma find_menu_graph:
  assumes "graph_view k' = graph_view k"
  shows "find_menu k' mo ps = find_menu k mo ps"
  by (induction ps arbitrary: mo) (auto simp: graph_viewD(4) [OF assms] split: option.split)

lemma print_frames_returns:
  "\<forall>d \<in> set ds. printable k (d_sym d) \<and>
     (\<forall>p. d_prop d = Some p \<longrightarrow> p \<in> set (s_prop (k_sym k (d_sym d)))) \<Longrightarrow>
   print_frames k lst menu ds \<noteq> None"
proof (induction ds arbitrary: menu)
  case (Cons d ds)
  let ?s = "d_sym d" and ?ps = "s_prop (k_sym k (d_sym d))"
  let ?grp = "has_flag k ?s SYMBOL_CHOICE \<or> has_flag k ?s SYMBOL_CHOICEVAL"
  have pr: "printable k ?s" using Cons.prems by simp
  obtain po menu' where pm: "(if ?grp then find_menu k menu ?ps else
      (case d_prop d of None \<Rightarrow> first_of ?ps | Some p \<Rightarrow> Some p, menu)) = (po, menu')"
    by (cases "if ?grp then find_menu k menu ?ps else
      (case d_prop d of None \<Rightarrow> first_of ?ps | Some p \<Rightarrow> Some p, menu)")
  have grp: "\<exists>m. menu' = Some m \<and> m_file (k_menu k m) \<noteq> None" if ?grp
    using pm that pr find_menu_indep [of ?ps k menu] by (auto simp: printable_def)
  have "\<exists>p. po = Some p \<and> p \<in> set ?ps"
  proof (cases ?grp)
    case True
    with pm pr find_menu_indep [of ?ps k menu] show ?thesis
      by (auto simp: printable_def dest: find_menu_file)
  next
    case False
    show ?thesis
    proof (cases "d_prop d")
      case None
      with pm pr False show ?thesis by (cases ?ps) (auto simp: printable_def first_of_def)
    next
      case (Some q)
      then have "q \<in> set ?ps" using Cons.prems by (metis list.set_intros(1))
      moreover have "po = Some q" using pm False Some by simp
      ultimately show ?thesis by blast
    qed
  qed
  then obtain p f where p: "po = Some p" "p_file (k_prop k p) = Some f"
    using pr by (auto simp: printable_def)
  from p have at: "at_prop k po x = Some (At f (p_lineno (k_prop k p)) x)" for x
    by (simp add: at_prop_def)
  have "frame_msg k d y po menu' \<noteq> None" for y
    using grp at by (auto simp: frame_msg_def Let_def at_menu_def)
  then obtain m where "frame_msg k d (case ds of [] \<Rightarrow> lst | e # _ \<Rightarrow> d_sym e) po menu' = Some m"
    by blast
  moreover obtain ms where "print_frames k lst menu' ds = Some ms" using Cons by fastforce
  moreover have "(let po = (case d_prop d of None \<Rightarrow> first_of ?ps | Some p \<Rightarrow> Some p)
      in if ?grp then find_menu k menu ?ps else (po, menu)) = (po, menu')"
    using pm by simp
  ultimately show ?case
    by (simp add: Let_def at)
qed simp

lemma print_recursive_returns:
  assumes cl: "closed_graph k0 U" and r: "ready k0 U st" and s: "s \<in> grey (c_conf st)" "s \<in> U"
  shows "returns (sym_check_print_recursive s st) (\<lambda>st'. came_back k0 U st (Some s, st'))"
proof -
  let ?k = "c_conf st" and ?cv = "has_flag k0 s SYMBOL_CHOICEVAL"
  let ?st1 = "if ?cv then dep_stack_insert s st else st"
  have g: "graph_view ?k = graph_view k0" using r by (simp add: ready_def)
  obtain lst where lst: "(if ?cv then choice_of k0 s else Some s) = Some lst"
      "lst \<in> d_sym ` set (c_stack st)"
  proof -
    have st: "stands_for k0 s \<in> d_sym ` set (c_stack st)"
      using r s(1) by (simp add: ready_def on_stack_def)
    have "?cv \<Longrightarrow> \<exists>c. choice_of k0 s = Some c"
      using cl by (auto simp: closed_graph_def choices_ok_def)
    with st that show ?thesis by (cases ?cv) (auto simp: stands_for_def)
  qed
  let ?top = "takeWhile (\<lambda>d. d_sym d \<noteq> lst) (c_stack ?st1)"
  have "dropWhile (\<lambda>d. d_sym d \<noteq> lst) (c_stack ?st1) \<noteq> []"
    using lst(2) by (auto simp: dropWhile_eq_Nil_conv dep_stack_insert_def)
  then obtain d ds' where d: "dropWhile (\<lambda>d. d_sym d \<noteq> lst) (c_stack ?st1) = d # ds'"
    by (auto simp only: neq_Nil_conv)
  then have "set (c_stack ?st1) = set (?top @ d # ds')" by (metis takeWhile_dropWhile_id)
  then have ds: "frames_from (Some lst) (c_stack ?st1) = Some (d # rev ?top)"
      "set (d # rev ?top) \<subseteq> set (c_stack ?st1)"
    unfolding frames_from_def by (auto simp only: d option.case list.case set_append) auto
  have pr: "printable ?k x = printable k0 x" for x
    using graph_viewD [OF g] by (simp add: printable_def find_menu_graph [OF g])
  have "\<forall>d \<in> set (d # rev ?top). printable ?k (d_sym d) \<and>
      (\<forall>p. d_prop d = Some p \<longrightarrow> p \<in> set (s_prop (k_sym ?k (d_sym d))))"
    using ds(2) r cl s(2) unfolding pr graph_viewD [OF g] ready_def stack_ok_def closed_graph_def
    by (auto simp: dep_stack_insert_def split: if_splits)
  from print_frames_returns [OF this] obtain ms where ms: "print_frames ?k lst None (d # rev ?top) = Some ms" by blast
  have "sym_check_print_recursive s st =
      Some (fold say ms (if ?cv then dep_stack_remove ?st1 else st))"
  proof (cases ?cv)
    case True
    then obtain p where "sym_get_choice_prop k0 s = Some p" "prop_get_symbol k0 p = Some lst"
      using lst(1) by (auto simp: choice_of_def elim!: bind_eq_SomeE)
    with True ds(1) ms show ?thesis
      by (simp add: sym_check_print_recursive_def Let_def graph_viewD(7) [OF g] graph_view_same [OF g])
  next
    case False
    with lst(1) ds(1) ms show ?thesis
      by (simp add: sym_check_print_recursive_def Let_def graph_viewD(7) [OF g])
  qed
  then show ?thesis
    using g s(2) by (simp add: returns_def came_back_def dep_stack_insert_def dep_stack_remove_def)
qed

text \<open>Below, the frame of the symbol is on top and its properties are visited.\<close>

definition visiting :: "kconf \<Rightarrow> sym set \<Rightarrow> sym \<Rightarrow> chk \<Rightarrow> chk \<Rightarrow> bool" where
  "visiting k0 U s st0 st \<longleftrightarrow> ready k0 U st \<and> (\<exists>d. c_stack st = d # c_stack st0 \<and> d_sym d = s) \<and>
     grey (c_conf st) = grey (c_conf st0) \<and> seen (c_conf st0) \<subseteq> seen (c_conf st)"

lemma on_top_syms:
  "(\<And>d. d_sym (f d) = d_sym d) \<Longrightarrow> d_sym ` set (c_stack (on_top f st)) = d_sym ` set (c_stack st)"
  by (cases "c_stack st") (simp_all add: on_top_def)

lemma visiting_on_top:
  "visiting k0 U s st0 st \<Longrightarrow> p \<in> set (s_prop (k_sym k0 s)) \<Longrightarrow>
     visiting k0 U s st0 (on_top (d_prop_update (\<lambda>_. Some p)) st)"
  "visiting k0 U s st0 st \<Longrightarrow> visiting k0 U s st0 (on_top (d_expr_update (\<lambda>_. e)) st)"
  by (auto simp: visiting_def ready_def on_stack_def stack_ok_def on_top_syms)
    (auto simp: on_top_def)

lemma visiting_graph:
  assumes "visiting k0 U s st0 st"
  shows "k_prop (c_conf st) = k_prop k0" "s_prop (k_sym (c_conf st) t) = s_prop (k_sym k0 t)"
    "s_rev_dep (k_sym (c_conf st) t) = s_rev_dep (k_sym k0 t)"
    "has_flag (c_conf st) t SYMBOL_CHOICE = has_flag k0 t SYMBOL_CHOICE"
proof -
  have g: "graph_view (c_conf st) = graph_view k0" using assms by (simp add: visiting_def ready_def)
  show "k_prop (c_conf st) = k_prop k0" "s_prop (k_sym (c_conf st) t) = s_prop (k_sym k0 t)"
    "s_rev_dep (k_sym (c_conf st) t) = s_rev_dep (k_sym k0 t)"
    "has_flag (c_conf st) t SYMBOL_CHOICE = has_flag k0 t SYMBOL_CHOICE"
    by (simp_all add: graph_viewD [OF g])
qed

lemma visiting_back:
  "visiting k0 U s st0 st \<Longrightarrow> came_back k0 U st (r, st1) \<Longrightarrow> visiting k0 U s st0 st1"
  by (auto simp: visiting_def intro: back_ready) (auto simp: came_back_def)

definition left_symbol :: "kconf \<Rightarrow> sym set \<Rightarrow> sym \<Rightarrow> chk \<Rightarrow> sym option \<times> chk \<Rightarrow> bool" where
  "left_symbol k0 U s st0 x \<longleftrightarrow> visiting k0 U s st0 (snd x) \<and> (\<forall>t. fst x = Some t \<longrightarrow> t \<in> U)"

lemma visit_if_none:
  assumes "returns m (came_back k0 U st)" "visiting k0 U s st0 st"
    and "\<And>st1. visiting k0 U s st0 st1 \<Longrightarrow> returns (f st1) (left_symbol k0 U s st0)"
  shows "returns (do { x \<leftarrow> m; if_none x f }) (left_symbol k0 U s st0)"
proof -
  obtain r st1 where m: "m = Some (r, st1)" and b: "came_back k0 U st (r, st1)"
    using assms(1) by (auto simp: returns_def)
  from visiting_back [OF assms(2) b] have v: "visiting k0 U s st0 st1" .
  show ?thesis
  proof (cases r)
    case None
    with m assms(3) [OF v] show ?thesis by (simp add: if_none_def)
  next
    case (Some t)
    with m b v show ?thesis by (simp add: if_none_def left_symbol_def came_back_def returns_def)
  qed
qed

locale dep_returns =
  fixes k0 :: kconf and U :: "sym set" and m :: nat and cd :: check
  assumes cd_returns: "closed_graph k0 U \<Longrightarrow> ready k0 U st \<Longrightarrow> s \<in> U \<Longrightarrow>
      fuel_need U st + (if has_flag k0 s SYMBOL_CHOICEVAL then 1 else 0) \<le> m \<Longrightarrow>
      returns (cd s st) (came_back k0 U st)"
begin

definition enough :: "chk \<Rightarrow> bool" where
  "enough st \<longleftrightarrow> closed_graph k0 U \<and> ready k0 U st \<and> fuel_need U st < m"

lemma enough_back: "enough st \<Longrightarrow> came_back k0 U st (r, st1) \<Longrightarrow> enough st1"
  using back_ready back_todo unfolding enough_def closed_graph_def by (meson order.strict_trans1)

lemma call_returns: "enough st \<Longrightarrow> s \<in> U \<Longrightarrow> returns (cd s st) (came_back k0 U st)"
  by (rule cd_returns) (auto simp: enough_def)

lemma came_back_refl: "enough st \<Longrightarrow> came_back k0 U st (None, st)"
  by (simp add: enough_def came_back_def ready_def)

lemma expr1_returns:
  "enough st \<Longrightarrow> expr_refs e \<subseteq> U \<Longrightarrow> returns (sym_check_expr1 cd e st) (came_back k0 U st)"
proof (induction e arbitrary: st)
  case (e_or l r)
  then show ?case
    by (simp only: sym_check_expr1.simps) (rule returns_if_none, auto intro: enough_back)
next
  case (e_and l r)
  then show ?case
    by (simp only: sym_check_expr1.simps) (rule returns_if_none, auto intro: enough_back)
next
  case (e_equal a b)
  then show ?case
    by (simp only: sym_check_expr1.simps)
      (rule returns_if_none [OF call_returns call_returns], auto intro: enough_back)
next
  case (e_unequal a b)
  then show ?case
    by (simp only: sym_check_expr1.simps)
      (rule returns_if_none [OF call_returns call_returns], auto intro: enough_back)
qed (simp_all add: call_returns, auto simp: returns_def came_back_def enough_def ready_def say_def)

lemma expr_returns:
  "enough st \<Longrightarrow> opt_refs e \<subseteq> U \<Longrightarrow> returns (sym_check_expr_deps cd e st) (came_back k0 U st)"
  by (cases e) (auto simp: sym_check_expr_deps_def opt_refs_def expr1_returns came_back_refl post_simps)

lemma visiting_enough:
  "visiting k0 U s st0 st \<Longrightarrow> closed_graph k0 U \<Longrightarrow> fuel_need U st0 < m \<Longrightarrow> enough st"
proof -
  assume v: "visiting k0 U s st0 st" "closed_graph k0 U" "fuel_need U st0 < m"
  then have "fuel_need U st \<le> fuel_need U st0"
    by (auto simp: fuel_need_def visiting_def closed_graph_def intro!: card_mono)
  with v show ?thesis by (simp add: enough_def visiting_def)
qed

lemma props_returns:
  assumes cl: "closed_graph k0 U" "fuel_need U st0 < m" "s \<in> U"
  shows "visiting k0 U s st0 st \<Longrightarrow> set ps \<subseteq> set (s_prop (k_sym k0 s)) \<Longrightarrow>
    returns (check_props cd s ps st) (left_symbol k0 U s st0)"
proof (induction ps arbitrary: st)
  case Nil
  then show ?case by (simp add: returns_def left_symbol_def)
next
  case (Cons p ps)
  note en = visiting_enough [OF _ cl(1,2)]
  have g: "k_prop (c_conf st) = k_prop k0"
    by (rule visiting_graph [OF Cons.prems(1)])
  have refs: "prop_refs k0 s p \<subseteq> U"
  proof -
    have "dep_refs k0 s \<subseteq> U" using cl(1,3) by (simp add: closed_graph_def)
    moreover have "p \<in> set (s_prop (k_sym k0 s))" using Cons.prems(2) by simp
    ultimately show ?thesis unfolding dep_refs_def by blast
  qed
  have IH: "visiting k0 U s st0 st1 \<Longrightarrow> returns (check_props cd s ps st1) (left_symbol k0 U s st0)" for st1
    using Cons.IH Cons.prems(2) by simp
  show ?case
  proof (cases "p_type (k_prop k0 p) = P_CHOICE \<or> p_type (k_prop k0 p) = P_SELECT")
    case True
    with IH [OF Cons.prems(1)] show ?thesis by (simp add: g)
  next
    case False
    have v: "visiting k0 U s st0 (on_top (d_prop_update (\<lambda>_. Some p)) st)"
      using Cons.prems by (intro visiting_on_top) simp_all
    have vis: "opt_refs (ev_expr (p_visible (k_prop k0 p))) \<subseteq> U"
      using refs False by (auto simp: prop_refs_def Let_def)
    have rest: "returns (if p_type (k_prop k0 p) \<noteq> P_DEFAULT \<or> has_flag (c_conf st1) s SYMBOL_CHOICE
          then check_props cd s ps st1
          else do {
            x \<leftarrow> sym_check_expr_deps cd (p_expr (k_prop k0 p))
              (on_top (d_expr_update (\<lambda>_. p_expr (k_prop k0 p))) st1);
            if_none x (\<lambda>st. check_props cd s ps (on_top (d_expr_update (\<lambda>_. None)) st)) })
        (left_symbol k0 U s st0)" if v1: "visiting k0 U s st0 st1" for st1
    proof (cases "p_type (k_prop k0 p) \<noteq> P_DEFAULT \<or> has_flag (c_conf st1) s SYMBOL_CHOICE")
      case True
      with IH [OF v1] show ?thesis by simp
    next
      case dflt: False
      have "has_flag (c_conf st1) s SYMBOL_CHOICE = has_flag k0 s SYMBOL_CHOICE"
        by (rule visiting_graph [OF v1])
      with dflt refs False have de: "opt_refs (p_expr (k_prop k0 p)) \<subseteq> U"
        by (auto simp: prop_refs_def Let_def)
      note v2 = visiting_on_top(2) [OF v1, of "p_expr (k_prop k0 p)"]
      have "returns (check_props cd s ps (on_top (d_expr_update (\<lambda>_. None)) st2))
          (left_symbol k0 U s st0)" if "visiting k0 U s st0 st2" for st2
        by (rule IH) (rule visiting_on_top(2) [OF that])
      from visit_if_none [OF expr_returns [OF en [OF v2] de] v2 this] dflt show ?thesis by simp
    qed
    from visit_if_none [OF expr_returns [OF en [OF v] vis] v rest] False show ?thesis
      by (simp add: g Let_def)
  qed
qed

lemma sym_deps_returns:
  assumes r: "ready k0 U (dep_stack_insert s st)" and s: "s \<in> U"
    and cl: "closed_graph k0 U" "fuel_need U st < m"
  shows "returns (sym_check_sym_deps cd s st) (came_back k0 U st)"
proof -
  let ?st = "dep_stack_insert s st"
  have v: "visiting k0 U s st ?st"
    using r by (simp add: visiting_def dep_stack_insert_def)
  have rev: "opt_refs (ev_expr (s_rev_dep (k_sym (c_conf ?st) s))) \<subseteq> U"
    unfolding visiting_graph(3) [OF v] using cl s by (auto simp: closed_graph_def dep_refs_def)
  have "returns (check_props cd s (s_prop (k_sym (c_conf st1) s)) st1) (left_symbol k0 U s st)"
    if "visiting k0 U s st st1" for st1
    using props_returns [OF cl s that, of "s_prop (k_sym k0 s)"] by (simp add: visiting_graph [OF that])
  from visit_if_none [OF expr_returns [OF visiting_enough [OF v cl] rev] v this]
  obtain r st1 where run: "do {
      x \<leftarrow> sym_check_expr_deps cd (ev_expr (s_rev_dep (k_sym (c_conf ?st) s))) ?st;
      if_none x (\<lambda>st. check_props cd s (s_prop (k_sym (c_conf st) s)) st) } = Some (r, st1)"
    and l: "left_symbol k0 U s st (r, st1)" unfolding returns_def by fast
  have "sym_check_sym_deps cd s st = Some (r, dep_stack_remove st1)"
    using run by (auto simp: sym_check_sym_deps_def elim!: bind_eq_SomeE)
  with l show ?thesis
    by (auto simp: returns_def left_symbol_def visiting_def came_back_def ready_def dep_stack_remove_def)
qed

lemma ready_insert: "ready k0 U st \<Longrightarrow> s \<in> U \<Longrightarrow> ready k0 U (dep_stack_insert s st)"
  by (auto simp: ready_def stack_ok_def on_stack_def dep_stack_insert_def)

lemma values_returns:
  "enough st \<Longrightarrow> set ss \<subseteq> U \<Longrightarrow> returns (check_values cd ss st) (came_back k0 U st)"
proof (induction ss arbitrary: st)
  case (Cons v ss)
  have "returns (sym_check_sym_deps cd v st) (came_back k0 U st)"
    using Cons.prems by (intro sym_deps_returns ready_insert) (auto simp: enough_def)
  moreover have "returns (check_values cd ss st1) (came_back k0 U st1)"
    if "came_back k0 U st (None, st1)" for st1
    using Cons.prems by (intro Cons.IH enough_back [OF _ that]) auto
  ultimately show ?case unfolding check_values.simps by (rule returns_if_none)
qed (simp add: returns_def came_back_refl)

lemma fuel_mark:
  assumes "finite U" "s \<in> U" "s \<notin> seen (c_conf st)" "insert s (seen (c_conf st)) \<subseteq> seen (c_conf st1)"
  shows "fuel_need U st1 + 2 \<le> fuel_need U st"
proof -
  have "U - seen (c_conf st1) \<subset> U - seen (c_conf st)" using assms by blast
  then have "card (U - seen (c_conf st1)) < card (U - seen (c_conf st))"
    using assms(1) by (intro psubset_card_mono) auto
  then show ?thesis by (simp add: fuel_need_def)
qed

lemma ordinary_returns:
  assumes cl: "closed_graph k0 U" and r: "ready k0 U st" and s: "s \<in> U" "s \<notin> seen (c_conf st)"
    "s \<notin> grey (c_conf st)" "\<not> has_flag k0 s SYMBOL_CHOICEVAL" and fuel: "fuel_need U st \<le> Suc m"
  shows "returns (do {
      (s2, st) \<leftarrow> sym_check_sym_deps cd s (on_conf (mark_check s) st);
      Some (s2, on_conf (flag_off SYMBOL_CHECK s) st) }) (came_back k0 U st)"
proof -
  let ?st = "on_conf (mark_check s) st"
  have "fuel_need U ?st + 2 \<le> fuel_need U st"
    using cl s by (intro fuel_mark) (auto simp: closed_graph_def)
  then have f: "fuel_need U ?st < m" using fuel by simp
  have "ready k0 U (dep_stack_insert s ?st)"
    using r s by (auto simp: ready_def on_stack_def stack_ok_def dep_stack_insert_def stands_for_def)
      (auto simp: on_conf_def)
  from sym_deps_returns [OF this s(1) cl f] obtain s2 st1 where
    c: "sym_check_sym_deps cd s ?st = Some (s2, st1)" and b: "came_back k0 U ?st (s2, st1)"
    by (auto simp: returns_def)
  have "came_back k0 U st (s2, on_conf (flag_off SYMBOL_CHECK s) st1)"
    using b s by (auto simp: came_back_def) (simp_all add: on_conf_def)
  with c show ?thesis by (simp add: returns_def)
qed

lemma choice_returns:
  assumes cl: "closed_graph k0 U" and r: "ready k0 U st" and s: "c \<in> U" "c \<notin> seen (c_conf st)"
    "\<not> has_flag k0 c SYMBOL_CHOICEVAL" "has_flag k0 c SYMBOL_CHOICE"
    and fuel: "fuel_need U st \<le> Suc m"
  shows "returns (sym_check_choice_deps cd c st) (came_back k0 U st)"
proof -
  let ?vs = "values_of k0 c"
  have ch: "choices_ok k0" and vsU: "set ?vs \<subseteq> U" using cl s by (auto simp: closed_graph_def)
  then obtain p where p: "sym_get_choice_prop k0 c = Some p" using s by (auto simp: choices_ok_def)
  then have vs: "choice_list k0 p = ?vs" by (simp add: values_of_def)
  have g: "graph_view (c_conf st) = graph_view k0" using r by (simp add: ready_def)
  have vals: "has_flag k0 v SYMBOL_CHOICEVAL \<and> stands_for k0 v = c" if "v \<in> set ?vs" for v
    using ch s that by (auto simp: choices_ok_def stands_for_def)
  have cc: "stands_for k0 c = c" using s by (simp add: stands_for_def)
  have new: "c \<notin> grey (c_conf st)" "set ?vs \<inter> grey (c_conf st) = {}"
    using r s(2) cc vals by (auto simp: ready_def)
  define st0 where "st0 = on_conf (mark_check c \<circ> fold mark_check ?vs) (dep_stack_insert c st)"
  have m0: "grey (c_conf st0) = insert c (set ?vs \<union> grey (c_conf st))"
    "seen (c_conf st0) = insert c (set ?vs \<union> seen (c_conf st))"
    "graph_view (c_conf st0) = graph_view k0"
    "c_stack st0 = \<lparr>d_sym = c, d_prop = None, d_expr = None\<rparr> # c_stack st"
    by (simp_all add: st0_def g) (simp add: on_conf_def dep_stack_insert_def)
  have "fuel_need U st0 + 2 \<le> fuel_need U st"
    using cl s m0 by (intro fuel_mark) (auto simp: closed_graph_def)
  then have f0: "fuel_need U st0 < m" using fuel by simp
  have r0: "ready k0 U st0"
    using r s(1) cc vals by (auto simp: ready_def on_stack_def stack_ok_def m0)
  obtain s1 st1 where c1: "sym_check_sym_deps cd c st0 = Some (s1, st1)"
    and b1: "came_back k0 U st0 (s1, st1)"
    using sym_deps_returns [OF ready_insert [OF r0 s(1)] s(1) cl f0] by (auto simp: returns_def)
  let ?st1 = "on_conf (flag_off SYMBOL_CHECK c) st1"
  have "enough ?st1"
    using back_ready [OF r0 b1] back_todo [OF _ b1] f0 cl
    by (auto simp: enough_def ready_def on_stack_def closed_graph_def fuel_need_def)
      (auto simp: on_conf_def)
  from values_returns [OF this vsU] obtain s2 st2 where
    c2: "if_none (s1, ?st1) (check_values cd ?vs) = Some (s2, st2)"
    and b2: "graph_view (c_conf st2) = graph_view k0" "c_stack st2 = c_stack st0"
      "grey (c_conf st2) = grey (c_conf st0) - {c}" "seen (c_conf st0) \<subseteq> seen (c_conf st2)"
      "\<forall>t. s2 = Some t \<longrightarrow> t \<in> U"
    using b1 by (cases s1) (auto simp: if_none_def returns_def came_back_def on_conf_def)
  let ?st2 = "on_conf (fold (flag_off SYMBOL_CHECK) ?vs) st2"
  have g2: "graph_view (c_conf ?st2) = graph_view k0" using b2 by simp
  obtain s3 where c3: "choice_result (c_conf ?st2) c s2 = Some s3" and u3: "\<forall>t. s3 = Some t \<longrightarrow> t \<in> U"
  proof -
    have "\<exists>q. sym_get_choice_prop k0 t = Some q" if "has_flag k0 t SYMBOL_CHOICEVAL" for t
      using ch that by (fastforce simp: choices_ok_def choice_of_def elim!: bind_eq_SomeE)
    then have "\<exists>s3. choice_result (c_conf ?st2) c s2 = Some s3 \<and> (\<forall>t. s3 = Some t \<longrightarrow> t \<in> U)"
      using b2(5) s(1) unfolding choice_result_def graph_view_same [OF g2] graph_viewD(7) [OF g2]
      by (cases s2) fastforce+
    with that show thesis by blast
  qed
  have run: "sym_check_choice_deps cd c st = Some (s3, dep_stack_remove ?st2)"
    using c1 c2 c3 graph_view_same [OF g] p vs
    by (simp add: sym_check_choice_deps_def st0_def Let_def)
  have "came_back k0 U st (s3, dep_stack_remove ?st2)"
    using b2 u3 m0 new by (auto simp: came_back_def) (auto simp: on_conf_def dep_stack_remove_def)
  with run show ?thesis by (simp add: returns_def)
qed

lemma step_returns:
  assumes cl: "closed_graph k0 U" and r: "ready k0 U st" and s: "s \<in> U"
    and fuel: "fuel_need U st + (if has_flag k0 s SYMBOL_CHOICEVAL then 1 else 0) \<le> Suc m"
  shows "returns (check_deps_step cd s st) (came_back k0 U st)"
proof -
  have g: "graph_view (c_conf st) = graph_view k0" using r by (simp add: ready_def)
  note fl = graph_viewD(6,7) [OF g] and same = graph_view_same [OF g]
  have body: "returns (check_deps_body cd s st) (came_back k0 U st)"
    if new: "s \<notin> seen (c_conf st)" "s \<notin> grey (c_conf st)"
  proof (cases "has_flag k0 s SYMBOL_CHOICEVAL")
    case True
    then obtain c where c0: "choice_of k0 s = Some c" "\<not> has_flag k0 c SYMBOL_CHOICEVAL"
      using cl unfolding closed_graph_def choices_ok_def by blast
    then obtain p where c: "sym_get_choice_prop k0 s = Some p" "prop_get_symbol k0 p = Some c"
        "\<not> has_flag k0 c SYMBOL_CHOICEVAL" "c \<in> U"
      using cl s True by (auto simp: closed_graph_def choice_of_def elim!: bind_eq_SomeE)
    have "returns (cd c (dep_stack_insert s st)) (came_back k0 U (dep_stack_insert s st))"
      using c fuel True by (intro cd_returns cl ready_insert r s) (simp_all add: fuel_need_def)
    with True c show ?thesis
      by (auto simp: check_deps_body_def Let_def fl same returns_def came_back_def
          dep_stack_remove_def dep_stack_insert_def)
  next
    case False
    with fuel choice_returns [OF cl r s new(1)] ordinary_returns [OF cl r s new] show ?thesis
      by (auto simp: check_deps_body_def Let_def fl)
  qed
  show ?thesis
  proof (cases "s \<in> grey (c_conf st)")
    case True
    with print_recursive_returns [OF cl r True s] show ?thesis
      by (auto simp: check_deps_step_def grey_def returns_def)
  next
    case grey: False
    show ?thesis
    proof (cases "s \<in> seen (c_conf st)")
      case True
      with grey g show ?thesis
        by (auto simp: check_deps_step_def grey_def seen_def returns_def came_back_def)
    next
      case False
      with grey body show ?thesis
        by (auto simp: check_deps_step_def grey_def seen_def returns_def came_back_def)
    qed
  qed
qed

end

lemma sym_check_deps_returns: "dep_returns k0 U n (sym_check_deps (Suc n))"
proof (induction n)
  case 0
  have base: "dep_returns k0 U 0 (check_deps_step (sym_check_deps 0))"
  proof
    fix st s
    assume cl: "closed_graph k0 U" and r: "ready k0 U st" and s: "s \<in> U"
      and f: "fuel_need U st + (if has_flag k0 s SYMBOL_CHOICEVAL then 1 else 0) \<le> 0"
    have "s \<in> seen (c_conf st)"
      using cl s f by (auto simp: fuel_need_def closed_graph_def)
    with r print_recursive_returns [OF cl r _ s]
    show "returns (check_deps_step (sym_check_deps 0) s st) (came_back k0 U st)"
      by (auto simp: check_deps_step_def grey_def seen_def returns_def came_back_def ready_def)
  qed
  then show ?case by (simp add: fun_eq_iff [symmetric] sym_check_deps_Suc)
next
  case (Suc n)
  show ?case
    by unfold_locales (use dep_returns.step_returns [OF Suc] in \<open>simp add: sym_check_deps_Suc\<close>)
qed

text \<open>The search of the model, with two units of fuel per symbol.\<close>

interpretation deps_end: dep_returns k0 U n "sym_check_deps (Suc n)" for k0 U n
  by (rule sym_check_deps_returns)

lemma check_all_returns:
  "closed_graph k0 U \<Longrightarrow> ready k0 U st \<Longrightarrow> set ss \<subseteq> U \<Longrightarrow> fuel_need U st + 1 \<le> n \<Longrightarrow>
     \<exists>errs' st'. check_all (Suc n) ss errs st = Some (errs', st')"
proof (induction ss arbitrary: errs st)
  case (Cons s ss)
  have "returns (sym_check_deps (Suc n) s st) (came_back k0 U st)"
    using Cons.prems by (intro deps_end.cd_returns) auto
  then obtain r st1 where s: "sym_check_deps (Suc n) s st = Some (r, st1)"
    and b: "came_back k0 U st (r, st1)" by (auto simp: returns_def)
  have "fuel_need U st1 + 1 \<le> n"
    using back_todo [OF _ b] Cons.prems by (auto simp: closed_graph_def)
  with Cons.IH [OF Cons.prems(1) back_ready [OF Cons.prems(2) b]] Cons.prems(3) s show ?case
    by (simp del: sym_check_deps.simps)
qed simp

text \<open>C21 The check for recursive dependencies: when the search over all symbols prints nothing,
  no symbol depends on itself, directly or through others, neither one of the symbols searched
  nor one they depend on; and no error is counted. Choices and their values are searched as a
  group that was entered through the choice.\<close>

theorem silent_check_acyclic:
  assumes "check_all n ss errs \<lparr>c_conf = k, c_stack = [], c_out = []\<rparr> = Some (errs', st')"
    and "c_out st' = []" "choices_ok k" "seen k = {}" "grey k = {}"
  shows "errs' = errs \<and> (\<forall>s \<in> set ss. \<forall>t. (s, t) \<in> (depends k)\<^sup>* \<longrightarrow> (t, t) \<notin> (depends k)\<^sup>+)"
proof -
  let ?st = "\<lparr>c_conf = k, c_stack = [], c_out = []\<rparr>" and ?B = "black (c_conf st')"
  have "search_inv k (c_conf ?st)"
    using assms(3-) by (simp add: search_inv_def black_def acyclic_def)
  with check_all_good [OF assms(1), of k] assms(2)
  have e: "errs' = errs" and i: "search_inv k (c_conf st')" and ss: "set ss \<subseteq> ?B" by auto
  have closed: "(x, y) \<in> depends k \<Longrightarrow> x \<in> ?B \<Longrightarrow> y \<in> ?B" for x y
    using i by (auto simp: search_inv_def depends_def)
  have reach: "t \<in> ?B" if "(s, t) \<in> (depends k)\<^sup>*" "s \<in> ?B" for s t
    using that by (induction rule: rtrancl_induct) (auto intro: closed)
  have inside: "(s, t) \<in> (depends k \<inter> ?B \<times> UNIV)\<^sup>+" if "(s, t) \<in> (depends k)\<^sup>+" "s \<in> ?B" for s t
    using that
  proof (induction rule: trancl_induct)
    case (step y z)
    then have "y \<in> ?B" using reach by (meson trancl_into_rtrancl)
    with step show ?case by (auto intro: trancl_into_trancl)
  qed auto
  have "acyclic (depends k \<inter> ?B \<times> UNIV)" using i by (simp add: search_inv_def)
  with e ss reach inside show ?thesis unfolding acyclic_def by blast
qed


section \<open>Two small configurations\<close>

text \<open>Four symbols: A is visible if the choice value V is set, B if A is; C is the choice of V.
  In the second configuration A is visible if B is.\<close>

definition dep_property :: "prop_type \<Rightarrow> expr option \<Rightarrow> expr option \<Rightarrow> property" where
  "dep_property ty vis e = null_property\<lparr>p_type := ty, p_visible := \<lparr>ev_expr = vis, ev_tri = tri_no\<rparr>,
     p_expr := e, p_file := Some ''Config.in'', p_lineno := 1, p_menu := Some 0\<rparr>"

fun dep_props :: "sym \<Rightarrow> pid \<Rightarrow> property" where
  "dep_props a p = (if p = 0 then dep_property P_PROMPT (Some (e_symbol a)) None
     else if p = 1 then dep_property P_PROMPT (Some (e_symbol (Sym 0))) None
     else if p = 2 then dep_property P_CHOICE None (Some (e_list None (Sym 3)))
     else dep_property P_CHOICE None (Some (e_symbol (Sym 2))))"

fun dep_symbols :: "sym \<Rightarrow> symbol" where
  "dep_symbols (Sym i) =
     (if i = 0 then (fresh_symbol (Some ''A'') {})\<lparr>s_prop := [0]\<rparr>
      else if i = 1 then (fresh_symbol (Some ''B'') {})\<lparr>s_prop := [1]\<rparr>
      else if i = 2 then (fresh_symbol None {SYMBOL_CHOICE})\<lparr>s_prop := [2]\<rparr>
      else if i = 3 then (fresh_symbol (Some ''V'') {SYMBOL_CHOICEVAL})\<lparr>s_prop := [3]\<rparr>
      else fresh_symbol None {})"
| "dep_symbols s = static_symbols s"

definition dep_conf :: "sym \<Rightarrow> kconf" where
  "dep_conf a = empty_conf\<lparr>k_sym := dep_symbols, k_prop := dep_props a,
     k_menu := (\<lambda>m. (k_menu empty_conf m)\<lparr>m_file := Some ''Config.in''\<rparr>),
     k_all := map Sym [0, 1, 2, 3]\<rparr>"

lemma dep_conf_flags:
  "has_flag (dep_conf a) s SYMBOL_CHOICEVAL \<longleftrightarrow> s = Sym 3"
  "has_flag (dep_conf a) s SYMBOL_CHOICE \<longleftrightarrow> s = Sym 2"
  "\<not> has_flag (dep_conf a) s SYMBOL_CHECK" "\<not> has_flag (dep_conf a) s SYMBOL_CHECKED"
  by (cases s rule: dep_symbols.cases;
      simp add: has_flag_def dep_conf_def fresh_symbol_def static_symbol_simps)+

lemma dep_conf_choices: "choices_ok (dep_conf a)"
proof -
  have "choice_of (dep_conf a) (Sym 3) = Some (Sym 2)" "values_of (dep_conf a) (Sym 2) = [Sym 3]"
      "sym_get_choice_prop (dep_conf a) (Sym 2) = Some 2"
    by (simp_all add: choice_of_def values_of_def sym_get_choice_prop_def for_all_properties_def
        first_of_def dep_conf_def dep_property_def prop_get_symbol_def choice_list_def
        expr_list_for_each_sym_def null_property_def)
  then show ?thesis by (simp add: choices_ok_def dep_conf_flags)
qed

lemma dep_conf_marks: "seen (dep_conf a) = {}" "grey (dep_conf a) = {}"
  by (simp_all add: seen_def grey_def dep_conf_flags)

theorem silent_check_acyclic_witness:
  "(Sym 1, Sym 1) \<notin> (depends (dep_conf (Sym 3)))\<^sup>+"
proof -
  let ?st = "\<lparr>c_conf = dep_conf (Sym 3), c_stack = [], c_out = []\<rparr>"
  have "map_option (\<lambda>(e, st). c_out st) (check_all 5 (map Sym [0, 1, 2, 3]) 0 ?st) = Some []"
    by code_simp
  then obtain e st where "check_all 5 (map Sym [0, 1, 2, 3]) 0 ?st = Some (e, st)" "c_out st = []"
    by auto
  from silent_check_acyclic [OF this dep_conf_choices dep_conf_marks] show ?thesis by auto
qed

lemma dep_conf_closed: "a = Sym 1 \<or> a = Sym 3 \<Longrightarrow> closed_graph (dep_conf a) (set (map Sym [0, 1, 2, 3]))"
  by (auto simp: closed_graph_def dep_conf_choices dep_refs_def prop_refs_def opt_refs_def
      printable_def values_of_def choice_of_def sym_get_choice_prop_def for_all_properties_def
      first_of_def dep_conf_flags)
    (auto simp: dep_conf_def dep_property_def null_property_def fresh_symbol_def null_expr_value_def
      choice_list_def expr_list_for_each_sym_def prop_get_symbol_def has_flag_def opt_refs_def)



end
