(* ===== verification/Confline.thy ===== *)
theory Confline
  imports Symstrings Symset
begin

text \<open>
  The lines of a configuration file (\<^verbatim>\<open>confdata.c\<close>): the buffer that a line is read
  into, the parts of a line, the quoting of strings, and the printers. The prefix CONFIG_, which
  is read from the environment and empty by default in Buildroot, is an argument.
\<close>

section \<open>Reading a line\<close>

text \<open>The buffer is the list of its bytes; \<open>fill\<close> gives the bytes that \<^verbatim>\<open>realloc\<close>
  leaves undefined. An allocation does not fail.\<close>

definition LINE_GROWTH :: nat where "LINE_GROWTH = 16"

abbreviation (input) NUL :: char where "NUL \<equiv> CHR 0x00"
abbreviation (input) LF :: char where "LF \<equiv> CHR 0x0A"
abbreviation (input) CR :: char where "CR \<equiv> CHR 0x0D"
abbreviation (input) QUOTE :: char where "QUOTE \<equiv> CHR 0x22"
abbreviation (input) BACKSLASH :: char where "BACKSLASH \<equiv> CHR 0x5C"

definition add_byte :: "(nat \<Rightarrow> char) \<Rightarrow> char \<Rightarrow> string \<Rightarrow> nat \<Rightarrow> string" where
  "add_byte fill c line slen =
     (let new_size = slen + 1;
          line = (if new_size > length line
                  then line @ map fill [length line..<(new_size + (LINE_GROWTH - 1)) * 2] else line)
      in line[slen := c])"

fun getline_loop :: "(nat \<Rightarrow> char) \<Rightarrow> string \<Rightarrow> nat \<Rightarrow> string \<Rightarrow> string \<times> nat \<times> string" where
  "getline_loop fill line slen [] = (add_byte fill NUL line slen, slen, [])"
| "getline_loop fill line slen (c # stream) =
     (let line = add_byte fill c line slen; slen = slen + 1 in
      if c = LF then (add_byte fill NUL line slen, slen, stream)
      else getline_loop fill line slen stream)"

text \<open>The buffer, the length of the line (\<open>None\<close> for -1) and the rest of the stream.\<close>

definition compat_getline :: "(nat \<Rightarrow> char) \<Rightarrow> string \<Rightarrow> string \<Rightarrow> string \<times> nat option \<times> string" where
  "compat_getline fill line stream = (case getline_loop fill line 0 stream of
     (line, slen, rest) \<Rightarrow> (line, if slen = 0 then None else Some slen, rest))"

lemma add_byte_nth:
  assumes "slen \<le> length line"
  shows "slen < length (add_byte fill c line slen)"
    and "take slen (add_byte fill c line slen) = take slen line"
    and "add_byte fill c line slen ! slen = c"
proof -
  let ?l = "if slen + 1 > length line
    then line @ map fill [length line..<(slen + 1 + (LINE_GROWTH - 1)) * 2] else line"
  have l: "slen < length ?l" "take slen ?l = take slen line" using assms by auto
  then show "slen < length (add_byte fill c line slen)"
    "take slen (add_byte fill c line slen) = take slen line"
    "add_byte fill c line slen ! slen = c"
    unfolding add_byte_def Let_def by simp_all
qed

lemma add_byte_take:
  assumes "slen \<le> length line"
  shows "take (slen + 1) (add_byte fill c line slen) = take slen line @ [c]"
  using add_byte_nth [OF assms] by (simp add: take_Suc_conv_app_nth)

text \<open>A line with its newline, and the rest.\<close>

fun first_line :: "string \<Rightarrow> string \<times> string" where
  "first_line [] = ([], [])"
| "first_line (c # s) = (if c = LF then ([c], s) else (case first_line s of (l, r) \<Rightarrow> (c # l, r)))"

lemma first_line_append: "fst (first_line s) @ snd (first_line s) = s"
  by (induction s) (auto split: prod.splits)

lemma first_line_simp:
  "LF \<notin> set l \<Longrightarrow> first_line (l @ LF # s) = (l @ [LF], s)"
  "LF \<notin> set l \<Longrightarrow> first_line l = (l, [])"
  by (induction l) auto

lemma getline_loop_spec:
  "slen \<le> length line \<Longrightarrow> getline_loop fill line slen stream = (line', n, rest) \<Longrightarrow>
     n = slen + length (fst (first_line stream)) \<and> rest = snd (first_line stream) \<and>
     n < length line' \<and> take (n + 1) line' = take slen line @ fst (first_line stream) @ [NUL]"
proof (induction stream arbitrary: line slen)
  case Nil
  then show ?case using add_byte_nth [of slen line fill NUL] add_byte_take [of slen line fill NUL] by auto
next
  case (Cons c stream)
  let ?l = "add_byte fill c line slen"
  note a = add_byte_nth [OF Cons.prems(1), of fill c] add_byte_take [OF Cons.prems(1), of fill c]
  show ?case
  proof (cases "c = LF")
    case True
    with Cons.prems a add_byte_nth [of "slen + 1" ?l fill NUL] add_byte_take [of "slen + 1" ?l fill NUL]
    show ?thesis by (auto simp: Let_def)
  next
    case False
    with Cons.prems have r: "getline_loop fill ?l (slen + 1) stream = (line', n, rest)"
      by (simp add: Let_def)
    from Cons.IH [OF _ r] False a show ?thesis by (auto split: prod.split)
  qed
qed

section \<open>The parts of a line\<close>

text \<open>The C string at the start of some bytes.\<close>

definition cstr :: "string \<Rightarrow> string" where
  "cstr bytes = takeWhile (\<lambda>c. c \<noteq> NUL) bytes"

definition chomp :: "string \<Rightarrow> string" where
  "chomp p = (let v = takeWhile (\<lambda>c. c \<noteq> LF) p in
     if LF \<in> set p \<and> v \<noteq> [] \<and> last v = CR then butlast v else v)"

datatype conf_line = L_skip | L_unset string | L_value string string | L_junk

text \<open>The tests of the loop of \<^verbatim>\<open>conf_read_simple\<close> on the line and its terminator.
  Behind a line that is only \<^verbatim>\<open>#\<close> the code reads what an earlier line left in the
  buffer: \<open>None\<close>.\<close>

definition parse_line :: "string \<Rightarrow> string \<Rightarrow> conf_line option" where
  "parse_line pre line =
     (if take 1 line = ''#'' then
        (if length line \<le> 2 then None
         else if take (length pre) (drop 2 line) \<noteq> pre then Some L_skip
         else let s = cstr (drop (2 + length pre) line) in
           if CHR '' '' \<notin> set s then Some L_skip
           else let p = tl (dropWhile (\<lambda>c. c \<noteq> CHR '' '') s) in
             if take 10 p \<noteq> ''is not set'' then Some L_skip
             else Some (L_unset (takeWhile (\<lambda>c. c \<noteq> CHR '' '') s)))
      else if take (length pre) line = pre then
        (let s = cstr (drop (length pre) line) in
         if CHR ''='' \<notin> set s then Some L_skip
         else Some (L_value (takeWhile (\<lambda>c. c \<noteq> CHR ''='') s)
                            (chomp (tl (dropWhile (\<lambda>c. c \<noteq> CHR ''='') s)))))
      else Some (if take 1 line \<noteq> [CR] \<and> take 1 line \<noteq> [LF] then L_junk else L_skip))"

section \<open>Quoted strings\<close>

text \<open>The loop over the quotes and backslashes behind the opening quote: a backslash is moved
  over, the next character stays, the closing quote ends the string; \<open>None\<close> when there is
  none.\<close>

function unquote :: "string \<Rightarrow> string option" where
  "unquote p = (case dropWhile (\<lambda>c. \<not> is_special c) p of
     [] \<Rightarrow> None
   | c # q \<Rightarrow> if c = QUOTE then Some (takeWhile (\<lambda>c. \<not> is_special c) p)
       else (case q of [] \<Rightarrow> None
         | d # r \<Rightarrow> map_option (\<lambda>x. takeWhile (\<lambda>c. \<not> is_special c) p @ d # x) (unquote r)))"
  by pat_completeness auto
termination
proof (relation "measure length", goal_cases)
  case (2 p c q d r)
  then show ?case
    using length_dropWhile_le [of "\<lambda>c. \<not> is_special c" p] by simp
qed auto

declare unquote.simps [simp del]

lemma unquote_step:
  "unquote [] = None" "unquote (QUOTE # s) = Some []" "unquote [BACKSLASH] = None"
  "unquote (BACKSLASH # d # s) = map_option (Cons d) (unquote s)"
  by (subst unquote.simps; simp add: is_special_def)+

lemma unquote_plain: "\<not> is_special c \<Longrightarrow> unquote (c # s) = map_option (Cons c) (unquote s)"
proof -
  assume c: "\<not> is_special c"
  show ?thesis
    unfolding unquote.simps [of "c # s"] unquote.simps [of s]
    by (cases "dropWhile (\<lambda>c. \<not> is_special c) s")
      (auto simp: c option.map_comp comp_def simp del: dropWhile_eq_Nil_conv split: list.split)
qed

text \<open>Quoting and reading back, whatever follows the closing quote.\<close>

lemma unquote_escaped: "unquote (escaped v @ QUOTE # rest) = Some v"
proof (induction v)
  case (Cons c v)
  then show ?case
    by (cases "is_special c") (auto simp: escape_char_def is_special_def unquote_step unquote_plain)
qed (simp add: unquote_step)

section \<open>Printers\<close>

definition kconfig_print_symbol :: "string \<Rightarrow> symbol_type \<Rightarrow> string \<Rightarrow> string \<Rightarrow> bool \<Rightarrow> string" where
  "kconfig_print_symbol pre ty name value skip_unset =
     (if (ty = S_BOOLEAN \<or> ty = S_TRISTATE) \<and> take 1 value = ''n'' then
        (if \<not> skip_unset then ''# '' @ pre @ name @ '' is not set'' @ [LF] else [])
      else pre @ name @ ''='' @ value @ [LF])"

text \<open>One comment line for each line of the text (the last one also when it is empty).\<close>

function comment_lines :: "string \<Rightarrow> string \<Rightarrow> string" where
  "comment_lines start p =
     (let l = takeWhile (\<lambda>c. c \<noteq> LF) p;
          out = start @ (if l = [] then [] else CHR '' '' # l) @ [LF]
      in case dropWhile (\<lambda>c. c \<noteq> LF) p of [] \<Rightarrow> out | _ # q \<Rightarrow> out @ comment_lines start q)"
  by pat_completeness auto
termination
proof (relation "measure (\<lambda>(start, p). length p)", goal_cases)
  case (2 start p l out c q)
  then show ?case
    using length_dropWhile_le [of "\<lambda>c. c \<noteq> LF" p] by (metis Suc_le_eq case_prod_conv in_measure length_Cons)
qed auto

declare comment_lines.simps [simp del]

definition kconfig_print_comment :: "string \<Rightarrow> string" where
  "kconfig_print_comment value = comment_lines ''#'' value"

definition header_print_symbol :: "string \<Rightarrow> symbol_type \<Rightarrow> string \<Rightarrow> string \<Rightarrow> string" where
  "header_print_symbol pre ty name value =
     (let out = (\<lambda>suffix pfx v. ''#define '' @ pre @ name @ suffix @ '' '' @ pfx @ v @ [LF]) in
      case ty of
        S_BOOLEAN \<Rightarrow> (if take 1 value = ''n'' then []
                       else out (if take 1 value = ''m'' then ''_MODULE'' else []) [] ''1'')
      | S_TRISTATE \<Rightarrow> (if take 1 value = ''n'' then []
                       else out (if take 1 value = ''m'' then ''_MODULE'' else []) [] ''1'')
      | S_HEX \<Rightarrow> out [] (if take 1 value \<noteq> ''0'' \<or>
            (take 1 (drop 1 value) \<noteq> ''x'' \<and> take 1 (drop 1 value) \<noteq> ''X'') then ''0x'' else []) value
      | S_STRING \<Rightarrow> out [] [] value
      | S_INT \<Rightarrow> out [] [] value
      | _ \<Rightarrow> [])"

definition header_print_comment :: "string \<Rightarrow> string" where
  "header_print_comment value = ''/*'' @ [LF] @ comment_lines '' *'' value @ '' */'' @ [LF]"

definition tristate_print_symbol :: "string \<Rightarrow> symbol_type \<Rightarrow> string \<Rightarrow> string \<Rightarrow> string" where
  "tristate_print_symbol pre ty name value =
     (if ty = S_TRISTATE \<and> take 1 value \<noteq> ''n''
      then pre @ name @ ''='' @ map toupper (take 1 value) @ [LF] else [])"

end
