(* ===== verification/Confread.thy ===== *)
theory Confread
  imports Confline
begin

text \<open>
  Reading a configuration file: \<^verbatim>\<open>conf_read_simple\<close> and \<^verbatim>\<open>conf_read\<close> of
  \<^verbatim>\<open>confdata.c\<close>, with the values of the symbols set line by line and the state of the
  choices kept up to date. Files and the environment are arguments; warnings are collected with
  their line. \<open>None\<close> is a read through NULL, a buffer overrun or out of fuel.
\<close>

section \<open>The reader\<close>

record reader =
  r_tab :: ktab
  r_filename :: string
  r_lineno :: int
  r_warnings :: "(int \<times> string) list"
  r_unsaved :: int
  r_messages :: "string list"

record cenv =
  e_getenv :: "string \<Rightarrow> string option"
  e_fopen :: "string \<Rightarrow> string option"
  e_fill :: "nat \<Rightarrow> char"

definition r_conf :: "reader \<Rightarrow> kconf" where
  "r_conf r = t_conf (r_tab r)"

definition on_kconf :: "(kconf \<Rightarrow> kconf) \<Rightarrow> reader \<Rightarrow> reader" where
  "on_kconf f r = r\<lparr>r_tab := (r_tab r)\<lparr>t_conf := f (t_conf (r_tab r))\<rparr>\<rparr>"

text \<open>The number of warnings is the length of the list.\<close>

definition conf_warning :: "string \<Rightarrow> reader \<Rightarrow> reader" where
  "conf_warning txt r = r\<lparr>r_warnings := r_warnings r @ [(r_lineno r, txt)]\<rparr>"

definition warn_user :: "def_index \<Rightarrow> string \<Rightarrow> reader \<Rightarrow> reader" where
  "warn_user i txt r = (if i \<noteq> S_DEF_AUTO then conf_warning txt r else r)"

definition name_text :: "reader \<Rightarrow> sym \<Rightarrow> string" where
  "name_text r s = (case s_name (k_sym (r_conf r) s) of None \<Rightarrow> ''(null)'' | Some n \<Rightarrow> n)"

text \<open>\<^verbatim>\<open>SYMBOL_DEF << def\<close>\<close>

fun def_flag :: "def_index \<Rightarrow> symbol_flag" where
  "def_flag S_DEF_USER = SYMBOL_DEF_USER"
| "def_flag S_DEF_AUTO = SYMBOL_DEF_AUTO"
| "def_flag S_DEF_DEF3 = SYMBOL_DEF3"
| "def_flag S_DEF_DEF4 = SYMBOL_DEF4"

definition upd_def :: "def_index \<Rightarrow> sym \<Rightarrow> (symbol_value \<Rightarrow> symbol_value) \<Rightarrow> kconf \<Rightarrow> kconf" where
  "upd_def i s f = upd_sym s (s_def_update (\<lambda>D. D(i := f (D i))))"

definition put_tri :: "def_index \<Rightarrow> sym \<Rightarrow> tristate \<Rightarrow> reader \<Rightarrow> reader" where
  "put_tri i s t = on_kconf (flag_on (def_flag i) s \<circ> upd_def i s (sv_tri_update (\<lambda>_. t)))"

definition put_val :: "def_index \<Rightarrow> sym \<Rightarrow> string \<Rightarrow> reader \<Rightarrow> reader" where
  "put_val i s v = on_kconf (flag_on (def_flag i) s \<circ> upd_def i s (sv_val_update (\<lambda>_. VStr v)))"

definition put_type :: "sym \<Rightarrow> symbol_type \<Rightarrow> reader \<Rightarrow> reader" where
  "put_type s ty = on_kconf (upd_sym s (s_type_update (\<lambda>_. ty)))"

section \<open>The value of a line\<close>

definition invalid_value :: "def_index \<Rightarrow> sym \<Rightarrow> string \<Rightarrow> reader \<Rightarrow> bool \<times> reader" where
  "invalid_value i s p r =
     (True, warn_user i (''symbol value '' @ [CHR 0x27] @ p @ [CHR 0x27] @ '' invalid for '' @ name_text r s) r)"

text \<open>The label \<^verbatim>\<open>done\<close>, and the string in quotes before it.\<close>

definition store_value :: "def_index \<Rightarrow> sym \<Rightarrow> string \<Rightarrow> reader \<Rightarrow> bool \<times> reader" where
  "store_value i s p r =
     (if sym_string_valid (s_type (k_sym (r_conf r) s)) p then (False, put_val i s p r)
      else invalid_value i s p r)"

definition store_quoted :: "def_index \<Rightarrow> sym \<Rightarrow> string \<Rightarrow> reader \<Rightarrow> bool \<times> reader" where
  "store_quoted i s p r = (case unquote (tl p) of
     None \<Rightarrow> (True, warn_user i ''invalid string found'' r)
   | Some v \<Rightarrow> store_value i s v r)"

definition store_bool :: "def_index \<Rightarrow> sym \<Rightarrow> string \<Rightarrow> reader \<Rightarrow> bool \<times> reader" where
  "store_bool i s p r =
     (if char_at p 0 = CHR ''y'' then (False, put_tri i s tri_yes r)
      else if char_at p 0 = CHR ''n'' then (False, put_tri i s tri_no r)
      else invalid_value i s p r)"

text \<open>The result is \<^verbatim>\<open>True\<close> for an error.\<close>

definition conf_set_sym_val :: "sym \<Rightarrow> def_index \<Rightarrow> string \<Rightarrow> reader \<Rightarrow> bool \<times> reader" where
  "conf_set_sym_val s i p r = (case s_type (k_sym (r_conf r) s) of
     S_TRISTATE \<Rightarrow> (if char_at p 0 = CHR ''m'' then (False, put_tri i s tri_mod r) else store_bool i s p r)
   | S_BOOLEAN \<Rightarrow> store_bool i s p r
   | S_OTHER \<Rightarrow> (if char_at p 0 \<noteq> QUOTE then store_value i s p (put_type s S_STRING r)
                 else store_quoted i s p r)
   | S_STRING \<Rightarrow> (if char_at p 0 \<noteq> QUOTE then (False, r) else store_quoted i s p r)
   | S_INT \<Rightarrow> store_value i s p r
   | S_HEX \<Rightarrow> store_value i s p r
   | S_UNKNOWN \<Rightarrow> (False, r))"

text \<open>The label \<^verbatim>\<open>setsym\<close>: a value of a choice sets the state of the choice.\<close>

definition set_choice_state :: "def_index \<Rightarrow> sym \<Rightarrow> reader \<Rightarrow> reader option" where
  "set_choice_state i s r =
     (if \<not> has_flag (r_conf r) s SYMBOL_CHOICEVAL then Some r
      else do {
        p \<leftarrow> sym_get_choice_prop (r_conf r) s;
        cs \<leftarrow> prop_get_symbol (r_conf r) p;
        let old = sv_tri (s_def (k_sym (r_conf r) cs) i);
        let r = (case sv_tri (s_def (k_sym (r_conf r) s) i) of
            tri_no \<Rightarrow> r
          | tri_mod \<Rightarrow> (if old = tri_yes
              then on_kconf (flag_off (def_flag i) cs)
                     (conf_warning (name_text r s @ '' creates inconsistent choice state'') r)
              else r)
          | tri_yes \<Rightarrow> on_kconf (upd_def i cs (sv_val_update (\<lambda>_. VSym s)))
              (if old \<noteq> tri_no then conf_warning (''override: '' @ name_text r s @ '' changes choice state'') r
               else r));
        Some (on_kconf (\<lambda>k. upd_def i cs (sv_tri_update
                 (\<lambda>_. EXPR_OR (sv_tri (s_def (k_sym k cs) i)) (sv_tri (s_def (k_sym k s) i)))) k) r) })"

text \<open>The symbol of a line: for the user's values it must exist, otherwise it is allocated, with
  the given type.\<close>

definition line_symbol :: "def_index \<Rightarrow> string \<Rightarrow> symbol_type \<Rightarrow> reader \<Rightarrow> sym option \<times> reader" where
  "line_symbol i name ty r =
     (if i = S_DEF_USER then
        (case sym_find (r_tab r) (Some name) of
           None \<Rightarrow> (None, on_kconf (sym_add_change_count 1) r)
         | Some s \<Rightarrow> (Some s, r))
      else let (s, t) = sym_lookup (Some name) {} (r_tab r); r = r\<lparr>r_tab := t\<rparr>
           in (Some s, if s_type (k_sym (r_conf r) s) = S_UNKNOWN then put_type s ty r else r))"

definition warn_reassign :: "def_index \<Rightarrow> sym \<Rightarrow> reader \<Rightarrow> reader" where
  "warn_reassign i s r = (if has_flag (r_conf r) s (def_flag i)
     then conf_warning (''override: reassigning to symbol '' @ name_text r s) r else r)"

definition handle_line :: "def_index \<Rightarrow> conf_line \<Rightarrow> reader \<Rightarrow> reader option" where
  "handle_line i l r = (case l of
     L_skip \<Rightarrow> Some r
   | L_junk \<Rightarrow> Some (conf_warning ''unexpected data'' r)
   | L_unset name \<Rightarrow> (case line_symbol i name S_BOOLEAN r of
       (None, r) \<Rightarrow> Some r
     | (Some s, r) \<Rightarrow>
         (let r = warn_reassign i s r; ty = s_type (k_sym (r_conf r) s) in
          set_choice_state i s (if ty = S_BOOLEAN \<or> ty = S_TRISTATE then put_tri i s tri_no r else r)))
   | L_value name p \<Rightarrow> (case line_symbol i name S_OTHER r of
       (None, r) \<Rightarrow> Some r
     | (Some s, r) \<Rightarrow> (case conf_set_sym_val s i p (warn_reassign i s r) of
           (True, r) \<Rightarrow> Some r
         | (False, r) \<Rightarrow> set_choice_state i s r)))"

section \<open>\<^verbatim>\<open>conf_read_simple\<close>\<close>

lemma compat_getline_spec:
  assumes "compat_getline fill buf stream = (buf', n, rest)"
  shows "rest = snd (first_line stream)"
    and "n = (if stream = [] then None else Some (length (fst (first_line stream))))"
    and "n = Some m \<Longrightarrow> take (m + 1) buf' = fst (first_line stream) @ [NUL]"
proof -
  obtain l where l: "getline_loop fill buf 0 stream = (buf', l, rest)" "n = (if l = 0 then None else Some l)"
    using assms by (auto simp: compat_getline_def split: prod.splits)
  note g = getline_loop_spec [OF _ l(1)]
  show "rest = snd (first_line stream)" using g by simp
  have "fst (first_line stream) = [] \<longleftrightarrow> stream = []" by (cases stream) (auto split: prod.split)
  then show "n = (if stream = [] then None else Some (length (fst (first_line stream))))"
    using g l(2) by auto
  show "n = Some m \<Longrightarrow> take (m + 1) buf' = fst (first_line stream) @ [NUL]"
    using g l(2) by (auto split: if_splits)
qed

lemma compat_getline_less:
  assumes "compat_getline fill buf stream = (buf', Some n, rest)"
  shows "length rest < length stream"
proof -
  have "length (fst (first_line stream)) + length (snd (first_line stream)) = length stream"
    by (metis first_line_append length_append)
  with compat_getline_spec [OF assms] show ?thesis
    by (cases stream) (auto split: if_splits prod.splits)
qed

text \<open>The loop over the lines, with the buffer it is read into.\<close>

function read_lines :: "string \<Rightarrow> (nat \<Rightarrow> char) \<Rightarrow> def_index \<Rightarrow> string \<Rightarrow> string \<Rightarrow> reader \<Rightarrow> reader option" where
  "read_lines pre fill i buf stream r = (case compat_getline fill buf stream of
     (buf, None, _) \<Rightarrow> Some r
   | (buf, Some slen, rest) \<Rightarrow> do {
       l \<leftarrow> parse_line pre (take (slen + 1) buf);
       r \<leftarrow> handle_line i l (r\<lparr>r_lineno := r_lineno r + 1\<rparr>);
       read_lines pre fill i buf rest r })"
  by pat_completeness auto
termination
  by (relation "measure (\<lambda>(pre, fill, i, buf, stream, r). length stream)")
    (auto dest!: sym [THEN compat_getline_less])

declare read_lines.simps [simp del]

definition reset_symbol :: "def_index \<Rightarrow> sym \<Rightarrow> kconf \<Rightarrow> kconf" where
  "reset_symbol i s k =
     upd_sym s (\<lambda>x. x\<lparr>
       s_flags := (insert SYMBOL_CHANGED (s_flags x) - {def_flag i, SYMBOL_VALID}) \<union>
         (if sym_is_choice x then {def_flag i} else {}),
       s_def := (s_def x)(i := null_value)\<rparr>) k"

definition conf_get_configname :: "cenv \<Rightarrow> string" where
  "conf_get_configname e = (case e_getenv e ''BR2_CONFIG'' of Some n \<Rightarrow> n | None \<Rightarrow> ''.config'')"

definition zconf_fopen :: "cenv \<Rightarrow> string \<Rightarrow> string option" where
  "zconf_fopen e name = (case e_fopen e name of Some f \<Rightarrow> Some f
   | None \<Rightarrow> if take 1 name \<noteq> ''/'' then
       (case e_getenv e ''srctree'' of None \<Rightarrow> None | Some d \<Rightarrow> e_fopen e (d @ ''/'' @ name))
     else None)"

text \<open>The static buffer has SYMBOL_MAXLENGTH characters.\<close>

function expand_conf :: "calc \<Rightarrow> string \<Rightarrow> string \<Rightarrow> ktab \<Rightarrow> (string \<times> ktab) option" where
  "expand_conf cv res inp t = (case dropWhile (\<lambda>c. c \<noteq> CHR ''$'') inp of
     [] \<Rightarrow> map_option (\<lambda>r. (r, t)) (strcat_in SYMBOL_MAXLENGTH res inp)
   | _ # src \<Rightarrow> do {
       res \<leftarrow> strcat_in SYMBOL_MAXLENGTH res (takeWhile (\<lambda>c. c \<noteq> CHR ''$'') inp);
       name \<leftarrow> copy_name src;
       let (s, t) = sym_lookup (Some name) {} t;
       k \<leftarrow> cv s (t_conf t);
       (v, k) \<leftarrow> sym_get_string_value cv s k;
       res \<leftarrow> strcat_in SYMBOL_MAXLENGTH res v;
       expand_conf cv res (dropWhile is_name_char src) (t\<lparr>t_conf := k\<rparr>) })"
  by pat_completeness auto
termination
proof (relation "measure (\<lambda>(cv, res, inp, t). length inp)", goal_cases)
  case (2 cv res inp t c src)
  have "length src < length inp"
    using 2(1) length_dropWhile_le [of "\<lambda>c. c \<noteq> CHR ''$''" inp] by (metis Suc_le_eq length_Cons)
  then show ?case
    using length_dropWhile_le [of is_name_char src] by (auto intro: le_less_trans)
qed auto

declare expand_conf.simps [simp del]

definition conf_expand_value :: "calc \<Rightarrow> string \<Rightarrow> ktab \<Rightarrow> (string \<times> ktab) option" where
  "conf_expand_value cv inp t = expand_conf cv [] inp t"

definition load_file :: "string \<Rightarrow> cenv \<Rightarrow> def_index \<Rightarrow> string \<Rightarrow> string \<Rightarrow> reader \<Rightarrow> reader option" where
  "load_file pre e i name content r =
     (let r = r\<lparr>r_filename := name, r_lineno := 0, r_warnings := [], r_unsaved := 0\<rparr>;
          r = on_kconf (\<lambda>k. fold (reset_symbol i) (for_all_symbols k) k) r
      in read_lines pre (e_fill e) i [] content r)"

text \<open>The first default of the symbol with option defconfig_list whose file can be opened. A
  property without an expression is a read through NULL.\<close>

fun open_default :: "calc \<Rightarrow> cenv \<Rightarrow> pid list \<Rightarrow> reader \<Rightarrow> ((string \<times> string) option \<times> reader) option" where
  "open_default cv e [] r = Some (None, r)"
| "open_default cv e (p # ps) r = do {
     (t, k) \<leftarrow> expr_calc_value cv (ev_expr (p_visible (k_prop (r_conf r) p))) (r_conf r);
     let r = on_kconf (\<lambda>_. k) r;
     if t = tri_no then open_default cv e ps r
     else do {
       x \<leftarrow> p_expr (k_prop (r_conf r) p);
       case x of
         e_symbol s \<Rightarrow> do {
           n \<leftarrow> s_name (k_sym (r_conf r) s);
           (name, t) \<leftarrow> conf_expand_value cv n (r_tab r);
           let r = r\<lparr>r_tab := t\<rparr>;
           case zconf_fopen e name of
             Some content \<Rightarrow> Some (Some (name, content),
               r\<lparr>r_messages := r_messages r @ [''using defaults found in '' @ name]\<rparr>)
           | None \<Rightarrow> open_default cv e ps r }
       | _ \<Rightarrow> open_default cv e ps r } }"

definition calc_modules :: "calc \<Rightarrow> reader \<Rightarrow> reader option" where
  "calc_modules cv r = map_option (\<lambda>k. on_kconf (\<lambda>_. k) r) (calc_opt cv (k_modules_sym (r_conf r)) (r_conf r))"

text \<open>\<open>dl\<close> is \<^verbatim>\<open>sym_defconfig_list\<close>; the result is \<^verbatim>\<open>True\<close> when no file was read.\<close>

definition find_config :: "calc \<Rightarrow> cenv \<Rightarrow> sym option \<Rightarrow> reader \<Rightarrow>
    ((string \<times> string) option \<times> reader) option" where
  "find_config cv e dl r =
     (let name = conf_get_configname e in
      case zconf_fopen e name of
        Some content \<Rightarrow> Some (Some (name, content), r)
      | None \<Rightarrow> (let r = on_kconf (sym_add_change_count 1) r in
          case dl of None \<Rightarrow> map_option (\<lambda>r. (None, r)) (calc_modules cv r)
          | Some d \<Rightarrow> open_default cv e (for_all_properties (r_conf r) d P_DEFAULT) r))"

definition conf_read_simple :: "calc \<Rightarrow> string \<Rightarrow> cenv \<Rightarrow> sym option \<Rightarrow> string option \<Rightarrow> def_index \<Rightarrow>
    reader \<Rightarrow> (bool \<times> reader) option" where
  "conf_read_simple cv pre e dl name i r = do {
     (f, r) \<leftarrow> (case name of
         Some n \<Rightarrow> Some (map_option (\<lambda>c. (n, c)) (zconf_fopen e n), r)
       | None \<Rightarrow> find_config cv e dl r);
     case f of None \<Rightarrow> Some (True, r)
     | Some (n, content) \<Rightarrow> do {
         r \<leftarrow> load_file pre e i n content r;
         r \<leftarrow> calc_modules cv r;
         Some (False, r) } }"

section \<open>\<^verbatim>\<open>conf_read\<close>\<close>

text \<open>Whether the calculated value agrees with the saved one.\<close>

definition value_saved :: "kconf \<Rightarrow> sym \<Rightarrow> bool option" where
  "value_saved k s =
     (let x = k_sym k s in
      if sym_has_value x \<and> SYMBOL_WRITE \<in> s_flags x then
        (if s_type x = S_BOOLEAN \<or> s_type x = S_TRISTATE then
           Some (sv_tri (s_def x S_DEF_USER) = sym_get_tristate_value x)
         else do {
           cur \<leftarrow> cval_string (sv_val (s_curr x));
           def \<leftarrow> cval_string (sv_val (s_def x S_DEF_USER));
           Some (strcmp cur def = 0) })
      else Some (\<not> sym_has_value x \<and> SYMBOL_WRITE \<notin> s_flags x))"

definition check_saved :: "calc \<Rightarrow> sym \<Rightarrow> reader \<Rightarrow> reader option" where
  "check_saved cv s r = do {
     k \<leftarrow> cv s (r_conf r);
     let r = on_kconf (\<lambda>_. k) r;
     if has_flag k s SYMBOL_CHOICE \<or> has_flag k s SYMBOL_AUTO then Some r
     else do {
       ok \<leftarrow> value_saved k s;
       Some (if ok then r else r\<lparr>r_unsaved := r_unsaved r + 1\<rparr>) } }"

definition check_range :: "calc \<Rightarrow> sym \<Rightarrow> reader \<Rightarrow> reader option" where
  "check_range cv s r =
     (let x = k_sym (r_conf r) s in
      if \<not> sym_has_value x \<or> sym_is_choice_value x then Some r
      else
        let r = (if s_visible x = tri_no \<and> r_unsaved r = 0
                 then on_kconf (flag_off SYMBOL_DEF_USER s) r else r) in
        if s_type x \<in> {S_STRING, S_INT, S_HEX} then do {
          def \<leftarrow> cval_string (sv_val (s_def x S_DEF_USER));
          (ok, k) \<leftarrow> sym_string_within_range cv s def (r_conf r);
          let r = on_kconf (\<lambda>_. k) r;
          Some (if ok then r
                else (on_kconf (flag_off SYMBOL_DEF_USER s \<circ> flag_off SYMBOL_VALID s) r)
                       \<lparr>r_unsaved := r_unsaved r + 1\<rparr>) }
        else Some r)"

fun each_symbol :: "(sym \<Rightarrow> 'a \<Rightarrow> 'a option) \<Rightarrow> sym list \<Rightarrow> 'a \<Rightarrow> 'a option" where
  "each_symbol f [] r = Some r"
| "each_symbol f (s # ss) r = do { r \<leftarrow> f s r; each_symbol f ss r }"

definition conf_read :: "calc \<Rightarrow> string \<Rightarrow> cenv \<Rightarrow> sym option \<Rightarrow> string option \<Rightarrow> reader \<Rightarrow>
    (bool \<times> reader) option" where
  "conf_read cv pre e dl name r = do {
     (err, r) \<leftarrow> conf_read_simple cv pre e dl name S_DEF_USER (on_kconf (sym_set_change_count 0) r);
     if err then Some (True, r)
     else do {
       r \<leftarrow> each_symbol (check_saved cv) (for_all_symbols (r_conf r)) r;
       r \<leftarrow> each_symbol (check_range cv) (for_all_symbols (r_conf r)) r;
       Some (False, on_kconf (sym_add_change_count
         (if r_warnings r \<noteq> [] \<or> r_unsaved r \<noteq> 0 then 1 else 0)) r) } }"

section \<open>A file is its lines\<close>

fun file_lines :: "nat \<Rightarrow> string \<Rightarrow> string list" where
  "file_lines 0 s = []"
| "file_lines (Suc n) s = (if s = [] then [] else fst (first_line s) # file_lines n (snd (first_line s)))"

definition lines_of :: "string \<Rightarrow> string list" where
  "lines_of s = file_lines (length s) s"

fun handle_lines :: "string \<Rightarrow> def_index \<Rightarrow> string list \<Rightarrow> reader \<Rightarrow> reader option" where
  "handle_lines pre i [] r = Some r"
| "handle_lines pre i (line # lines) r = do {
     l \<leftarrow> parse_line pre (line @ [NUL]);
     r \<leftarrow> handle_line i l (r\<lparr>r_lineno := r_lineno r + 1\<rparr>);
     handle_lines pre i lines r }"

lemma first_line_less: "s \<noteq> [] \<Longrightarrow> length (snd (first_line s)) < length s"
  by (induction s) (auto split: prod.splits, metis Suc_lessD Suc_less_eq less_SucI list.size(3) snd_conv first_line.simps(1) lessI)

lemma file_lines_enough: "length s \<le> n \<Longrightarrow> file_lines n s = lines_of s"
proof (induction n arbitrary: s rule: less_induct)
  case (less n)
  show ?case
  proof (cases s)
    case Nil
    then show ?thesis by (cases n) (simp_all add: lines_of_def)
  next
    case (Cons c cs)
    let ?r = "snd (first_line s)"
    have r: "length ?r \<le> length cs" using first_line_less [of s] Cons by simp
    obtain m where m: "n = Suc m" using less.prems Cons by (cases n) auto
    have "file_lines m ?r = lines_of ?r" using less m r Cons by simp
    moreover have "file_lines (length cs) ?r = lines_of ?r"
      using less.IH [of "length cs" ?r] less.prems r Cons by simp
    ultimately show ?thesis
      unfolding m lines_of_def [of s] using Cons by simp
  qed
qed

lemma lines_of_step: "s \<noteq> [] \<Longrightarrow> lines_of s = fst (first_line s) # lines_of (snd (first_line s))"
  using file_lines_enough [of "snd (first_line s)" "length s - 1"] first_line_less [of s]
  by (cases s) (simp_all add: lines_of_def)

lemma lines_of_Nil [simp]: "lines_of [] = []"
  by (simp add: lines_of_def)

text \<open>The buffer that grows, and what earlier lines leave in it, has no influence.\<close>

lemma read_lines_eq: "read_lines pre fill i buf stream r = handle_lines pre i (lines_of stream) r"
proof (induction pre fill i buf stream r rule: read_lines.induct)
  case (1 pre fill i buf stream r)
  obtain b n rest where c: "compat_getline fill buf stream = (b, n, rest)"
    by (cases "compat_getline fill buf stream") auto
  note spec = compat_getline_spec [OF c]
  show ?case
  proof (cases "stream = []")
    case True
    with c spec show ?thesis by (subst read_lines.simps) simp
  next
    case False
    then obtain m where n: "n = Some m" using spec(2) by simp
    have t: "take (m + 1) b = fst (first_line stream) @ [NUL]" using spec(3) n by simp
    have step: "read_lines pre fill i buf stream r = do {
        l \<leftarrow> parse_line pre (take (m + 1) b);
        r \<leftarrow> handle_line i l (r\<lparr>r_lineno := r_lineno r + 1\<rparr>);
        read_lines pre fill i b rest r }"
      by (subst read_lines.simps) (simp add: c n)
    show ?thesis
    proof (cases "parse_line pre (fst (first_line stream) @ [NUL])")
      case None
      with t show ?thesis by (simp add: step lines_of_step [OF False])
    next
      case (Some l)
      with 1 c n t show ?thesis
        by (cases "handle_line i l (r\<lparr>r_lineno := r_lineno r + 1\<rparr>)")
          (simp_all add: spec(1) step lines_of_step [OF False])
    qed
  qed
qed

end
