(* ===== verification/Confround.thy ===== *)
theory Confround
  imports Confread
begin

text \<open>
  Writing and reading back: the lines that \<^verbatim>\<open>conf_write_symbol\<close> prints are taken apart
  by the reader into the name and the value they were made from, and a file of such lines gives
  every symbol its value again.
\<close>

section \<open>One line\<close>

definition name_ok :: "string \<Rightarrow> bool" where
  "name_ok n \<longleftrightarrow> set n \<inter> {NUL, LF, CHR '' '', CHR ''=''} = {}"

definition text_ok :: "string \<Rightarrow> bool" where
  "text_ok v \<longleftrightarrow> set v \<inter> {NUL, LF} = {}"

lemma takeWhile_until: "c \<notin> set xs \<Longrightarrow> takeWhile (\<lambda>x. x \<noteq> c) (xs @ c # ys) = xs"
  by (rule takeWhile_append_stop) auto

lemma dropWhile_until: "c \<notin> set xs \<Longrightarrow> dropWhile (\<lambda>x. x \<noteq> c) (xs @ c # ys) = c # ys"
  by (rule dropWhile_append_stop) auto

lemma cstr_until: "NUL \<notin> set s \<Longrightarrow> cstr (s @ [NUL]) = s"
  unfolding cstr_def by (rule takeWhile_until)

lemma chomp_line: "LF \<notin> set v \<Longrightarrow> v = [] \<or> last v \<noteq> CR \<Longrightarrow> chomp (v @ [LF]) = v"
  by (auto simp: chomp_def takeWhile_until Let_def)

lemma parse_unset:
  assumes "name_ok name" "NUL \<notin> set pre"
  shows "parse_line pre ((''# '' @ pre @ name @ '' is not set'' @ [LF]) @ [NUL]) = Some (L_unset name)"
proof -
  let ?rest = "name @ CHR '' '' # (''is not set'' @ [LF])"
  have l: "(''# '' @ pre @ name @ '' is not set'' @ [LF]) @ [NUL] = ''# '' @ pre @ (?rest @ [NUL])"
    by simp
  have n: "CHR '' '' \<notin> set name" "NUL \<notin> set name" using assms(1) by (auto simp: name_ok_def)
  have c: "cstr (?rest @ [NUL]) = ?rest" by (rule cstr_until) (use n in simp)
  have d: "drop (2 + length pre) (''# '' @ pre @ (?rest @ [NUL])) = ?rest @ [NUL]" by simp
  show ?thesis
    unfolding l parse_line_def d c using n
    by (simp add: takeWhile_until dropWhile_until)
qed

lemma parse_value:
  assumes "name_ok name" "NUL \<notin> set v" "LF \<notin> set v" "v = [] \<or> last v \<noteq> CR" "take 1 (pre @ name) \<noteq> ''#''"
  shows "parse_line pre ((pre @ name @ ''='' @ v @ [LF]) @ [NUL]) = Some (L_value name v)"
proof -
  let ?rest = "name @ CHR ''='' # (v @ [LF])"
  have l: "(pre @ name @ ''='' @ v @ [LF]) @ [NUL] = pre @ (?rest @ [NUL])" by simp
  have n: "CHR ''='' \<notin> set name" "NUL \<notin> set name" using assms(1) by (auto simp: name_ok_def)
  have c: "cstr (?rest @ [NUL]) = ?rest" by (rule cstr_until) (use n assms in simp)
  have h: "take 1 (pre @ ?rest @ [NUL]) \<noteq> ''#''"
    using assms(5) by (cases pre; cases name) auto
  show ?thesis
    unfolding l parse_line_def using h n c chomp_line [OF assms(3,4)]
    by (simp add: takeWhile_until dropWhile_until del: append_assoc append_Cons)
qed

section \<open>Values\<close>

datatype saved = SavedTri tristate | SavedStr string

fun saved_text :: "symbol_type \<Rightarrow> saved \<Rightarrow> string" where
  "saved_text ty (SavedTri t) = tri_string t"
| "saved_text ty (SavedStr v) = (if ty = S_STRING then QUOTE # escaped v @ [QUOTE] else v)"

fun fits :: "symbol_type \<Rightarrow> saved \<Rightarrow> bool" where
  "fits S_BOOLEAN (SavedTri t) \<longleftrightarrow> t \<noteq> tri_mod"
| "fits S_TRISTATE (SavedTri t) \<longleftrightarrow> True"
| "fits S_INT (SavedStr v) \<longleftrightarrow> sym_string_valid S_INT v"
| "fits S_HEX (SavedStr v) \<longleftrightarrow> sym_string_valid S_HEX v"
| "fits S_STRING (SavedStr v) \<longleftrightarrow> text_ok v"
| "fits _ _ \<longleftrightarrow> False"

fun holds :: "def_index \<Rightarrow> symbol \<Rightarrow> saved \<Rightarrow> bool" where
  "holds i x (SavedTri t) \<longleftrightarrow> sv_tri (s_def x i) = t \<and> def_flag i \<in> s_flags x"
| "holds i x (SavedStr v) \<longleftrightarrow> sv_val (s_def x i) = VStr v \<and> def_flag i \<in> s_flags x"

lemma valid_digits_set: "valid_digits v \<Longrightarrow> c \<in> set v \<Longrightarrow> isdigit c"
  by (induction v) auto

lemma valid_xdigits_set: "valid_xdigits v \<Longrightarrow> c \<in> set v \<Longrightarrow> isxdigit c"
  by (induction v) auto

lemma digit_plain: "\<not> isdigit NUL" "\<not> isdigit LF" "\<not> isdigit CR" "\<not> isxdigit NUL" "\<not> isxdigit LF"
    "\<not> isxdigit CR"
  by (simp_all add: isdigit_def isxdigit_def code_def)

definition number_chars :: "char set" where
  "number_chars = {c. isxdigit c \<or> c = CHR ''-'' \<or> c = CHR ''x'' \<or> c = CHR ''X''}"

lemma int_valid_set: "int_valid v \<Longrightarrow> v \<noteq> [] \<and> set v \<subseteq> number_chars"
  by (auto simp: int_valid_def number_chars_def isxdigit_def char_at_def dest: valid_digits_set
      split: list.splits if_splits) (cases v; auto dest: valid_digits_set)+

lemma hex_valid_set: "hex_valid v \<Longrightarrow> v \<noteq> [] \<and> set v \<subseteq> number_chars"
proof -
  assume h: "hex_valid v"
  have "set (drop 2 v) \<subseteq> number_chars" if "hex_prefix v"
    using h that by (auto simp: hex_valid_def number_chars_def dest: valid_xdigits_set split: list.splits)
  moreover have "set v \<subseteq> number_chars" if "\<not> hex_prefix v"
    using h that by (auto simp: hex_valid_def number_chars_def dest: valid_xdigits_set split: list.splits)
  moreover have "\<exists>a b. v = a # b # drop 2 v \<and> a \<in> number_chars \<and> b \<in> number_chars" if "hex_prefix v"
    using that by (cases v; cases "tl v")
      (auto simp: hex_prefix_def char_at_def number_chars_def isxdigit_def isdigit_def code_def)
  ultimately have "set v \<subseteq> number_chars"
    by (cases "hex_prefix v") (auto, metis insert_iff list.simps(15) subsetD)
  with h show ?thesis by (cases v) (auto simp: hex_valid_def split: if_splits)
qed

lemma number_chars_plain: "c \<in> number_chars \<Longrightarrow> c \<noteq> NUL \<and> c \<noteq> LF \<and> c \<noteq> CR"
  using digit_plain by (auto simp: number_chars_def)

lemma escaped_set: "c \<in> set (escaped v) \<Longrightarrow> c \<in> set v \<or> c = BACKSLASH"
  by (induction v) (auto simp: escape_char_def split: if_splits)

lemma saved_text_plain:
  assumes "fits ty sv"
  shows "NUL \<notin> set (saved_text ty sv) \<and> LF \<notin> set (saved_text ty sv) \<and>
    saved_text ty sv \<noteq> [] \<and> last (saved_text ty sv) \<noteq> CR"
proof -
  have num: "v \<noteq> [] \<and> set v \<subseteq> number_chars \<Longrightarrow> NUL \<notin> set v \<and> LF \<notin> set v \<and> v \<noteq> [] \<and> last v \<noteq> CR" for v
    using number_chars_plain last_in_set [of v] by blast
  show ?thesis
    using assms
  proof (cases "(ty, sv)" rule: fits.cases)
    case (1 t)
    then show ?thesis by (cases t) auto
  next
    case (2 t)
    then show ?thesis by (cases t) auto
  next
    case (3 v)
    with assms int_valid_set num show ?thesis by (auto simp: sym_string_valid_def)
  next
    case (4 v)
    with assms hex_valid_set num show ?thesis by (auto simp: sym_string_valid_def)
  next
    case (5 v)
    with assms show ?thesis by (auto simp: text_ok_def dest: escaped_set)
  qed auto
qed

text \<open>What the reader makes of a printed line.\<close>

definition line_of :: "string \<Rightarrow> saved \<Rightarrow> symbol_type \<Rightarrow> conf_line" where
  "line_of name sv ty = (if sv = SavedTri tri_no then L_unset name else L_value name (saved_text ty sv))"

lemma parse_printed:
  assumes "name_ok name" "NUL \<notin> set pre" "take 1 (pre @ name) \<noteq> ''#''" "fits ty sv"
  shows "parse_line pre (kconfig_print_symbol pre ty name (saved_text ty sv) False @ [NUL]) =
    Some (line_of name sv ty)"
proof -
  have n: "take 1 (saved_text ty sv) = ''n'' \<and> (ty = S_BOOLEAN \<or> ty = S_TRISTATE) \<longleftrightarrow> sv = SavedTri tri_no"
  proof (cases sv)
    case (SavedTri t)
    with assms(4) show ?thesis by (cases t; cases ty) auto
  next
    case (SavedStr v)
    with assms(4) show ?thesis by (cases ty) auto
  qed
  show ?thesis
    using n parse_unset [OF assms(1,2)] parse_value [OF assms(1) _ _ _ assms(3), of "saved_text ty sv"]
      saved_text_plain [OF assms(4)]
    by (auto simp: kconfig_print_symbol_def line_of_def)
qed

section \<open>One line read\<close>

text \<open>What reading never changes.\<close>

definition read_frame :: "def_index \<Rightarrow> reader \<Rightarrow> reader \<Rightarrow> bool" where
  "read_frame i r r' \<longleftrightarrow> t_hash (r_tab r') = t_hash (r_tab r) \<and> k_prop (r_conf r') = k_prop (r_conf r) \<and>
     (\<forall>x. let a = k_sym (r_conf r) x; b = k_sym (r_conf r') x in
        s_name b = s_name a \<and> s_type b = s_type a \<and> s_prop b = s_prop a \<and>
        s_flags b - {def_flag i} = s_flags a - {def_flag i})"

lemma read_frame_refl [simp]: "read_frame i r r"
  by (simp add: read_frame_def)

lemma read_frame_trans: "read_frame i a b \<Longrightarrow> read_frame i b c \<Longrightarrow> read_frame i a c"
  by (simp add: read_frame_def Let_def)

lemma frame_flag:
  assumes "read_frame i r r'" "f \<noteq> def_flag i"
  shows "has_flag (r_conf r') x f = has_flag (r_conf r) x f"
proof -
  have "s_flags (k_sym (r_conf r') x) - {def_flag i} = s_flags (k_sym (r_conf r) x) - {def_flag i}"
    using assms(1) by (simp add: read_frame_def Let_def)
  with assms(2) show ?thesis by (auto simp: has_flag_def)
qed

lemma def_flag_not [simp]:
  "SYMBOL_CONST \<noteq> def_flag i" "SYMBOL_CHOICEVAL \<noteq> def_flag i" "SYMBOL_CHOICE \<noteq> def_flag i"
  by (cases i; simp)+

lemma frame_find: "read_frame i r r' \<Longrightarrow> sym_find (r_tab r') n = sym_find (r_tab r) n"
proof -
  assume f: "read_frame i r r'"
  have "SYMBOL_CONST \<in> s_flags (k_sym (r_conf r') x) \<longleftrightarrow> SYMBOL_CONST \<in> s_flags (k_sym (r_conf r) x)" for x
    using frame_flag [OF f, of SYMBOL_CONST x] by (simp add: has_flag_def)
  with f show ?thesis
    by (simp add: sym_find_def read_frame_def Let_def r_conf_def split: option.split)
qed

lemma frame_choice:
  assumes "read_frame i r r'"
  shows "sym_get_choice_prop (r_conf r') x = sym_get_choice_prop (r_conf r) x"
    "prop_get_symbol (r_conf r') p = prop_get_symbol (r_conf r) p"
  using assms
  by (simp_all add: read_frame_def Let_def sym_get_choice_prop_def for_all_properties_def prop_get_symbol_def)

lemma reader_upd_simps [simp]:
  "r_conf (on_kconf f r) = f (r_conf r)" "t_hash (r_tab (on_kconf f r)) = t_hash (r_tab r)"
  "r_conf (conf_warning w r) = r_conf r" "r_tab (conf_warning w r) = r_tab r"
  "r_conf (r\<lparr>r_lineno := n\<rparr>) = r_conf r"
  "k_prop (upd_def i s g k) = k_prop k"
  by (simp_all add: r_conf_def on_kconf_def conf_warning_def upd_def_def)

lemma upd_def_sym [simp]:
  "k_sym (upd_def i s g k) = (k_sym k)(s := (k_sym k s)\<lparr>s_def := (s_def (k_sym k s))(i := g (s_def (k_sym k s) i))\<rparr>)"
  by (cases "k_sym k s") (simp add: upd_def_def)

lemma frame_upd_def: "read_frame i r (on_kconf (upd_def i s g) r)"
  by (auto simp: read_frame_def Let_def)

lemma frame_flag_on: "read_frame i r (on_kconf (flag_on (def_flag i) s) r)"
  by (auto simp: read_frame_def Let_def flag_on_def)

lemma frame_flag_off: "read_frame i r (on_kconf (flag_off (def_flag i) s) r)"
  by (auto simp: read_frame_def Let_def flag_off_def)

lemma frame_warning: "read_frame i r (conf_warning w r)"
  by (auto simp: read_frame_def)

lemma on_kconf_comp: "on_kconf (f \<circ> g) r = on_kconf f (on_kconf g r)"
  by (simp add: on_kconf_def)

lemma frame_puts: "read_frame i r (put_tri i s t r)" "read_frame i r (put_val i s v r)"
    "read_frame i r (warn_reassign i s r)"
  by (auto simp: put_tri_def put_val_def on_kconf_comp warn_reassign_def frame_warning
      intro: read_frame_trans [OF frame_upd_def frame_flag_on])

text \<open>The rest of the defaults: only those of the symbol of the line and of its choice.\<close>

definition defs_kept :: "def_index \<Rightarrow> sym set \<Rightarrow> reader \<Rightarrow> reader \<Rightarrow> bool" where
  "defs_kept i X r r' \<longleftrightarrow> (\<forall>x. x \<in> X \<or> (s_def (k_sym (r_conf r') x) = s_def (k_sym (r_conf r) x) \<and>
     has_flag (r_conf r') x (def_flag i) = has_flag (r_conf r) x (def_flag i)))"

lemma defs_kept_trans: "defs_kept i X a b \<Longrightarrow> defs_kept i Y b c \<Longrightarrow> defs_kept i (X \<union> Y) a c"
  unfolding defs_kept_def by (metis UnCI)

lemma choice_state_spec:
  assumes "has_flag (r_conf r) s SYMBOL_CHOICEVAL \<longrightarrow>
      (\<exists>p. sym_get_choice_prop (r_conf r) s = Some p \<and> prop_get_symbol (r_conf r) p = Some c)"
  shows "\<exists>r'. set_choice_state i s r = Some r' \<and> read_frame i r r' \<and> defs_kept i {c} r r'"
proof (cases "has_flag (r_conf r) s SYMBOL_CHOICEVAL")
  case False
  then show ?thesis by (auto simp: set_choice_state_def defs_kept_def)
next
  case True
  with assms obtain p where p: "sym_get_choice_prop (r_conf r) s = Some p"
      "prop_get_symbol (r_conf r) p = Some c" by blast
  let ?old = "sv_tri (s_def (k_sym (r_conf r) c) i)" and ?v = "sv_tri (s_def (k_sym (r_conf r) s) i)"
  define r1 where "r1 = (case ?v of
            tri_no \<Rightarrow> r
          | tri_mod \<Rightarrow> (if ?old = tri_yes
              then on_kconf (flag_off (def_flag i) c)
                     (conf_warning (name_text r s @ '' creates inconsistent choice state'') r)
              else r)
          | tri_yes \<Rightarrow> on_kconf (upd_def i c (sv_val_update (\<lambda>_. VSym s)))
              (if ?old \<noteq> tri_no then conf_warning (''override: '' @ name_text r s @ '' changes choice state'') r
               else r))"
  have "read_frame i r r1"
    by (auto simp: r1_def split: tristate.split intro: frame_upd_def
        read_frame_trans [OF frame_warning frame_flag_off] read_frame_trans [OF frame_warning frame_upd_def])
  moreover have "defs_kept i {c} r r1"
    by (auto simp: r1_def defs_kept_def flag_off_def has_flag_def split: tristate.split)
  ultimately have r1: "read_frame i r r1" "defs_kept i {c} r r1" by blast+
  let ?g = "sv_tri_update (\<lambda>_. EXPR_OR (sv_tri (s_def (k_sym (r_conf r1) c) i))
      (sv_tri (s_def (k_sym (r_conf r1) s) i)))"
  have "on_kconf (\<lambda>k. upd_def i c (sv_tri_update
                 (\<lambda>_. EXPR_OR (sv_tri (s_def (k_sym k c) i)) (sv_tri (s_def (k_sym k s) i)))) k) r1 =
      on_kconf (upd_def i c ?g) r1"
    by (simp add: on_kconf_def r_conf_def)
  then have "set_choice_state i s r = Some (on_kconf (upd_def i c ?g) r1)"
    using True p by (simp add: set_choice_state_def r1_def Let_def cong: tristate.case_cong)
  moreover have "read_frame i r (on_kconf (upd_def i c ?g) r1)"
    using r1(1) frame_upd_def by (rule read_frame_trans)
  moreover have "defs_kept i {c} r (on_kconf (upd_def i c ?g) r1)"
    using r1(2) by (auto simp: defs_kept_def has_flag_def)
  ultimately show ?thesis by blast
qed

lemma set_val_spec:
  assumes "fits (s_type (k_sym (r_conf r) s)) sv" "sv \<noteq> SavedTri tri_no"
  shows "\<exists>r'. conf_set_sym_val s i (saved_text (s_type (k_sym (r_conf r) s)) sv) r = (False, r') \<and>
    read_frame i r r' \<and> defs_kept i {s} r r' \<and> holds i (k_sym (r_conf r') s) sv"
proof -
  let ?ty = "s_type (k_sym (r_conf r) s)"
  have str: "read_frame i r (put_val i s v r) \<and> defs_kept i {s} r (put_val i s v r) \<and>
      holds i (k_sym (r_conf (put_val i s v r)) s) (SavedStr v)" for v
    using frame_puts by (auto simp: put_val_def defs_kept_def flag_on_def has_flag_def)
  have tri: "read_frame i r (put_tri i s t r) \<and> defs_kept i {s} r (put_tri i s t r) \<and>
      holds i (k_sym (r_conf (put_tri i s t r)) s) (SavedTri t)" for t
    using frame_puts by (auto simp: put_tri_def defs_kept_def flag_on_def has_flag_def)
  show ?thesis
  proof (cases sv)
    case (SavedTri t)
    with assms have "?ty = S_BOOLEAN \<and> t = tri_yes \<or> ?ty = S_TRISTATE \<and> t \<noteq> tri_no"
      by (cases ?ty; cases t) auto
    with SavedTri tri show ?thesis
      by (cases t) (auto simp: conf_set_sym_val_def store_bool_def char_at_def)
  next
    case (SavedStr v)
    with assms have "?ty = S_STRING \<or> (?ty = S_INT \<or> ?ty = S_HEX) \<and> sym_string_valid ?ty v"
      by (cases ?ty) auto
    with SavedStr str show ?thesis
      using unquote_escaped [of v "[]"]
      by (auto simp: conf_set_sym_val_def store_value_def store_quoted_def char_at_def sym_string_valid_def)
  qed
qed

text \<open>A line that was printed for a symbol gives the symbol its value again.\<close>

lemma printed_line_read:
  assumes find: "sym_find (r_tab r) (Some name) = Some s"
    and fits: "fits (s_type (k_sym (r_conf r) s)) sv"
    and ch: "has_flag (r_conf r) s SYMBOL_CHOICEVAL \<longrightarrow> (\<exists>p. sym_get_choice_prop (r_conf r) s = Some p \<and>
      prop_get_symbol (r_conf r) p = Some c)" "c \<noteq> s"
  shows "\<exists>r'. handle_line S_DEF_USER (line_of name sv (s_type (k_sym (r_conf r) s))) r = Some r' \<and>
    read_frame S_DEF_USER r r' \<and> defs_kept S_DEF_USER {s, c} r r' \<and>
    holds S_DEF_USER (k_sym (r_conf r') s) sv"
proof -
  let ?i = S_DEF_USER and ?ty = "s_type (k_sym (r_conf r) s)"
  define r0 where "r0 = warn_reassign ?i s r"
  have r0: "read_frame ?i r r0" "r_conf r0 = r_conf r" "r_tab r0 = r_tab r"
    unfolding r0_def by (rule frame_puts(3)) (simp_all add: warn_reassign_def)
  have line: "line_symbol ?i name ty r = (Some s, r)" for ty
    using find by (simp add: line_symbol_def)
  obtain r1 where r1: "handle_line ?i (line_of name sv ?ty) r = set_choice_state ?i s r1"
    "read_frame ?i r0 r1" "defs_kept ?i {s} r0 r1" "holds ?i (k_sym (r_conf r1) s) sv"
  proof (cases "sv = SavedTri tri_no")
    case True
    with fits have "?ty = S_BOOLEAN \<or> ?ty = S_TRISTATE" by (cases ?ty) auto
    with True line r0 frame_puts(1) [of ?i r0 s tri_no] that [of "put_tri ?i s tri_no r0"] show thesis
      by (auto simp: line_of_def handle_line_def r0_def [symmetric] Let_def put_tri_def defs_kept_def
          flag_on_def has_flag_def)
  next
    case False
    then obtain r2 where "conf_set_sym_val s ?i (saved_text ?ty sv) r0 = (False, r2)"
      "read_frame ?i r0 r2" "defs_kept ?i {s} r0 r2" "holds ?i (k_sym (r_conf r2) s) sv"
      using set_val_spec [of r0 s sv ?i] fits r0 by auto
    with False line that [of r2] show thesis
      by (simp add: line_of_def handle_line_def r0_def)
  qed
  have f: "read_frame ?i r r1" using r0(1) r1(2) by (rule read_frame_trans)
  have "has_flag (r_conf r1) s SYMBOL_CHOICEVAL \<longrightarrow> (\<exists>p. sym_get_choice_prop (r_conf r1) s = Some p \<and>
      prop_get_symbol (r_conf r1) p = Some c)"
    using ch(1) frame_flag [OF f, of SYMBOL_CHOICEVAL s] frame_choice [OF f] by simp
  from choice_state_spec [OF this, of ?i] obtain r2 where r2: "set_choice_state ?i s r1 = Some r2"
    "read_frame ?i r1 r2" "defs_kept ?i {c} r1 r2" by blast
  have "holds ?i (k_sym (r_conf r2) s) sv"
    using r1(4) r2(3) ch(2) by (cases sv) (auto simp: defs_kept_def has_flag_def)
  moreover have "defs_kept ?i {s, c} r r2"
    using defs_kept_trans [OF r1(3) r2(3)] r0(2) by (auto simp: defs_kept_def)
  ultimately show ?thesis
    using r1(1) r2 read_frame_trans [OF f r2(2)] by auto
qed

section \<open>A file of printed lines\<close>

type_synonym entry = "sym \<times> string \<times> saved"

definition entry_line :: "string \<Rightarrow> (sym \<Rightarrow> symbol_type) \<Rightarrow> entry \<Rightarrow> string" where
  "entry_line pre ty e = (case e of (s, name, sv) \<Rightarrow>
     kconfig_print_symbol pre (ty s) name (saved_text (ty s) sv) False)"

definition entry_ok :: "string \<Rightarrow> reader \<Rightarrow> sym set \<Rightarrow> entry \<Rightarrow> bool" where
  "entry_ok pre r S e = (case e of (s, name, sv) \<Rightarrow>
     sym_find (r_tab r) (Some name) = Some s \<and> name_ok name \<and> take 1 (pre @ name) \<noteq> ''#'' \<and>
     fits (s_type (k_sym (r_conf r) s)) sv \<and>
     (has_flag (r_conf r) s SYMBOL_CHOICEVAL \<longrightarrow> (\<exists>p c. sym_get_choice_prop (r_conf r) s = Some p \<and>
        prop_get_symbol (r_conf r) p = Some c \<and> c \<notin> S)))"

lemma entry_ok_frame: "read_frame i r r' \<Longrightarrow> entry_ok pre r S e \<Longrightarrow> entry_ok pre r' S e"
  by (auto simp: entry_ok_def frame_find frame_flag frame_choice)
    (auto simp: read_frame_def Let_def)

lemma entry_line_ends:
  assumes "entry_ok pre r S e" "LF \<notin> set pre" "\<And>s. ty s = s_type (k_sym (r_conf r) s)"
  shows "\<exists>l. entry_line pre ty e = l @ [LF] \<and> LF \<notin> set l"
proof -
  obtain s name sv where e: "e = (s, name, sv)" by (cases e)
  have "LF \<notin> set name" "LF \<notin> set (saved_text (ty s) sv)"
    using assms saved_text_plain [of "ty s" sv] by (auto simp: e entry_ok_def name_ok_def)
  with assms(2) show ?thesis
    by (auto simp: e entry_line_def kconfig_print_symbol_def)
qed

lemma lines_of_concat:
  "\<forall>l \<in> set ls. \<exists>x. l = x @ [LF] \<and> LF \<notin> set x \<Longrightarrow> lines_of (concat ls) = ls"
proof (induction ls)
  case (Cons l ls)
  then obtain x where x: "l = x @ [LF]" "LF \<notin> set x" by auto
  have "first_line (concat (l # ls)) = (l, concat ls)"
    using first_line_simp(1) [OF x(2), of "concat ls"] x(1) by simp
  with Cons x show ?case by (subst lines_of_step) auto
qed simp

lemma infinite_sym: "infinite (UNIV :: sym set)"
proof -
  have "infinite (range Sym)"
    using finite_imageD [of Sym UNIV] infinite_UNIV_nat by (auto simp: inj_def)
  then show ?thesis by (rule infinite_super [OF subset_UNIV])
qed

text \<open>Lines of entries and lines that the reader skips.\<close>

type_synonym item = "entry + string"

fun item_line :: "string \<Rightarrow> (sym \<Rightarrow> symbol_type) \<Rightarrow> item \<Rightarrow> string" where
  "item_line pre ty (Inl e) = entry_line pre ty e"
| "item_line pre ty (Inr l) = l"

fun entries_of :: "item list \<Rightarrow> entry list" where
  "entries_of [] = []"
| "entries_of (Inl e # is) = e # entries_of is"
| "entries_of (Inr l # is) = entries_of is"

definition skipped :: "string \<Rightarrow> string \<Rightarrow> bool" where
  "skipped pre l \<longleftrightarrow> parse_line pre (l @ [NUL]) = Some L_skip \<and> (\<exists>x. l = x @ [LF] \<and> LF \<notin> set x)"

lemma entries_of_Inl [simp]: "entries_of (map Inl es) = es"
  by (induction es) auto

lemma entries_of_set: "Inl e \<in> set is \<Longrightarrow> e \<in> set (entries_of is)"
  by (induction "is" rule: entries_of.induct) auto

lemma entries_read:
  assumes "\<forall>e \<in> set (entries_of is). entry_ok pre r (fst ` set (entries_of is) \<union> S) e"
      "distinct (map fst (entries_of is))" "NUL \<notin> set pre" "\<forall>l. Inr l \<in> set is \<longrightarrow> skipped pre l"
    and ty: "\<And>s. ty s = s_type (k_sym (r_conf r) s)" and S: "finite S"
  shows "\<exists>r'. handle_lines pre S_DEF_USER (map (item_line pre ty) is) r = Some r' \<and>
    (\<forall>(s, name, sv) \<in> set (entries_of is). holds S_DEF_USER (k_sym (r_conf r') s) sv) \<and>
    (\<forall>s \<in> S. s \<notin> fst ` set (entries_of is) \<longrightarrow> s_def (k_sym (r_conf r') s) = s_def (k_sym (r_conf r) s) \<and>
       has_flag (r_conf r') s SYMBOL_DEF_USER = has_flag (r_conf r) s SYMBOL_DEF_USER)"
  using assms
proof (induction "is" arbitrary: r S rule: entries_of.induct)
  case (3 l "is")
  let ?r = "r\<lparr>r_lineno := r_lineno r + 1\<rparr>"
  have f: "read_frame S_DEF_USER r ?r" "r_conf ?r = r_conf r" by (simp_all add: read_frame_def r_conf_def)
  have l: "parse_line pre (l @ [NUL]) = Some L_skip" using 3(5) by (simp add: skipped_def)
  have "\<forall>e \<in> set (entries_of is). entry_ok pre ?r (fst ` set (entries_of is) \<union> S) e"
    using 3(2) entry_ok_frame [OF f(1)] by simp
  from 3(1) [OF this _ 3(4) _ _ 3(7)] 3(3,5,6) show ?case
    unfolding f(2) by (simp add: l handle_line_def)
next
  case (2 e "is")
  note IH = 2(1) and prems = 2(2,3,4,5,6,7)
  let ?es = "entries_of is"
  obtain s name sv where e: "e = (s, name, sv)" by (cases e)
  let ?i = S_DEF_USER and ?r = "r\<lparr>r_lineno := r_lineno r + 1\<rparr>" and ?S = "insert s (fst ` set ?es \<union> S)"
  have S1: "fst ` set (e # ?es) \<union> S = ?S" "?S = fst ` set ?es \<union> insert s S" by (auto simp: e)
  have ok: "entry_ok pre r ?S e" using prems(1) unfolding entries_of.simps S1(1) by simp
  then have n: "sym_find (r_tab ?r) (Some name) = Some s" "name_ok name" "take 1 (pre @ name) \<noteq> ''#''"
    "fits (s_type (k_sym (r_conf ?r) s)) sv" by (auto simp: e entry_ok_def)
  have p: "parse_line pre (entry_line pre ty e @ [NUL]) = Some (line_of name sv (ty s))"
    using parse_printed [OF n(2) prems(3) n(3)] n(4) prems(5) by (simp add: e entry_line_def)
  obtain c0 where c0: "c0 \<notin> ?S" using ex_new_if_finite [OF infinite_sym, of ?S] prems(6) by auto
  obtain c where c: "c \<notin> ?S" "has_flag (r_conf ?r) s SYMBOL_CHOICEVAL \<longrightarrow>
      (\<exists>p. sym_get_choice_prop (r_conf ?r) s = Some p \<and> prop_get_symbol (r_conf ?r) p = Some c)"
    using ok c0 by (cases "has_flag (r_conf ?r) s SYMBOL_CHOICEVAL") (auto simp: e entry_ok_def)
  then have "c \<noteq> s" by auto
  from printed_line_read [OF n(1,4) c(2) this] obtain r1 where r1:
    "handle_line ?i (line_of name sv (ty s)) ?r = Some r1" "read_frame ?i ?r r1"
    "defs_kept ?i {s, c} ?r r1" "holds ?i (k_sym (r_conf r1) s) sv"
    using prems(5) by auto
  have fr: "read_frame ?i r r1" using r1(2) by (simp add: read_frame_def r_conf_def)
  have ty1: "ty s = s_type (k_sym (r_conf r1) s)" for s
    using fr prems(5) by (simp add: read_frame_def Let_def)
  have ok1: "\<forall>e' \<in> set ?es. entry_ok pre r1 (fst ` set ?es \<union> insert s S) e'"
  proof
    fix e' assume "e' \<in> set ?es"
    then have "entry_ok pre r ?S e'" using prems(1) unfolding entries_of.simps S1(1) by simp
    then have "entry_ok pre r (fst ` set ?es \<union> insert s S) e'" unfolding S1(2) .
    then show "entry_ok pre r1 (fst ` set ?es \<union> insert s S) e'" using fr by (rule entry_ok_frame [rotated])
  qed
  have di: "distinct (map fst ?es)" "s \<notin> fst ` set ?es" using prems(2) by (auto simp: e)
  have fin: "finite (insert s S)" using prems(6) by simp
  have sk: "\<forall>l. Inr l \<in> set is \<longrightarrow> skipped pre l" using prems(4) by simp
  from IH [OF ok1 di(1) prems(3) sk ty1 fin] obtain r' where r':
    "handle_lines pre ?i (map (item_line pre ty) is) r1 = Some r'"
    "\<forall>(s, name, sv) \<in> set ?es. holds ?i (k_sym (r_conf r') s) sv"
    "\<forall>x \<in> insert s S. x \<notin> fst ` set ?es \<longrightarrow> s_def (k_sym (r_conf r') x) = s_def (k_sym (r_conf r1) x) \<and>
       has_flag (r_conf r') x SYMBOL_DEF_USER = has_flag (r_conf r1) x SYMBOL_DEF_USER"
    by blast
  have "holds ?i (k_sym (r_conf r') s) sv"
    using r'(3) di(2) r1(4) by (cases sv) (auto simp: has_flag_def)
  moreover have "s_def (k_sym (r_conf r') x) = s_def (k_sym (r_conf r) x) \<and>
      has_flag (r_conf r') x SYMBOL_DEF_USER = has_flag (r_conf r) x SYMBOL_DEF_USER"
    if "x \<in> S" "x \<notin> fst ` set (e # ?es)" for x
  proof -
    have "x \<noteq> s" "x \<noteq> c" "x \<notin> fst ` set ?es" using that c(1) by (auto simp: e)
    with r'(3) r1(3) that(1) show ?thesis by (auto simp: defs_kept_def)
  qed
  moreover have "handle_lines pre ?i (map (item_line pre ty) (Inl e # is)) r = Some r'"
    using p r1(1) r'(1) by simp
  ultimately show ?case using r'(2) by (auto simp: e)
qed simp

lemma items_restored:
  assumes "\<forall>e \<in> set (entries_of is). entry_ok pre r (fst ` set (entries_of is)) e"
    "distinct (map fst (entries_of is))" "\<forall>l. Inr l \<in> set is \<longrightarrow> skipped pre l" "set pre \<inter> {NUL, LF} = {}"
    and ty: "\<And>s. ty s = s_type (k_sym (r_conf r) s)"
  shows "\<exists>r'. read_lines pre fill S_DEF_USER buf (concat (map (item_line pre ty) is)) r = Some r' \<and>
    (\<forall>(s, name, sv) \<in> set (entries_of is). holds S_DEF_USER (k_sym (r_conf r') s) sv)"
proof -
  have "\<exists>x. item_line pre ty i = x @ [LF] \<and> LF \<notin> set x" if "i \<in> set is" for i
  proof (cases i)
    case (Inl e)
    then have "entry_ok pre r (fst ` set (entries_of is)) e" using that assms(1) entries_of_set by blast
    then show ?thesis using entry_line_ends assms(4) ty Inl by auto
  next
    case (Inr l)
    then show ?thesis using that assms(3) by (auto simp: skipped_def)
  qed
  then have "lines_of (concat (map (item_line pre ty) is)) = map (item_line pre ty) is"
    by (intro lines_of_concat) auto
  then show ?thesis
    using entries_read [of "is" pre r "{}" ty] assms by (auto simp: read_lines_eq)
qed

text \<open>Writing and reading back: a file of the lines that are printed for a list of symbols
  gives, when it is read, each of them its value again, marked as the user's: bool and tristate
  values (also those that are written as not set), numbers, and strings with any characters but
  newline and NUL. It does not matter how the reader's buffer grows nor what it held. The symbols
  are found under their names, and the choices of choice values are not in the list.\<close>

theorem file_restores_values:
  assumes "\<forall>e \<in> set es. entry_ok pre r (fst ` set es) e" "distinct (map fst es)"
    and "set pre \<inter> {NUL, LF} = {}"
  shows "\<exists>r'. read_lines pre fill S_DEF_USER buf
      (concat (map (entry_line pre (\<lambda>s. s_type (k_sym (r_conf r) s))) es)) r = Some r' \<and>
    (\<forall>(s, name, sv) \<in> set es. holds S_DEF_USER (k_sym (r_conf r') s) sv)"
  using items_restored [of "map Inl es" pre r "\<lambda>s. s_type (k_sym (r_conf r) s)"] assms
  by (auto simp: comp_def)

text \<open>A string FOO and a tristate BAR.\<close>

definition two_symbols :: "sym \<Rightarrow> symbol" where
  "two_symbols s = (if s = Sym 0 then (fresh_symbol (Some ''FOO'') {})\<lparr>s_type := S_STRING\<rparr>
     else if s = Sym 1 then (fresh_symbol (Some ''BAR'') {})\<lparr>s_type := S_TRISTATE\<rparr>
     else static_symbols s)"

definition two_reader :: reader where
  "two_reader = \<lparr>r_tab = empty_tab\<lparr>t_conf := empty_conf\<lparr>k_sym := two_symbols\<rparr>,
     t_hash := (\<lambda>_. [Sym 0, Sym 1])\<rparr>, r_filename = [], r_lineno = 0, r_warnings = [],
     r_unsaved = 0, r_messages = []\<rparr>"

definition two_entries :: "entry list" where
  "two_entries = [(Sym 0, ''FOO'', SavedStr [QUOTE, BACKSLASH]), (Sym 1, ''BAR'', SavedTri tri_no)]"

theorem file_restores_values_witness:
  "\<exists>r'. read_lines [] (\<lambda>_. NUL) S_DEF_USER []
      (concat (map (entry_line [] (\<lambda>s. s_type (k_sym (r_conf two_reader) s))) two_entries)) two_reader = Some r' \<and>
    sv_val (s_def (k_sym (r_conf r') (Sym 0)) S_DEF_USER) = VStr [QUOTE, BACKSLASH]"
proof -
  have "\<forall>e \<in> set two_entries. entry_ok [] two_reader (fst ` set two_entries) e"
    by (simp add: two_entries_def entry_ok_def two_reader_def r_conf_def sym_find_def static_sym_def
        empty_tab_def empty_conf_def two_symbols_def fresh_symbol_def name_ok_def text_ok_def has_flag_def)
  moreover have "distinct (map fst two_entries)" by (simp add: two_entries_def)
  ultimately show ?thesis
    using file_restores_values [of two_entries "[]" two_reader "\<lambda>_. NUL" "[]"]
    by (auto simp: two_entries_def)
qed

text \<open>C25 The loop of \<^verbatim>\<open>conf_read_simple\<close> handles the file line by line: whatever the
  buffer holds at the start and whatever bytes \<^verbatim>\<open>realloc\<close> leaves in it, each line is
  handled with its newline and one NUL behind it, and the lines together are the file.\<close>

theorem file_read_by_lines:
  "read_lines pre fill i buf stream r = handle_lines pre i (lines_of stream) r \<and>
   concat (lines_of stream) = stream"
proof -
  have "concat (file_lines n s) = s" if "length s \<le> n" for n s
    using that
  proof (induction n arbitrary: s)
    case (Suc n)
    then show ?case
      using first_line_append [of s] first_line_less [of s] by (cases "s = []") auto
  qed simp
  then show ?thesis by (simp add: read_lines_eq lines_of_def)
qed

text \<open>C26 Quoting and reading back: what \<^verbatim>\<open>sym_escape_string_value\<close> writes behind the
  opening quote is read back as the string, up to its closing quote, whatever follows.\<close>

theorem quote_roundtrip:
  "\<exists>q. sym_escape_string_value v = Some (QUOTE # q) \<and> unquote (q @ rest) = Some v"
  using escape_exact(1) [of v] unquote_escaped [of v rest] by simp

end
