(* ===== verification/Gstr.thy ===== *)
theory Gstr
  imports Symcalc ExprPrint
begin

text \<open>
  The growable strings of \<^verbatim>\<open>util.c\<close>, the printing of an expression into one with line
  breaks (\<^verbatim>\<open>expr.c\<close>), and the list of the files that the parser has read. A string is the text
  with the size of its block; \<open>None\<close> is a write behind the block or a read through NULL. Running
  out of memory, which ends the program, is left out.
\<close>

record gstr =
  g_s :: string
  g_len :: nat
  g_max_width :: nat

definition str_new :: gstr where
  "str_new = \<lparr>g_s = [], g_len = 64, g_max_width = 0\<rparr>"

definition str_assign :: "string \<Rightarrow> gstr" where
  "str_assign s = \<lparr>g_s = s, g_len = length s + 1, g_max_width = 0\<rparr>"

text \<open>\<^verbatim>\<open>strcat\<close> into the block.\<close>

definition strcat_block :: "string \<Rightarrow> gstr \<Rightarrow> gstr option" where
  "strcat_block s gs = (if length (g_s gs) + length s < g_len gs then Some (gs\<lparr>g_s := g_s gs @ s\<rparr>) else None)"

definition str_append :: "string option \<Rightarrow> gstr \<Rightarrow> gstr option" where
  "str_append so gs = (case so of None \<Rightarrow> Some gs | Some s \<Rightarrow>
     let l = length (g_s gs) + length s + 1 in
     strcat_block s (if l > g_len gs then gs\<lparr>g_len := l\<rparr> else gs))"

text \<open>\<^verbatim>\<open>str_printf\<close> formats into an array of 10000 bytes and cuts off what does not fit.\<close>

definition str_printf :: "string \<Rightarrow> gstr \<Rightarrow> gstr option" where
  "str_printf s gs = str_append (Some (take 9999 s)) gs"

lemma str_append_some [simp]:
  "str_append (Some s) gs = Some (gs\<lparr>g_s := g_s gs @ s, g_len := max (g_len gs) (length (g_s gs) + length s + 1)\<rparr>)"
  by (simp add: str_append_def strcat_block_def Let_def max_def)

lemma str_append_none [simp]: "str_append None gs = Some gs"
  by (simp add: str_append_def)

section \<open>Expressions\<close>

text \<open>\<^verbatim>\<open>sym_get_string_value\<close> where NULL is a result.\<close>

definition string_or_null :: "calc \<Rightarrow> sym \<Rightarrow> kconf \<Rightarrow> (string option \<times> kconf) option" where
  "string_or_null cv s k =
     (if s_type (k_sym k s) \<noteq> S_BOOLEAN \<and> s_type (k_sym k s) \<noteq> S_TRISTATE \<and> sv_val (s_curr (k_sym k s)) = VNull
      then Some (None, k) else map_option (\<lambda>(x, k). (Some x, k)) (sym_get_string_value cv s k))"

definition last_line_length :: "string \<Rightarrow> nat" where
  "last_line_length s = (if CHR 0x0A \<in> set s then length (takeWhile (\<lambda>c. c \<noteq> CHR 0x0A) (rev s)) + 1 else length s)"

definition expr_print_gstr_helper :: "calc \<Rightarrow> piece \<Rightarrow> gstr \<times> kconf \<Rightarrow> (gstr \<times> kconf) option" where
  "expr_print_gstr_helper cv pc gk = (case (pc, gk) of ((so, str), (gs, k)) \<Rightarrow> do {
     (sym_str, k) \<leftarrow> (case so of None \<Rightarrow> Some (None, k) | Some s \<Rightarrow> string_or_null cv s k);
     gs \<leftarrow> (if g_max_width gs = 0 then Some gs else do {
        t \<leftarrow> str;
        let extra_length = length t + (case sym_str of None \<Rightarrow> 0 | Some v \<Rightarrow> 4 + length v);
        if last_line_length (g_s gs) + extra_length > g_max_width gs
        then str_append (Some [CHR 0x5C, CHR 0x0A]) gs else Some gs });
     gs \<leftarrow> str_append str gs;
     case so of None \<Rightarrow> Some (gs, k)
     | Some s \<Rightarrow> if s_type (k_sym k s) = S_UNKNOWN then Some (gs, k)
         else do { v \<leftarrow> sym_str; gs \<leftarrow> str_printf ('' [='' @ v @ '']'') gs; Some (gs, k) } })"

fun print_pieces :: "calc \<Rightarrow> piece list \<Rightarrow> gstr \<times> kconf \<Rightarrow> (gstr \<times> kconf) option" where
  "print_pieces cv [] gk = Some gk"
| "print_pieces cv (p # ps) gk = do { gk \<leftarrow> expr_print_gstr_helper cv p gk; print_pieces cv ps gk }"

definition expr_gstr_print :: "calc \<Rightarrow> expr option \<Rightarrow> gstr \<times> kconf \<Rightarrow> (gstr \<times> kconf) option" where
  "expr_gstr_print cv e gk = print_pieces cv (expr_print (k_sym (snd gk)) e E_NONE) gk"

section \<open>The files of the parser\<close>

text \<open>\<^verbatim>\<open>file_lookup\<close>: the list holds the names after expansion, and the name is compared as it
  is written. The result is the position of the entry from the end of the list, which stays the
  same when entries are added in front.\<close>

definition file_lookup :: "(string \<Rightarrow> string) \<Rightarrow> string \<Rightarrow> string list \<Rightarrow> nat \<times> string list" where
  "file_lookup expand name files =
     (case dropWhile (\<lambda>f. f \<noteq> name) files of
        f # fs \<Rightarrow> (length fs, files)
      | [] \<Rightarrow> (length files, expand name # files))"

lemma file_lookup_name:
  assumes "file_lookup expand name files = (i, files')"
  shows "i < length files' \<and> rev files' ! i = (if name \<in> set files then name else expand name)"
proof (cases "dropWhile (\<lambda>f. f \<noteq> name) files")
  case Nil
  with assms show ?thesis by (auto simp: file_lookup_def nth_append dropWhile_eq_Nil_conv)
next
  case (Cons f fs)
  have sp: "files = takeWhile (\<lambda>f. f \<noteq> name) files @ f # fs" using Cons by (metis takeWhile_dropWhile_id)
  moreover have f: "f = name" using Cons by (simp add: dropWhile_eq_Cons_conv)
  ultimately have "name \<in> set files" by (metis in_set_conv_decomp)
  moreover have "rev files ! length fs = name"
    by (subst sp) (simp add: nth_append f)
  moreover have "length fs < length files" by (subst sp) simp
  ultimately show ?thesis using assms Cons by (auto simp: file_lookup_def)
qed

text \<open>A name that the expansion changes is added again every time.\<close>

lemma file_lookup_twice:
  assumes "expand name \<noteq> name" "name \<notin> set files"
  shows "snd (file_lookup expand name (snd (file_lookup expand name files))) = expand name # expand name # files"
proof -
  have d: "dropWhile (\<lambda>f. f \<noteq> name) files = []" using assms(2) by (auto simp: dropWhile_eq_Nil_conv)
  show ?thesis using assms(1) by (simp add: file_lookup_def d)
qed

end
