(* ===== verification/Menu.thy ===== *)
theory Menu
  imports Symdeps
begin

text \<open>
  Building the menu tree (\<^verbatim>\<open>menu.c\<close>): the operations that the actions of the grammar
  call, on the entry that is being read. The menus are linked by \<^verbatim>\<open>next\<close>,
  \<^verbatim>\<open>list\<close> and \<^verbatim>\<open>parent\<close>; menu 0 is \<^verbatim>\<open>rootmenu\<close>. The tree that the
  operations build is compared with a specification that keeps lists of children and a stack.
  \<open>None\<close> is a read through NULL.
\<close>

section \<open>The state of the parser\<close>

text \<open>\<^verbatim>\<open>last_entry_ptr\<close>: the \<^verbatim>\<open>next\<close> or the \<^verbatim>\<open>list\<close> of a menu.\<close>

datatype link = Next mid | List mid

datatype parse_msg = Warn string int string | Zconf_error int string

record parser =
  b_tab :: ktab
  b_entry :: mid
  b_menu :: "mid option"
  b_last :: link
  b_menus :: nat
  b_defconfig :: "sym option"
  b_out :: "parse_msg list"

abbreviation (input) rootmenu :: mid where "rootmenu \<equiv> 0"

definition b_conf :: "parser \<Rightarrow> kconf" where
  "b_conf b = t_conf (b_tab b)"

definition b_upd :: "(kconf \<Rightarrow> kconf) \<Rightarrow> parser \<Rightarrow> parser" where
  "b_upd f b = b\<lparr>b_tab := (b_tab b)\<lparr>t_conf := f (t_conf (b_tab b))\<rparr>\<rparr>"

lemma b_upd_simps [simp]:
  "b_conf (b_upd f b) = f (b_conf b)" "b_entry (b_upd f b) = b_entry b" "b_menu (b_upd f b) = b_menu b"
  "b_last (b_upd f b) = b_last b" "b_menus (b_upd f b) = b_menus b" "b_out (b_upd f b) = b_out b"
  "b_defconfig (b_upd f b) = b_defconfig b"
  by (simp_all add: b_conf_def b_upd_def)

lemma b_conf_upd [simp]:
  "b_conf (b\<lparr>b_entry := e\<rparr>) = b_conf b" "b_conf (b\<lparr>b_menu := mo\<rparr>) = b_conf b"
  "b_conf (b\<lparr>b_last := l\<rparr>) = b_conf b" "b_conf (b\<lparr>b_menus := n\<rparr>) = b_conf b"
  "b_conf (b\<lparr>b_defconfig := d\<rparr>) = b_conf b" "b_conf (b\<lparr>b_out := out\<rparr>) = b_conf b"
  "b_conf (b\<lparr>b_tab := t\<rparr>) = t_conf t"
  by (simp_all add: b_conf_def)

definition warn_at :: "string option \<Rightarrow> int \<Rightarrow> string \<Rightarrow> parser \<Rightarrow> parser option" where
  "warn_at file line txt b = map_option (\<lambda>f. b\<lparr>b_out := b_out b @ [Warn f line txt]\<rparr>) file"

definition name_or_null :: "kconf \<Rightarrow> sym \<Rightarrow> string" where
  "name_or_null k s = (case s_name (k_sym k s) of Some n \<Rightarrow> n | None \<Rightarrow> ''(null)'')"

definition menu_warn :: "mid \<Rightarrow> string \<Rightarrow> parser \<Rightarrow> parser option" where
  "menu_warn m txt b = warn_at (m_file (k_menu (b_conf b) m)) (m_lineno (k_menu (b_conf b) m)) txt b"

definition prop_warn :: "pid \<Rightarrow> string \<Rightarrow> parser \<Rightarrow> parser option" where
  "prop_warn p txt b = warn_at (p_file (k_prop (b_conf b) p)) (p_lineno (k_prop (b_conf b) p)) txt b"

definition quoted :: "string \<Rightarrow> string" where
  "quoted s = [CHR 0x27] @ s @ [CHR 0x27]"

definition zconf_error :: "string \<Rightarrow> parser \<Rightarrow> parser" where
  "zconf_error txt b = b\<lparr>b_out := b_out b @ [Zconf_error (t_lineno (b_tab b)) txt]\<rparr>"

section \<open>Entries and menus\<close>

definition menu_init :: "parser \<Rightarrow> parser" where
  "menu_init b = b\<lparr>b_entry := rootmenu, b_menu := Some rootmenu, b_last := List rootmenu\<rparr>"

fun set_link :: "link \<Rightarrow> mid \<Rightarrow> kconf \<Rightarrow> kconf" where
  "set_link (Next m) x = upd_menu m (m_next_update (\<lambda>_. Some x))"
| "set_link (List m) x = upd_menu m (m_list_update (\<lambda>_. Some x))"

definition null_menu :: menu where
  "null_menu = \<lparr>m_next = None, m_parent = None, m_list = None, m_sym = None, m_prompt = None,
     m_visibility = None, m_dep = None, m_changed = False, m_help = None, m_file = None, m_lineno = 0\<rparr>"

text \<open>A symbol m in a dependency becomes m and MODULES. Before a symbol has the option modules
  the code puts NULL into the tree: \<open>None\<close>.\<close>

fun menu_check_dep1 :: "sym option \<Rightarrow> expr \<Rightarrow> expr option" where
  "menu_check_dep1 ms (e_not e) = map_option e_not (menu_check_dep1 ms e)"
| "menu_check_dep1 ms (e_or l r) = do { l \<leftarrow> menu_check_dep1 ms l; r \<leftarrow> menu_check_dep1 ms r; Some (e_or l r) }"
| "menu_check_dep1 ms (e_and l r) = do { l \<leftarrow> menu_check_dep1 ms l; r \<leftarrow> menu_check_dep1 ms r; Some (e_and l r) }"
| "menu_check_dep1 ms (e_symbol s) =
     (if s = symbol_mod then map_option (\<lambda>m. e_and (e_symbol s) (expr_alloc_symbol m)) ms
      else Some (e_symbol s))"
| "menu_check_dep1 ms e = Some e"

fun menu_check_dep :: "sym option \<Rightarrow> expr option \<Rightarrow> expr option option" where
  "menu_check_dep ms None = Some None"
| "menu_check_dep ms (Some e) = map_option Some (menu_check_dep1 ms e)"

definition menu_add_dep :: "expr option \<Rightarrow> parser \<Rightarrow> parser option" where
  "menu_add_dep dep b = do {
     d \<leftarrow> menu_check_dep (k_modules_sym (b_conf b)) dep;
     Some (b_upd (upd_menu (b_entry b) (m_dep_update (\<lambda>x. expr_alloc_and x d))) b) }"

definition menu_set_type :: "symbol_type \<Rightarrow> parser \<Rightarrow> parser option" where
  "menu_set_type ty b = do {
     s \<leftarrow> m_sym (k_menu (b_conf b) (b_entry b));
     let x = k_sym (b_conf b) s;
     if s_type x = ty then Some b
     else if s_type x = S_UNKNOWN then Some (b_upd (upd_sym s (s_type_update (\<lambda>_. ty))) b)
     else menu_warn (b_entry b) (''ignoring type redefinition of '' @ quoted (name_or_choice (b_conf b) s) @
       '' from '' @ quoted (sym_type_name (s_type x)) @ '' to '' @ quoted (sym_type_name ty)) b }"

section \<open>Properties of the entry\<close>

text \<open>The visibilities of the menus above \<open>m\<close>, copied; \<open>None\<close> is out of fuel.\<close>

fun add_upper :: "nat \<Rightarrow> (mid \<Rightarrow> menu) \<Rightarrow> mid \<Rightarrow> expr option \<Rightarrow> expr option option" where
  "add_upper 0 M m v = None"
| "add_upper (Suc n) M m v = (case m_parent (M m) of None \<Rightarrow> Some v
   | Some p \<Rightarrow> add_upper n M p (case m_visibility (M p) of None \<Rightarrow> v
       | Some e \<Rightarrow> expr_alloc_and v (expr_copy (Some e))))"

definition set_prop_dep :: "pid \<Rightarrow> expr option \<Rightarrow> kconf \<Rightarrow> kconf" where
  "set_prop_dep p v = upd_prop p (p_visible_update (ev_expr_update (\<lambda>_. v)))"

text \<open>The prompt of a property, without its leading white space, becomes that of the entry.\<close>

definition set_prompt :: "prop_type \<Rightarrow> pid \<Rightarrow> string \<Rightarrow> parser \<Rightarrow> parser option" where
  "set_prompt ty p prompt b = do {
     b \<leftarrow> (if prompt \<noteq> [] \<and> isspace (hd prompt) then prop_warn p ''leading whitespace ignored'' b
          else Some b);
     b \<leftarrow> (if m_prompt (k_menu (b_conf b) (b_entry b)) \<noteq> None \<and> b_entry b \<noteq> rootmenu
          then prop_warn p ''prompt redefined'' b else Some b);
     v \<leftarrow> (if ty = P_PROMPT
          then add_upper (Suc (b_menus b)) (k_menu (b_conf b)) (b_entry b) (ev_expr (p_visible (k_prop (b_conf b) p)))
          else Some (ev_expr (p_visible (k_prop (b_conf b) p))));
     Some (b_upd (upd_prop p (p_text_update (\<lambda>_. Some (dropWhile isspace prompt))) \<circ>
       upd_menu (b_entry b) (m_prompt_update (\<lambda>_. Some p)) \<circ> set_prop_dep p v) b) }"

definition menu_add_prop :: "prop_type \<Rightarrow> string option \<Rightarrow> expr option \<Rightarrow> expr option \<Rightarrow> parser \<Rightarrow>
    (pid \<times> parser) option" where
  "menu_add_prop ty prompt e dep b = do {
     let (p, t) = prop_alloc ty (m_sym (k_menu (b_conf b) (b_entry b))) (b_tab b);
     v \<leftarrow> menu_check_dep (k_modules_sym (t_conf t)) dep;
     let b = b_upd (set_prop_dep p v \<circ> upd_prop p (p_expr_update (\<lambda>_. e)) \<circ>
       upd_prop p (p_menu_update (\<lambda>_. Some (b_entry b)))) (b\<lparr>b_tab := t\<rparr>);
     b \<leftarrow> (case prompt of None \<Rightarrow> Some b | Some s \<Rightarrow> set_prompt ty p s b);
     Some (p, b) }"

definition menu_add_prompt :: "prop_type \<Rightarrow> string option \<Rightarrow> expr option \<Rightarrow> parser \<Rightarrow> parser option" where
  "menu_add_prompt ty prompt dep b = map_option snd (menu_add_prop ty prompt None dep b)"

definition menu_add_visibility :: "expr option \<Rightarrow> parser \<Rightarrow> parser" where
  "menu_add_visibility e b =
     b_upd (upd_menu (b_entry b) (m_visibility_update (\<lambda>v. expr_alloc_and v e))) b"

definition menu_add_expr :: "prop_type \<Rightarrow> expr option \<Rightarrow> expr option \<Rightarrow> parser \<Rightarrow> parser option" where
  "menu_add_expr ty e dep b = map_option snd (menu_add_prop ty None e dep b)"

definition menu_add_symbol :: "prop_type \<Rightarrow> sym \<Rightarrow> expr option \<Rightarrow> parser \<Rightarrow> parser option" where
  "menu_add_symbol ty s dep b = map_option snd (menu_add_prop ty None (Some (expr_alloc_symbol s)) dep b)"

definition menu_add_entry :: "sym option \<Rightarrow> parser \<Rightarrow> parser option" where
  "menu_add_entry so b =
     (let m = b_menus b;
          b = b_upd (set_link (b_last b) m \<circ>
            upd_menu m (\<lambda>_. null_menu\<lparr>m_sym := so, m_parent := b_menu b,
              m_file := t_file (b_tab b), m_lineno := t_lineno (b_tab b)\<rparr>)) b;
          b = b\<lparr>b_last := Next m, b_entry := m, b_menus := Suc m\<rparr>
      in case so of None \<Rightarrow> Some b | Some s \<Rightarrow> menu_add_symbol P_SYMBOL s None b)"

definition menu_add_menu :: "parser \<Rightarrow> parser" where
  "menu_add_menu b = b\<lparr>b_last := List (b_entry b), b_menu := Some (b_entry b)\<rparr>"

definition menu_end_menu :: "parser \<Rightarrow> parser option" where
  "menu_end_menu b = do {
     m \<leftarrow> b_menu b;
     Some (b\<lparr>b_last := Next m, b_menu := m_parent (k_menu (b_conf b) m)\<rparr>) }"

datatype option_token = T_OPT_MODULES | T_OPT_DEFCONFIG_LIST | T_OPT_ENV

text \<open>\<open>getenv\<close> is the environment. An option env without an argument reads through NULL.\<close>

definition menu_add_option :: "(string \<Rightarrow> string option) \<Rightarrow> option_token \<Rightarrow> string option \<Rightarrow> parser \<Rightarrow> parser option" where
  "menu_add_option getenv tok arg b =
     (let so = m_sym (k_menu (b_conf b) (b_entry b)) in case tok of
        T_OPT_MODULES \<Rightarrow> do {
          b \<leftarrow> (case k_modules_sym (b_conf b) of None \<Rightarrow> Some b
             | Some m \<Rightarrow> map_option (\<lambda>s. zconf_error (''symbol '' @ quoted (name_or_null (b_conf b) s) @
                 '' redefines option '' @ quoted ''modules'' @ '' already defined by symbol '' @
                 quoted (name_or_null (b_conf b) m)) b) so);
          Some (b_upd (\<lambda>k. k\<lparr>k_modules_sym := so\<rparr>) b) }
      | T_OPT_DEFCONFIG_LIST \<Rightarrow>
          Some (if b_defconfig b = None then b\<lparr>b_defconfig := so\<rparr>
                else if b_defconfig b \<noteq> so then zconf_error ''trying to redefine defconfig symbol'' b
                else b)
      | T_OPT_ENV \<Rightarrow> do {
          s \<leftarrow> so;
          env \<leftarrow> arg;
          (msgs, t) \<leftarrow> prop_add_env getenv s env (b_tab b);
          fold (\<lambda>txt bo. bo \<bind> menu_warn (b_entry b) txt) msgs (Some (b\<lparr>b_tab := t\<rparr>)) })"

section \<open>Actions\<close>

text \<open>What the actions of the grammar do to the entry, one after the other.\<close>

datatype action =
    A_entry "sym option" | A_menu | A_end
  | A_dep "expr option" | A_type symbol_type | A_visibility "expr option"
  | A_prop prop_type "string option" "expr option" "expr option"
  | A_option option_token "string option"

fun act :: "(string \<Rightarrow> string option) \<Rightarrow> action \<Rightarrow> parser \<Rightarrow> parser option" where
  "act getenv (A_entry so) b = menu_add_entry so b"
| "act getenv A_menu b = Some (menu_add_menu b)"
| "act getenv A_end b = menu_end_menu b"
| "act getenv (A_dep d) b = menu_add_dep d b"
| "act getenv (A_type ty) b = menu_set_type ty b"
| "act getenv (A_visibility e) b = Some (menu_add_visibility e b)"
| "act getenv (A_prop ty prompt e dep) b = map_option snd (menu_add_prop ty prompt e dep b)"
| "act getenv (A_option tok arg) b = menu_add_option getenv tok arg b"

fun acts :: "(string \<Rightarrow> string option) \<Rightarrow> action list \<Rightarrow> parser \<Rightarrow> parser option" where
  "acts getenv [] b = Some b"
| "acts getenv (a # as) b = do { b \<leftarrow> act getenv a b; acts getenv as b }"

end
