(* ===== verification/Menutree.thy ===== *)
theory Menutree
  imports Menu
begin

text \<open>
  The tree of menus: what the links hold after a sequence of actions of the parser, compared with
  lists of children and a stack of open menus; what a prompt inherits from the menus above it; and
  what the rewriting of m in dependencies does to their values.
\<close>

section \<open>Linked lists of menus\<close>

fun path :: "(mid \<Rightarrow> mid option) \<Rightarrow> mid option \<Rightarrow> mid list \<Rightarrow> mid option \<Rightarrow> bool" where
  "path f p [] q \<longleftrightarrow> p = q"
| "path f p (x # xs) q \<longleftrightarrow> p = Some x \<and> path f (f x) xs q"

lemma path_append: "path f p (xs @ ys) q \<longleftrightarrow> (\<exists>r. path f p xs r \<and> path f r ys q)"
  by (induction xs arbitrary: p) auto

lemma path_upd: "x \<notin> set xs \<Longrightarrow> path (f(x := y)) p xs q = path f p xs q"
  by (induction xs arbitrary: p) auto

lemma path_cong: "(\<And>x. x \<in> set xs \<Longrightarrow> f x = g x) \<Longrightarrow> path f p xs q = path g p xs q"
  by (induction xs arbitrary: p) auto

lemma path_end: "xs \<noteq> [] \<Longrightarrow> path f p xs q \<Longrightarrow> f (last xs) = q"
  by (induction xs arbitrary: p) (auto split: if_splits)

section \<open>The specification\<close>

record tspec =
  ts_kids :: "mid \<Rightarrow> mid list"
  ts_stack :: "mid list"
  ts_last :: "mid option"
  ts_next :: mid

text \<open>The parser opens a menu only at the entry that it has just added, and closes only menus
  that it has opened.\<close>

fun tspec_act :: "action \<Rightarrow> tspec \<Rightarrow> tspec option" where
  "tspec_act (A_entry so) s =
     (let m = hd (ts_stack s); n = ts_next s in
      Some (s\<lparr>ts_kids := (ts_kids s)(m := ts_kids s m @ [n]), ts_last := Some n, ts_next := Suc n\<rparr>))"
| "tspec_act A_menu s = (case ts_last s of None \<Rightarrow> None
     | Some m \<Rightarrow> Some (s\<lparr>ts_stack := m # ts_stack s, ts_last := None\<rparr>))"
| "tspec_act A_end s = (case ts_stack s of
       m # p # st \<Rightarrow> Some (s\<lparr>ts_stack := p # st, ts_last := None\<rparr>) | _ \<Rightarrow> None)"
| "tspec_act _ s = Some s"

fun tspec_acts :: "action list \<Rightarrow> tspec \<Rightarrow> tspec option" where
  "tspec_acts [] s = Some s"
| "tspec_acts (a # as) s = do { s \<leftarrow> tspec_act a s; tspec_acts as s }"

definition tspec_init :: tspec where
  "tspec_init = \<lparr>ts_kids = (\<lambda>_. []), ts_stack = [rootmenu], ts_last = None, ts_next = 1\<rparr>"

section \<open>What the operations do to the links\<close>

abbreviation menus_of :: "parser \<Rightarrow> mid \<Rightarrow> menu" where
  "menus_of b \<equiv> k_menu (b_conf b)"

definition same_links :: "parser \<Rightarrow> parser \<Rightarrow> bool" where
  "same_links b b' \<longleftrightarrow> b_entry b' = b_entry b \<and> b_menu b' = b_menu b \<and> b_last b' = b_last b \<and>
     b_menus b' = b_menus b \<and> (\<forall>m. m_next (menus_of b' m) = m_next (menus_of b m) \<and>
       m_list (menus_of b' m) = m_list (menus_of b m) \<and>
       m_parent (menus_of b' m) = m_parent (menus_of b m))"

lemma same_links_refl [simp]: "same_links b b"
  by (simp add: same_links_def)

lemma same_links_trans: "same_links a b \<Longrightarrow> same_links b c \<Longrightarrow> same_links a c"
  by (simp add: same_links_def)

lemma same_links_upd:
  assumes "\<And>k m. m_next (k_menu (f k) m) = m_next (k_menu k m)"
    "\<And>k m. m_list (k_menu (f k) m) = m_list (k_menu k m)"
    "\<And>k m. m_parent (k_menu (f k) m) = m_parent (k_menu k m)"
  shows "same_links b (b_upd f b)"
  using assms by (simp add: same_links_def)

lemma upd_links [simp]:
  "same_links b (b_upd (upd_menu m (m_dep_update g)) b)"
  "same_links b (b_upd (upd_menu m (m_visibility_update g)) b)"
  "same_links b (b_upd (upd_sym s h) b)"
  "same_links b (b_upd (\<lambda>k. k\<lparr>k_modules_sym := so\<rparr>) b)"
  by (rule same_links_upd; simp)+

lemma zconf_error_links [simp]:
  "same_links b (zconf_error txt b)" "same_links b (b_upd f (zconf_error txt b)) = same_links b (b_upd f b)"
  by (simp_all add: zconf_error_def same_links_def)

lemma warn_at_links: "warn_at f l txt b = Some b' \<Longrightarrow> same_links b b'"
  by (auto simp: warn_at_def same_links_def)

lemma warn_links: "menu_warn m txt b = Some b' \<Longrightarrow> same_links b b'"
  "prop_warn p txt b = Some b' \<Longrightarrow> same_links b b'"
  by (auto simp: menu_warn_def prop_warn_def dest: warn_at_links)

lemma tab_links: "k_menu (t_conf t) = menus_of b \<Longrightarrow> same_links b (b\<lparr>b_tab := t\<rparr>)"
  by (simp add: same_links_def)

lemma prop_alloc_menus: "k_menu (t_conf (snd (prop_alloc ty so t))) = k_menu (t_conf t)"
  by (simp add: prop_alloc_def Let_def split: option.split)

lemma links_of_menus:
  "menus_of b' = menus_of b \<Longrightarrow> b_entry b' = b_entry b \<Longrightarrow> b_menu b' = b_menu b \<Longrightarrow>
   b_last b' = b_last b \<Longrightarrow> b_menus b' = b_menus b \<Longrightarrow> same_links b b'"
  by (simp add: same_links_def)

lemma if_warn_links: "(if c then prop_warn p txt b else Some b) = Some b' \<Longrightarrow> same_links b b'"
  by (auto split: if_splits dest: warn_links)

lemma set_prompt_links:
  assumes "set_prompt ty p s b = Some b'"
  shows "same_links b b'"
proof -
  from assms [unfolded set_prompt_def bind_eq_Some_conv option.inject] obtain b1 b2 v where
    b1: "(if s \<noteq> [] \<and> isspace (hd s) then prop_warn p ''leading whitespace ignored'' b else Some b) = Some b1"
    and b2: "(if m_prompt (menus_of b1 (b_entry b1)) \<noteq> None \<and> b_entry b1 \<noteq> rootmenu
      then prop_warn p ''prompt redefined'' b1 else Some b1) = Some b2"
    and b': "b_upd (upd_prop p (p_text_update (\<lambda>_. Some (dropWhile isspace s))) \<circ>
       upd_menu (b_entry b2) (m_prompt_update (\<lambda>_. Some p)) \<circ> set_prop_dep p v) b2 = b'"
    by blast
  have "same_links b2 b'" unfolding b' [symmetric] by (rule same_links_upd) (simp_all add: set_prop_dep_def)
  with if_warn_links [OF b1] if_warn_links [OF b2] show ?thesis using same_links_trans by blast
qed

lemma menu_add_prop_links:
  assumes "menu_add_prop ty prompt e dep b = Some (p, b')"
  shows "same_links b b'"
proof -
  obtain q t where a: "prop_alloc ty (m_sym (menus_of b (b_entry b))) (b_tab b) = (q, t)"
    by (cases "prop_alloc ty (m_sym (menus_of b (b_entry b))) (b_tab b)") auto
  from assms [unfolded menu_add_prop_def Let_def a prod.case bind_eq_Some_conv option.inject prod.inject]
  obtain v b1 where b1: "b1 = b_upd (set_prop_dep q v \<circ> upd_prop q (p_expr_update (\<lambda>_. e)) \<circ>
       upd_prop q (p_menu_update (\<lambda>_. Some (b_entry b)))) (b\<lparr>b_tab := t\<rparr>)"
    and b': "(case prompt of None \<Rightarrow> Some b1 | Some s \<Rightarrow> set_prompt ty q s b1) = Some b'"
    by blast
  have "k_menu (t_conf t) = menus_of b"
    using prop_alloc_menus [of ty "m_sym (menus_of b (b_entry b))" "b_tab b"] a by (simp add: b_conf_def)
  then have "same_links b b1" unfolding b1 by (intro links_of_menus) (simp_all add: set_prop_dep_def)
  moreover have "same_links b1 b'" using b' by (auto split: option.splits dest: set_prompt_links)
  ultimately show ?thesis by (rule same_links_trans)
qed

lemma sym_add_default_menus: "k_menu (t_conf (sym_add_default s d t)) = k_menu (t_conf t)"
  by (auto simp: sym_add_default_def set_prop_expr_def prop_alloc_def sym_lookup_def new_symbol_def Let_def
      split: option.splits prod.splits)

lemma sym_lookup_menus: "k_menu (t_conf (snd (sym_lookup n F t))) = k_menu (t_conf t)"
  by (simp add: sym_lookup_def new_symbol_def Let_def split: option.splits)

lemma prop_add_env_menus:
  assumes "prop_add_env getenv s env t = Some (msgs, t')"
  shows "k_menu (t_conf t') = k_menu (t_conf t)"
proof -
  define t1 where "t1 = t\<lparr>t_conf := flag_on SYMBOL_AUTO s (t_conf t)\<rparr>"
  have t1: "k_menu (t_conf t1) = k_menu (t_conf t)" by (simp add: t1_def flag_on_def)
  show ?thesis
  proof (cases "for_all_properties (t_conf t1) s P_ENV")
    case Nil
    obtain p t2 e t3 where pa: "prop_alloc P_ENV (Some s) t1 = (p, t2)" and l: "sym_lookup (Some env) {SYMBOL_CONST} t2 = (e, t3)"
      by (metis surj_pair)
    have "k_menu (t_conf t3) = k_menu (t_conf t)"
      using prop_alloc_menus [of P_ENV "Some s" t1] sym_lookup_menus [of "Some env" "{SYMBOL_CONST}" t2] pa l t1 by simp
    with assms Nil show ?thesis
      by (auto simp: prop_add_env_def t1_def [symmetric] Let_def pa l set_prop_expr_def sym_add_default_menus
          split: option.splits)
  next
    case (Cons p ps)
    with assms t1 show ?thesis
      by (auto simp: prop_add_env_def t1_def [symmetric] Let_def bind_eq_Some_conv)
  qed
qed

lemma warn_fold_links:
  "fold (\<lambda>txt bo. bo \<bind> menu_warn (b_entry b0) txt) msgs (Some b) = Some b' \<Longrightarrow> same_links b b'"
proof (induction msgs arbitrary: b)
  case (Cons w msgs)
  have none: "fold (\<lambda>txt bo. bo \<bind> menu_warn (b_entry b0) txt) msgs None = None" for msgs
    by (induction msgs) auto
  from Cons.prems none obtain b1 where "menu_warn (b_entry b0) w b = Some b1"
    "fold (\<lambda>txt bo. bo \<bind> menu_warn (b_entry b0) txt) msgs (Some b1) = Some b'"
    by (cases "menu_warn (b_entry b0) w b") auto
  with Cons.IH warn_links(1) same_links_trans show ?case by blast
qed simp

lemma menu_add_option_links:
  assumes "menu_add_option getenv tok arg b = Some b'"
  shows "same_links b b'"
proof (cases tok)
  case T_OPT_MODULES
  from assms [unfolded menu_add_option_def T_OPT_MODULES option_token.case Let_def bind_eq_Some_conv option.inject]
  obtain b1 so where "b' = b_upd (\<lambda>k. k\<lparr>k_modules_sym := so\<rparr>) b1" "b1 = b \<or> (\<exists>txt. b1 = zconf_error txt b)"
    by (auto split: option.splits)
  then show ?thesis by auto
next
  case T_OPT_DEFCONFIG_LIST
  then show ?thesis using assms by (auto simp: menu_add_option_def Let_def same_links_def zconf_error_def split: if_splits)
next
  case T_OPT_ENV
  from assms [unfolded menu_add_option_def T_OPT_ENV option_token.case Let_def bind_eq_Some_conv]
  obtain s env r where r: "prop_add_env getenv s env (b_tab b) = Some r"
    "(case r of (msgs, t) \<Rightarrow> fold (\<lambda>txt bo. bo \<bind> menu_warn (b_entry b) txt) msgs (Some (b\<lparr>b_tab := t\<rparr>))) = Some b'"
    by blast
  obtain msgs t where "r = (msgs, t)" by (cases r)
  with r have e: "prop_add_env getenv s env (b_tab b) = Some (msgs, t)"
    "fold (\<lambda>txt bo. bo \<bind> menu_warn (b_entry b) txt) msgs (Some (b\<lparr>b_tab := t\<rparr>)) = Some b'" by simp_all
  have "same_links b (b\<lparr>b_tab := t\<rparr>)"
    by (rule tab_links) (simp add: prop_add_env_menus [OF e(1)] b_conf_def)
  then show ?thesis using warn_fold_links [OF e(2)] by (rule same_links_trans)
qed

lemma other_links:
  assumes "act getenv a b = Some b'" "\<forall>so. a \<noteq> A_entry so" "a \<noteq> A_menu" "a \<noteq> A_end"
  shows "same_links b b'"
proof (cases a)
  case (A_dep d)
  then show ?thesis using assms by (auto simp: menu_add_dep_def elim!: bind_eq_SomeE)
next
  case (A_type ty)
  from assms(1) [unfolded A_type act.simps menu_set_type_def Let_def bind_eq_Some_conv] show ?thesis
    by (auto split: if_splits intro: warn_links)
next
  case (A_visibility e)
  then show ?thesis using assms by (auto simp: menu_add_visibility_def)
next
  case (A_prop ty prompt e dep)
  then show ?thesis using assms menu_add_prop_links by auto
next
  case (A_option tok arg)
  then show ?thesis using assms menu_add_option_links by auto
qed (use assms in auto)

section \<open>The links hold the lists of children\<close>

text \<open>The menus below \<open>n\<close> are linked as the lists of children say.\<close>

definition kids_ok :: "(mid \<Rightarrow> menu) \<Rightarrow> (mid \<Rightarrow> mid list) \<Rightarrow> nat \<Rightarrow> bool" where
  "kids_ok M kids n \<longleftrightarrow>
     (\<forall>m < n. path (\<lambda>m. m_next (M m)) (m_list (M m)) (kids m) None) \<and> (\<forall>m. distinct (kids m)) \<and>
     (\<forall>m. \<forall>c \<in> set (kids m). m < c \<and> c < n \<and> m_parent (M c) = Some m)"

definition cursor :: "(mid \<Rightarrow> mid list) \<Rightarrow> mid \<Rightarrow> link" where
  "cursor kids m = (if kids m = [] then List m else Next (last (kids m)))"

text \<open>Every open menu is the last entry of the one around it.\<close>

fun tops :: "(mid \<Rightarrow> mid list) \<Rightarrow> mid list \<Rightarrow> bool" where
  "tops kids (c # p # st) \<longleftrightarrow> kids p \<noteq> [] \<and> last (kids p) = c \<and> tops kids (p # st)"
| "tops kids st \<longleftrightarrow> True"

definition built :: "parser \<Rightarrow> tspec \<Rightarrow> bool" where
  "built b s \<longleftrightarrow>
     kids_ok (menus_of b) (ts_kids s) (ts_next s) \<and> b_menus b = ts_next s \<and>
     ts_stack s \<noteq> [] \<and> set (ts_stack s) \<subseteq> {..<ts_next s} \<and>
     path (\<lambda>m. m_parent (menus_of b m)) (b_menu b) (ts_stack s) None \<and>
     b_last b = cursor (ts_kids s) (hd (ts_stack s)) \<and> tops (ts_kids s) (ts_stack s) \<and>
     (\<forall>e. ts_last s = Some e \<longrightarrow> e = b_entry b \<and> ts_kids s (hd (ts_stack s)) \<noteq> [] \<and>
        e = last (ts_kids s (hd (ts_stack s))) \<and> ts_kids s e = [])"

lemma kids_okD:
  assumes "kids_ok M kids n"
  shows "m < n \<Longrightarrow> path (\<lambda>m. m_next (M m)) (m_list (M m)) (kids m) None"
    and "distinct (kids m)"
    and "c \<in> set (kids m) \<Longrightarrow> m < c" "c \<in> set (kids m) \<Longrightarrow> c < n"
    and "c \<in> set (kids m) \<Longrightarrow> m_parent (M c) = Some m"
  using assms by (auto simp: kids_ok_def)

lemma kids_ok_none: "kids_ok M kids n \<Longrightarrow> n \<le> m \<Longrightarrow> kids m = []"
  using kids_okD(3,4) [of M kids n "hd (kids m)" m] by (cases "kids m") auto

lemma tops_less: "kids_ok M kids n \<Longrightarrow> tops kids (c # st) \<Longrightarrow> x \<in> set st \<Longrightarrow> x < c"
proof (induction st arbitrary: c)
  case (Cons p st)
  then have "p < c" using kids_okD(3) [of M kids n c p] by auto
  with Cons show ?case by (auto intro: less_trans)
qed simp

lemma tops_add: "cur \<notin> set st \<Longrightarrow> tops (kids(cur := xs)) (c # st) = tops kids (c # st)"
  by (induction st arbitrary: c) auto

lemma built_links:
  assumes "built b s" "same_links b b'"
  shows "built b' s"
proof -
  have "(\<lambda>m. m_next (menus_of b' m)) = (\<lambda>m. m_next (menus_of b m))"
    "(\<lambda>m. m_parent (menus_of b' m)) = (\<lambda>m. m_parent (menus_of b m))"
    "\<And>m. m_list (menus_of b' m) = m_list (menus_of b m)"
    "\<And>m. m_parent (menus_of b' m) = m_parent (menus_of b m)"
    "b_menus b' = b_menus b" "b_menu b' = b_menu b" "b_last b' = b_last b" "b_entry b' = b_entry b"
    using assms(2) by (auto simp: same_links_def)
  with assms(1) show ?thesis unfolding built_def kids_ok_def by simp
qed

text \<open>The entry that is added at the end of the open menu.\<close>

lemma kids_ok_add:
  assumes M: "kids_ok M kids n" "cur < n" and x: "m_next x = None" "m_list x = None" "m_parent x = Some cur"
    and M': "M' = k_menu (set_link (cursor kids cur) n (upd_menu n (\<lambda>_. x) k))" "M = k_menu k"
  shows "kids_ok M' (kids(cur := kids cur @ [n])) (Suc n)"
    and "m \<noteq> n \<Longrightarrow> m_parent (M' m) = m_parent (M m)"
proof -
  note D = kids_okD [OF M(1)]
  let ?l = "last (kids cur)" and ?kids = "kids(cur := kids cur @ [n])"
  have new: "c \<in> set (kids m) \<Longrightarrow> c \<noteq> n" for c m using D(4) by blast
  have l: "?l \<noteq> n" "?l \<noteq> cur" "m \<noteq> cur \<Longrightarrow> ?l \<notin> set (kids m)" if "kids cur \<noteq> []" for m
  proof -
    have "?l \<in> set (kids cur)" using that by simp
    then show "?l \<noteq> n" "?l \<noteq> cur" using new [of ?l cur] D(3) [of ?l cur] by auto
    show "?l \<notin> set (kids m)" if "m \<noteq> cur"
      using \<open>?l \<in> set (kids cur)\<close> D(5) [of ?l cur] D(5) [of ?l m] that by auto
  qed
  have par: "m_parent (M' m) = (if m = n then Some cur else m_parent (M m))" for m
    using x M(2) l by (cases "kids cur = []") (auto simp: M' cursor_def)
  then show "m \<noteq> n \<Longrightarrow> m_parent (M' m) = m_parent (M m)" for m by simp
  have lst: "m_list (M' m) = (if m = n then None else if m = cur \<and> kids cur = [] then Some n else m_list (M m))" for m
    using x M(2) l by (cases "kids cur = []") (auto simp: M' cursor_def)
  have nxt: "m_next (M' m) = (if m = n then None else if kids cur \<noteq> [] \<and> m = ?l then Some n else m_next (M m))" for m
    using x M(2) l by (cases "kids cur = []") (auto simp: M' cursor_def)
  have "path (\<lambda>m. m_next (M' m)) (m_list (M' m)) (?kids m) None" if ms: "m < Suc n" for m
  proof -
    consider "m = n" | "m = cur" "kids cur = []" "m < n" | "m = cur" "kids cur \<noteq> []" "m < n" | "m \<noteq> cur" "m < n"
      using ms M(2) by (cases "m = cur"; cases "kids cur = []"; cases "m = n") auto
    then show ?thesis
    proof cases
      case 1
      then show ?thesis using kids_ok_none [OF M(1), of n] M(2) lst by simp
    next
      case 2
      then show ?thesis using lst nxt M(2) by simp
    next
      case 3
      define ys where "ys = butlast (kids cur)"
      have k: "kids cur = ys @ [?l]" using 3 by (simp add: ys_def)
      then have "?l \<notin> set ys" using D(2) [of cur] by (metis distinct_append distinct_singleton disjoint_insert(1) list.simps(15))
      moreover have "n \<notin> set ys" using new [of n cur] k by (metis Un_iff set_append)
      ultimately have "path (\<lambda>m. m_next (M' m)) p ys q = path (\<lambda>m. m_next (M m)) p ys q" for p q
        using new [of _ cur] k by (intro path_cong) (auto simp: nxt)
      moreover have "path (\<lambda>m. m_next (M m)) (m_list (M cur)) (ys @ [?l]) None" using D(1) [OF M(2)] k by simp
      ultimately have "path (\<lambda>m. m_next (M' m)) (m_list (M' cur)) ((ys @ [?l]) @ [n]) None"
        using 3 l(1) M(2) by (auto simp: path_append lst nxt)
      then show ?thesis using k 3(1) by simp
    next
      case 4
      have "path (\<lambda>m. m_next (M' m)) p (kids m) None = path (\<lambda>m. m_next (M m)) p (kids m) None" for p
        using new [of _ m] l(3) [OF _ 4(1)] by (intro path_cong) (auto simp: nxt)
      then show ?thesis using 4 D(1) [OF 4(2)] lst by simp
    qed
  qed
  moreover have "distinct (?kids m)" for m using D(2) [of m] new [of n cur] by auto
  moreover have "m < c \<and> c < Suc n \<and> m_parent (M' c) = Some m" if "c \<in> set (?kids m)" for m c
    using that D(3,4,5) [of c m] new [of c m] M(2) par by (cases "m = cur") auto
  ultimately show "kids_ok M' ?kids (Suc n)" by (simp add: kids_ok_def)
qed

lemma built_entry:
  assumes b: "built b s"
    and x: "m_next x = None" "m_list x = None" "m_parent x = b_menu b"
    and b': "menus_of b' = k_menu (set_link (b_last b) (b_menus b) (upd_menu (b_menus b) (\<lambda>_. x) (b_conf b)))"
      "b_last b' = Next (b_menus b)" "b_entry b' = b_menus b" "b_menus b' = Suc (b_menus b)" "b_menu b' = b_menu b"
    and s': "tspec_act (A_entry so) s = Some s'"
  shows "built b' s'"
proof -
  let ?n = "ts_next s" and ?cur = "hd (ts_stack s)"
  have D: "kids_ok (menus_of b) (ts_kids s) ?n" "b_menus b = ?n" "ts_stack s \<noteq> []"
    "set (ts_stack s) \<subseteq> {..<?n}" "path (\<lambda>m. m_parent (menus_of b m)) (b_menu b) (ts_stack s) None"
    "b_last b = cursor (ts_kids s) ?cur" "tops (ts_kids s) (?cur # tl (ts_stack s))"
    using b by (simp_all add: built_def)
  have cur: "?cur < ?n" "b_menu b = Some ?cur" using D(3,4,5) by (auto simp: neq_Nil_conv)
  have s'd: "ts_kids s' = (ts_kids s)(?cur := ts_kids s ?cur @ [?n])" "ts_stack s' = ts_stack s"
    "ts_last s' = Some ?n" "ts_next s' = Suc ?n"
    using s' by (auto simp: Let_def)
  note add = kids_ok_add [OF D(1) cur(1) x(1,2) x(3) [unfolded cur(2)] _ refl, of "menus_of b'"]
  have M': "menus_of b' = k_menu (set_link (cursor (ts_kids s) ?cur) ?n (upd_menu ?n (\<lambda>_. x) (b_conf b)))"
    using b'(1) D(2,6) by simp
  have "x \<in> set (ts_stack s) \<Longrightarrow> m_parent (menus_of b' x) = m_parent (menus_of b x)" for x
    using add(2) [OF M', of x] D(4) by auto
  then have "path (\<lambda>m. m_parent (menus_of b' m)) (b_menu b) (ts_stack s) None"
    using D(5) path_cong [of "ts_stack s" "\<lambda>m. m_parent (menus_of b' m)" "\<lambda>m. m_parent (menus_of b m)"] by simp
  moreover have "ts_kids s ?n = []" using kids_ok_none [OF D(1)] by simp
  moreover have "?cur \<notin> set (tl (ts_stack s))" using tops_less [OF D(1,7)] by blast
  then have "tops ((ts_kids s)(?cur := ts_kids s ?cur @ [?n])) (ts_stack s)"
    using D(3,7) tops_add by (metis list.collapse)
  ultimately show ?thesis
    using add(1) [OF M'] D(2,3,4) cur(1) unfolding built_def s'd b'(2-5) by (auto simp: cursor_def)
qed

lemma built_act:
  assumes b: "built b s" and act: "act getenv a b = Some b'" and s: "tspec_act a s = Some s'"
  shows "built b' s'"
proof (cases a)
  case (A_entry so)
  let ?x = "null_menu\<lparr>m_sym := so, m_parent := b_menu b, m_file := t_file (b_tab b), m_lineno := t_lineno (b_tab b)\<rparr>"
  let ?f = "set_link (b_last b) (b_menus b) \<circ> upd_menu (b_menus b) (\<lambda>_. ?x)"
  let ?b = "(b_upd ?f b)\<lparr>b_last := Next (b_menus b), b_entry := b_menus b, b_menus := Suc (b_menus b)\<rparr>"
  have "built ?b s'"
    by (rule built_entry [OF b, of ?x]) (use s A_entry in \<open>auto simp: null_menu_def\<close>)
  moreover have "same_links ?b b'"
    using act unfolding A_entry act.simps menu_add_entry_def Let_def
    by (auto simp: menu_add_symbol_def simp del: b_upd_simps b_conf_upd split: option.splits dest: menu_add_prop_links)
  ultimately show ?thesis by (rule built_links)
next
  case A_menu
  then obtain e where e: "ts_last s = Some e" "s' = s\<lparr>ts_stack := e # ts_stack s, ts_last := None\<rparr>"
    using s by (auto split: option.splits)
  have D: "e = b_entry b" "ts_kids s (hd (ts_stack s)) \<noteq> []" "e = last (ts_kids s (hd (ts_stack s)))" "ts_kids s e = []"
    "kids_ok (menus_of b) (ts_kids s) (ts_next s)"
    "path (\<lambda>m. m_parent (menus_of b m)) (b_menu b) (ts_stack s) None" "ts_stack s \<noteq> []"
    using b e(1) by (auto simp: built_def)
  have m: "b_menu b = Some (hd (ts_stack s))" using D(6,7) by (auto simp: neq_Nil_conv)
  have i: "e \<in> set (ts_kids s (hd (ts_stack s)))" using D(2,3) by simp
  have "tops (ts_kids s) (e # ts_stack s)" using b D(2,3,7) by (cases "ts_stack s") (auto simp: built_def)
  with b D m kids_okD(4,5) [OF D(5) i] act A_menu show ?thesis
    by (auto simp: built_def e(2) menu_add_menu_def cursor_def)
next
  case A_end
  then obtain m p st where st: "ts_stack s = m # p # st" "s' = s\<lparr>ts_stack := p # st, ts_last := None\<rparr>"
    using s by (auto split: list.splits)
  have D: "kids_ok (menus_of b) (ts_kids s) (ts_next s)" "b_menus b = ts_next s"
    "set (p # st) \<subseteq> {..<ts_next s}" "b_menu b = Some m" "m_parent (menus_of b m) = Some p"
    "path (\<lambda>m. m_parent (menus_of b m)) (Some p) (p # st) None"
    using b by (auto simp: built_def st(1))
  have "ts_kids s p \<noteq> []" "m = last (ts_kids s p)" "tops (ts_kids s) (p # st)"
    using b by (auto simp: built_def st(1))
  with D b act A_end show ?thesis
    by (auto simp: built_def st menu_end_menu_def cursor_def)
next
  case (A_dep d)
  then show ?thesis using other_links [OF act] built_links [OF b] s by auto
next
  case (A_type ty)
  then show ?thesis using other_links [OF act] built_links [OF b] s by auto
next
  case (A_visibility e)
  then show ?thesis using other_links [OF act] built_links [OF b] s by auto
next
  case (A_prop ty prompt e d)
  then show ?thesis using other_links [OF act] built_links [OF b] s by auto
next
  case (A_option tok arg)
  then show ?thesis using other_links [OF act] built_links [OF b] s by auto
qed

lemma built_acts:
  "built b s \<Longrightarrow> acts getenv as b = Some b' \<Longrightarrow> tspec_acts as s = Some s' \<Longrightarrow> built b' s'"
proof (induction as arbitrary: b s)
  case (Cons a as)
  then obtain b1 s1 where "act getenv a b = Some b1" "acts getenv as b1 = Some b'"
    "tspec_act a s = Some s1" "tspec_acts as s1 = Some s'" by (auto elim!: bind_eq_SomeE)
  with Cons built_act show ?case by blast
qed simp

text \<open>The parser as it starts: only the root menu, with nothing in it.\<close>

definition parser_start :: "parser \<Rightarrow> bool" where
  "parser_start b \<longleftrightarrow> b_menus b = 1 \<and> m_list (menus_of b rootmenu) = None \<and> m_parent (menus_of b rootmenu) = None"

lemma built_init: "parser_start b \<Longrightarrow> built (menu_init b) tspec_init"
  by (simp add: built_def tspec_init_def menu_init_def parser_start_def kids_ok_def cursor_def)

text \<open>C6 The menu tree: after any sequence of the parser's actions that opens a menu only at the
  entry it has just added and closes only what it opened, the links next, list and parent of every
  menu hold exactly the entries that were added while the menu was open, in the order of the file;
  every entry has one number, larger than that of its parent.\<close>

theorem menus_built:
  assumes "parser_start b" "acts getenv as (menu_init b) = Some b'" "tspec_acts as tspec_init = Some s"
  shows "b_menus b' = ts_next s \<and>
    (\<forall>m < b_menus b'. path (\<lambda>x. m_next (menus_of b' x)) (m_list (menus_of b' m)) (ts_kids s m) None \<and>
      (\<forall>c \<in> set (ts_kids s m). m_parent (menus_of b' c) = Some m \<and> m < c \<and> c < b_menus b')) \<and>
    path (\<lambda>x. m_parent (menus_of b' x)) (b_menu b') (ts_stack s) None"
proof -
  have b: "built b' s" using built_acts [OF built_init [OF assms(1)] assms(2,3)] .
  then have k: "kids_ok (menus_of b') (ts_kids s) (ts_next s)" by (simp add: built_def)
  show ?thesis
    using b kids_okD(1) [OF k] kids_okD(3,4,5) [OF k] by (auto simp: built_def)
qed

section \<open>Visibility of prompts\<close>

lemma path_unique: "path f p xs None \<Longrightarrow> path f p ys None \<Longrightarrow> xs = ys"
proof (induction xs arbitrary: p ys)
  case Nil
  then show ?case by (cases ys) auto
next
  case (Cons x xs)
  then show ?case by (cases ys) auto
qed

lemma path_distinct: "path f p xs None \<Longrightarrow> distinct xs"
proof (induction xs arbitrary: p)
  case (Cons x xs)
  have "x \<notin> set xs"
  proof
    assume "x \<in> set xs"
    then obtain ys zs where xs: "xs = ys @ x # zs" by (auto simp: in_set_conv_decomp)
    with Cons.prems have "path f (f x) xs None" "path f (f x) zs None" by (auto simp: path_append)
    then have "xs = zs" by (rule path_unique)
    then have "length xs = length zs" by simp
    with xs show False by simp
  qed
  with Cons show ?case by auto
qed simp

definition upper_val :: "valuation \<Rightarrow> (mid \<Rightarrow> menu) \<Rightarrow> mid list \<Rightarrow> tristate \<Rightarrow> tristate" where
  "upper_val V M ms t = foldr (\<lambda>m t. min (expr_val_opt V (m_visibility (M m))) t) ms t"

lemma upper_val_min: "upper_val V M ms (min a t) = min a (upper_val V M ms t)"
  by (induction ms) (auto simp: upper_val_def min.left_commute)

lemma expr_alloc_and_val: "expr_val_opt V (expr_alloc_and a b) = min (expr_val_opt V a) (expr_val_opt V b)"
  by (cases a; cases b) (simp_all add: tri_simps)

lemma add_upper_val:
  assumes "path (\<lambda>m. m_parent (M m)) (m_parent (M m)) ms None" "length ms < n"
    "\<forall>m \<in> set ms. \<forall>e. m_visibility (M m) = Some e \<longrightarrow> dep_expr e"
  shows "\<exists>v'. add_upper n M m v = Some v' \<and> expr_val_opt V v' = upper_val V M ms (expr_val_opt V v)"
  using assms
proof (induction ms arbitrary: n m v)
  case Nil
  then show ?case by (cases n) (auto simp: upper_val_def)
next
  case (Cons p ms)
  then obtain n' where n: "n = Suc n'" by (cases n) auto
  define w where "w = (case m_visibility (M p) of None \<Rightarrow> v | Some e \<Rightarrow> expr_alloc_and v (expr_copy (Some e)))"
  have "expr_val_opt V w = min (expr_val_opt V (m_visibility (M p))) (expr_val_opt V v)"
    using Cons.prems(3) by (auto simp: w_def expr_alloc_and_val expr_copy_dep min.commute split: option.split)
  moreover have "\<exists>v'. add_upper n' M p w = Some v' \<and> expr_val_opt V v' = upper_val V M ms (expr_val_opt V w)"
    by (rule Cons.IH) (use Cons.prems n in auto)
  moreover have "add_upper n M m v = add_upper n' M p w" using Cons.prems(1) n by (simp add: w_def)
  ultimately show ?case by (simp add: upper_val_min) (simp add: upper_val_def)
qed


lemma prop_warn_total:
  "p_file (k_prop (b_conf b) p) \<noteq> None \<Longrightarrow> \<exists>out. prop_warn p txt b = Some (b\<lparr>b_out := out\<rparr>)"
  by (auto simp: prop_warn_def warn_at_def)

lemma out_same: "b = b\<lparr>b_out := b_out b\<rparr>" for b :: parser
  by simp

lemma if_warn_total:
  "p_file (k_prop (b_conf b) p) \<noteq> None \<Longrightarrow>
   \<exists>out. (if c then prop_warn p txt b else Some b) = Some (b\<lparr>b_out := out\<rparr>)"
  using prop_warn_total [of b p] out_same [of b] by (cases c) metis+

lemma set_prompt_total:
  assumes "p_file (k_prop (b_conf b) p) \<noteq> None"
    "add_upper (Suc (b_menus b)) (menus_of b) (b_entry b) (ev_expr (p_visible (k_prop (b_conf b) p))) = Some v"
  shows "\<exists>out. set_prompt P_PROMPT p s b =
    Some (b_upd (upd_prop p (p_text_update (\<lambda>_. Some (dropWhile isspace s))) \<circ>
       upd_menu (b_entry b) (m_prompt_update (\<lambda>_. Some p)) \<circ> set_prop_dep p v) (b\<lparr>b_out := out\<rparr>))"
proof -
  obtain o1 where o1: "(if s \<noteq> [] \<and> isspace (hd s) then prop_warn p ''leading whitespace ignored'' b else Some b) =
      Some (b\<lparr>b_out := o1\<rparr>)"
    using if_warn_total [OF assms(1)] by blast
  let ?b = "b\<lparr>b_out := o1\<rparr>"
  have f: "p_file (k_prop (b_conf ?b) p) \<noteq> None" using assms(1) by simp
  obtain o2 where o2: "(if m_prompt (menus_of ?b (b_entry ?b)) \<noteq> None \<and> b_entry ?b \<noteq> rootmenu
      then prop_warn p ''prompt redefined'' ?b else Some ?b) = Some (?b\<lparr>b_out := o2\<rparr>)"
    using if_warn_total [OF f] by blast
  show ?thesis
    unfolding set_prompt_def o1 bind.bind_lunit o2 using assms(2) by auto
qed


text \<open>The rewriting of dependencies: under every valuation the rewritten expression has the value
  of the original one with m worth the smaller of m and the value of the symbol with the option
  modules; so m cannot be chosen without modules. Comparisons with m are left alone.\<close>

theorem check_dep_value:
  "\<exists>e'. menu_check_dep1 (Some ms) e = Some e' \<and>
     (\<forall>V. expr_val V e' = expr_val (V(symbol_mod := (min (fst (V symbol_mod)) (fst (V ms)), snd (V symbol_mod)))) e)"
proof (induction e)
  case (e_symbol s)
  then show ?case by (auto simp: tri_simps)
qed auto


text \<open>A menu that is visible if n, with a bool FOO in it.\<close>

definition sample_actions :: "action list" where
  "sample_actions = [A_entry None, A_visibility (Some (e_symbol symbol_no)), A_menu, A_entry (Some (Sym 0))]"

definition sample_parser :: parser where
  "sample_parser = \<lparr>b_tab = empty_tab\<lparr>t_file := Some ''Config.in'',
       t_conf := empty_conf\<lparr>k_menu := (\<lambda>_. null_menu), k_modules_sym := Some symbol_no\<rparr>\<rparr>,
     b_entry = 0, b_menu = None, b_last = Next 0, b_menus = 1, b_defconfig = None, b_out = []\<rparr>"

lemma sample_acts: "\<exists>b. acts (\<lambda>_. None) sample_actions (menu_init sample_parser) = Some b \<and>
    m_visibility (menus_of b 0) = None \<and> m_visibility (menus_of b 1) = Some (e_symbol symbol_no) \<and>
    t_file (b_tab b) = Some ''Config.in'' \<and> k_modules_sym (b_conf b) = Some symbol_no"
  by (simp add: sample_actions_def sample_parser_def empty_tab_def empty_conf_def menu_init_def
      menu_add_entry_def menu_add_visibility_def menu_add_menu_def menu_add_symbol_def menu_add_prop_def
      prop_alloc_def null_menu_def set_prop_dep_def b_conf_def b_upd_def Let_def upd_defs)

definition sample_kids :: "mid \<Rightarrow> mid list" where
  "sample_kids = (\<lambda>_. [])(0 := [1], 1 := [2])"

lemma sample_spec: "tspec_acts sample_actions tspec_init = Some (tspec_init
    \<lparr>ts_kids := sample_kids, ts_stack := [1, 0], ts_last := Some 2, ts_next := 3\<rparr>)"
  by (simp add: sample_actions_def tspec_init_def sample_kids_def fun_eq_iff)

lemma sample_start: "parser_start sample_parser"
  by (simp add: parser_start_def sample_parser_def b_conf_def null_menu_def)

theorem menus_built_witness:
  "\<exists>b. acts (\<lambda>_. None) sample_actions (menu_init sample_parser) = Some b \<and>
     m_parent (menus_of b 2) = Some 1 \<and> m_list (menus_of b 1) = Some 2 \<and> m_next (menus_of b 2) = None"
proof -
  obtain b where b: "acts (\<lambda>_. None) sample_actions (menu_init sample_parser) = Some b"
    using sample_acts by blast
  have w: "b_menus b = 3 \<and> (\<forall>m < b_menus b. path (\<lambda>x. m_next (menus_of b x)) (m_list (menus_of b m)) (sample_kids m) None \<and>
      (\<forall>c \<in> set (sample_kids m). m_parent (menus_of b c) = Some m))"
    using menus_built [OF sample_start b sample_spec] by simp
  have "1 < b_menus b" using w by simp
  with w have "path (\<lambda>x. m_next (menus_of b x)) (m_list (menus_of b 1)) (sample_kids 1) None"
    "\<forall>c \<in> set (sample_kids 1). m_parent (menus_of b c) = Some 1" by blast+
  then show ?thesis using b by (simp add: sample_kids_def)
qed


end
