(* ===== verification/Menufin.thy ===== *)
theory Menufin
  imports Menutree Symset
begin

text \<open>
  \<^verbatim>\<open>menu_finalize\<close> of \<^verbatim>\<open>menu.c\<close>: the dependencies of a menu go down to its
  entries and their properties, entries that depend on the entry before them become its children,
  entries without a prompt give their children to their parent, choices collect their values, and
  the properties are checked. The loops follow the links as they are when the loop gets there; the
  fuel is explained in theory \<open>Menuorder\<close>. \<open>None\<close> is out of fuel or a read through NULL.
\<close>

section \<open>Checks\<close>

text \<open>\<^verbatim>\<open>sym2->name\<close> NULL is read by \<^verbatim>\<open>sym_string_valid\<close>.\<close>

definition menu_validate_number :: "kconf \<Rightarrow> sym \<Rightarrow> sym \<Rightarrow> bool option" where
  "menu_validate_number k s s2 =
     (let x2 = k_sym k s2 in
      if s_type x2 = S_INT \<or> s_type x2 = S_HEX then Some True
      else if s_type x2 = S_UNKNOWN then map_option (sym_string_valid (s_type (k_sym k s))) (s_name x2)
      else Some False)"

definition warn_if :: "bool \<Rightarrow> pid \<Rightarrow> string \<Rightarrow> parser \<Rightarrow> parser option" where
  "warn_if c p msg b = (if c then prop_warn p msg b else Some b)"

definition check_default :: "sym \<Rightarrow> pid \<Rightarrow> parser \<Rightarrow> parser option" where
  "check_default s p b = do {
     let ty = s_type (k_sym (b_conf b) s);
     e \<leftarrow> p_expr (k_prop (b_conf b) p);
     b \<leftarrow> warn_if (ty \<in> {S_STRING, S_INT, S_HEX} \<and> etype e \<noteq> E_SYMBOL) p
       (''default for config symbol '' @ quoted (name_or_null (b_conf b) s) @ '' must be a single symbol'') b;
     case prop_get_symbol (b_conf b) p of
       None \<Rightarrow> Some b
     | Some s2 \<Rightarrow> if ty = S_HEX \<or> ty = S_INT then do {
           ok \<leftarrow> menu_validate_number (b_conf b) s s2;
           warn_if (\<not> ok) p (quoted (name_or_null (b_conf b) s) @ '': number is invalid'') b }
         else Some b }"

definition check_select :: "sym \<Rightarrow> pid \<Rightarrow> parser \<Rightarrow> parser option" where
  "check_select s p b =
     (if s_type (k_sym (b_conf b) s) \<noteq> S_BOOLEAN \<and> s_type (k_sym (b_conf b) s) \<noteq> S_TRISTATE
      then prop_warn p (''config symbol '' @ quoted (name_or_null (b_conf b) s) @
        '' uses select, but is not boolean or tristate'') b
      else do {
        s2 \<leftarrow> prop_get_symbol (b_conf b) p;
        warn_if (s_type (k_sym (b_conf b) s2) \<notin> {S_UNKNOWN, S_BOOLEAN, S_TRISTATE}) p
          (quoted (name_or_null (b_conf b) s2) @ '' has wrong type. '' @ quoted ''select'' @
            '' only accept arguments of boolean and tristate type'') b })"

definition range_of :: "expr option \<Rightarrow> (sym \<times> sym) option" where
  "range_of e = (case e of Some (e_range l r) \<Rightarrow> Some (l, r) | _ \<Rightarrow> None)"

definition check_range_prop :: "sym \<Rightarrow> pid \<Rightarrow> parser \<Rightarrow> parser option" where
  "check_range_prop s p b = do {
     b \<leftarrow> warn_if (s_type (k_sym (b_conf b) s) \<notin> {S_INT, S_HEX}) p
       ''range is only allowed for int or hex symbols'' b;
     (l, r) \<leftarrow> range_of (p_expr (k_prop (b_conf b) p));
     v \<leftarrow> menu_validate_number (b_conf b) s l;
     v \<leftarrow> (if v then menu_validate_number (b_conf b) s r else Some False);
     warn_if (\<not> v) p ''range is invalid'' b }"

fun each_prop :: "(pid \<Rightarrow> parser \<Rightarrow> parser option) \<Rightarrow> pid list \<Rightarrow> parser \<Rightarrow> parser option" where
  "each_prop f [] b = Some b"
| "each_prop f (p # ps) b = do { b \<leftarrow> f p b; each_prop f ps b }"

definition sym_check_prop :: "sym \<Rightarrow> parser \<Rightarrow> parser option" where
  "sym_check_prop s b = each_prop (\<lambda>p b.
     case p_type (k_prop (b_conf b) p) of
       P_DEFAULT \<Rightarrow> check_default s p b
     | P_SELECT \<Rightarrow> check_select s p b
     | P_RANGE \<Rightarrow> check_range_prop s p b
     | _ \<Rightarrow> Some b) (s_prop (k_sym (b_conf b) s)) b"

section \<open>Loops over menus\<close>

fun each_menu :: "nat \<Rightarrow> (mid \<Rightarrow> parser \<Rightarrow> parser option) \<Rightarrow> mid option \<Rightarrow> parser \<Rightarrow> parser option" where
  "each_menu n f None b = Some b"
| "each_menu 0 f (Some m) b = None"
| "each_menu (Suc n) f (Some m) b = do { b \<leftarrow> f m b; each_menu n f (m_next (menus_of b m)) b }"

definition menu_type :: "kconf \<Rightarrow> mid \<Rightarrow> symbol_type" where
  "menu_type k m = (case m_sym (k_menu k m) of None \<Rightarrow> S_UNKNOWN | Some s \<Rightarrow> s_type (k_sym k s))"

text \<open>The type of the first choice value that has one.\<close>

fun find_type :: "nat \<Rightarrow> kconf \<Rightarrow> mid option \<Rightarrow> symbol_type option" where
  "find_type n k None = Some S_UNKNOWN"
| "find_type 0 k (Some m) = None"
| "find_type (Suc n) k (Some m) =
     (if menu_type k m \<noteq> S_UNKNOWN then Some (menu_type k m) else find_type n k (m_next (k_menu k m)))"

definition choice_types :: "nat \<Rightarrow> mid \<Rightarrow> sym \<Rightarrow> parser \<Rightarrow> parser option" where
  "choice_types n parent s b = do {
     b \<leftarrow> (if s_type (k_sym (b_conf b) s) = S_UNKNOWN then do {
            let b = b\<lparr>b_entry := parent\<rparr>;
            ty \<leftarrow> find_type n (b_conf b) (m_list (menus_of b parent));
            if ty \<noteq> S_UNKNOWN then menu_set_type ty b else Some b }
          else Some b);
     each_menu n (\<lambda>m b. let b = b\<lparr>b_entry := m\<rparr> in
         if m_sym (menus_of b m) \<noteq> None \<and> menu_type (b_conf b) m = S_UNKNOWN
         then menu_set_type (s_type (k_sym (b_conf b) s)) b else Some b)
       (m_list (menus_of b parent)) b }"

section \<open>Dependencies\<close>

definition dups_opt :: "(sym \<Rightarrow> symbol) \<Rightarrow> expr option \<Rightarrow> expr option option" where
  "dups_opt sy e = (case e of None \<Rightarrow> Some None | Some x \<Rightarrow> map_option Some (expr_eliminate_dups sy x))"

definition reduced :: "kconf \<Rightarrow> expr option \<Rightarrow> expr option option" where
  "reduced k e = dups_opt (k_sym k) (map_option (expr_transform (k_sym k)) e)"

definition prop_dep :: "kconf \<Rightarrow> pid \<Rightarrow> expr option" where
  "prop_dep k p = ev_expr (p_visible (k_prop k p))"

text \<open>The conjunction with what comes from above.\<close>

definition and_above :: "kconf \<Rightarrow> expr option \<Rightarrow> expr option \<Rightarrow> expr option option" where
  "and_above k up e =
     dups_opt (k_sym k) (expr_alloc_and (expr_copy up) (map_option (expr_transform (k_sym k)) e))"

definition parent_dep :: "mid \<Rightarrow> kconf \<Rightarrow> expr option" where
  "parent_dep parent k = (let M = k_menu k parent in
     case m_sym M of
       Some s \<Rightarrow> if sym_is_choice (k_sym k s) then Some (expr_alloc_symbol s)
         else (case m_prompt M of Some p \<Rightarrow> prop_dep k p | None \<Rightarrow> m_dep M)
     | None \<Rightarrow> (case m_prompt M of Some p \<Rightarrow> prop_dep k p | None \<Rightarrow> m_dep M))"

definition add_rev_dep :: "sym \<Rightarrow> expr option \<Rightarrow> kconf \<Rightarrow> kconf" where
  "add_rev_dep s e = upd_sym s (s_rev_dep_update (ev_expr_update (\<lambda>r. expr_alloc_or r e)))"

definition fin_prop :: "mid \<Rightarrow> expr option \<Rightarrow> pid \<Rightarrow> parser \<Rightarrow> parser option" where
  "fin_prop m basedep p b =
     (if p_menu (k_prop (b_conf b) p) \<noteq> Some m then Some b
      else do {
        d \<leftarrow> and_above (b_conf b) basedep (prop_dep (b_conf b) p);
        let d = (if m_sym (menus_of b m) \<noteq> None \<and> menu_type (b_conf b) m \<noteq> S_TRISTATE
                 then map_option (expr_trans_bool (k_sym (b_conf b))) d else d);
        let b = b_upd (set_prop_dep p d) b;
        if p_type (k_prop (b_conf b) p) = P_SELECT then do {
          es \<leftarrow> prop_get_symbol (b_conf b) p;
          s \<leftarrow> m_sym (menus_of b m);
          Some (b_upd (add_rev_dep es (expr_alloc_and (Some (expr_alloc_symbol s)) (expr_copy d))) b) }
        else Some b })"

definition menu_props :: "kconf \<Rightarrow> mid \<Rightarrow> pid list" where
  "menu_props k m = (case m_sym (k_menu k m) of Some s \<Rightarrow> s_prop (k_sym k s)
   | None \<Rightarrow> (case m_prompt (k_menu k m) of None \<Rightarrow> [] | Some p \<Rightarrow> [p]))"

definition set_menu_dep :: "mid \<Rightarrow> expr option \<Rightarrow> kconf \<Rightarrow> kconf" where
  "set_menu_dep m d = upd_menu m (m_dep_update (\<lambda>_. d))"

definition fin_child :: "expr option \<Rightarrow> mid \<Rightarrow> parser \<Rightarrow> parser option" where
  "fin_child parentdep m b = do {
     basedep \<leftarrow> and_above (b_conf b) parentdep (m_dep (menus_of b m));
     let b = b_upd (set_menu_dep m basedep) b;
     each_prop (fin_prop m basedep) (menu_props (b_conf b) m) b }"

definition fin_list :: "nat \<Rightarrow> (mid \<Rightarrow> parser \<Rightarrow> parser option) \<Rightarrow> mid \<Rightarrow> parser \<Rightarrow> parser option" where
  "fin_list n fin parent b = do {
     b \<leftarrow> (case m_sym (menus_of b parent) of
            Some s \<Rightarrow> if sym_is_choice (k_sym (b_conf b) s) then choice_types n parent s b else Some b
          | None \<Rightarrow> Some b);
     b \<leftarrow> each_menu n (fin_child (parent_dep parent (b_conf b))) (m_list (menus_of b parent)) b;
     each_menu n fin (m_list (menus_of b parent)) b }"

section \<open>Entries that depend on the entry before them\<close>

definition eliminate_eq_opt :: "expr option \<Rightarrow> expr option \<Rightarrow> expr option" where
  "eliminate_eq_opt d d2 = (case (d, d2) of
     (Some x, Some y) \<Rightarrow> Some (fst (snd (expr_eliminate_eq expr_eq x y))) | _ \<Rightarrow> d2)"

text \<open>Whether the dependency of an entry implies that of the symbol before it.\<close>

definition implied_by :: "kconf \<Rightarrow> sym \<Rightarrow> expr option \<Rightarrow> expr option \<Rightarrow> bool option" where
  "implied_by k s basedep dep =
     (if expr_depends_symbol dep s then Some True
      else do {
        d \<leftarrow> reduced k (expr_trans_compare dep E_UNEQUAL symbol_no);
        Some (expr_is_yes (eliminate_eq_opt d basedep)) })"

definition entry_dep :: "kconf \<Rightarrow> mid \<Rightarrow> expr option" where
  "entry_dep k m = (case m_prompt (k_menu k m) of Some p \<Rightarrow> prop_dep k p | None \<Rightarrow> m_dep (k_menu k m))"

definition set_parent :: "mid \<Rightarrow> mid \<Rightarrow> kconf \<Rightarrow> kconf" where
  "set_parent m parent = upd_menu m (m_parent_update (\<lambda>_. Some parent))"

text \<open>The loop; the second component is \<^verbatim>\<open>last_menu\<close>.\<close>

fun absorb :: "nat \<Rightarrow> (mid \<Rightarrow> parser \<Rightarrow> parser option) \<Rightarrow> mid \<Rightarrow> sym \<Rightarrow> expr option \<Rightarrow> mid option \<Rightarrow>
    mid option \<Rightarrow> parser \<Rightarrow> (mid option \<times> parser) option" where
  "absorb n fin parent s basedep None lst b = Some (lst, b)"
| "absorb 0 fin parent s basedep (Some m) lst b = None"
| "absorb (Suc n) fin parent s basedep (Some m) lst b =
     (let dep = entry_dep (b_conf b) m in
      if \<not> expr_contains_symbol dep s then Some (lst, b)
      else do {
        i \<leftarrow> implied_by (b_conf b) s basedep dep;
        if \<not> i then Some (lst, b)
        else do {
          b \<leftarrow> fin m b;
          let b = b_upd (set_parent m parent) b;
          absorb n fin parent s basedep (m_next (menus_of b m)) (Some m) b } })"

definition move_down :: "mid \<Rightarrow> mid \<Rightarrow> kconf \<Rightarrow> kconf" where
  "move_down parent lst k =
     (let k = upd_menu parent (\<lambda>M. M\<lparr>m_list := m_next M\<rparr>) k;
          k = upd_menu parent (m_next_update (\<lambda>_. m_next (k_menu k lst))) k
      in upd_menu lst (m_next_update (\<lambda>_. None)) k)"

definition fin_leaf :: "nat \<Rightarrow> (mid \<Rightarrow> parser \<Rightarrow> parser option) \<Rightarrow> mid \<Rightarrow> sym \<Rightarrow> parser \<Rightarrow> parser option" where
  "fin_leaf n fin parent s b = do {
     let dep = (case m_prompt (menus_of b parent) of Some p \<Rightarrow> prop_dep (b_conf b) p | None \<Rightarrow> None);
     basedep \<leftarrow> reduced (b_conf b) (expr_trans_compare dep E_UNEQUAL symbol_no);
     (lst, b) \<leftarrow> absorb n fin parent s basedep (m_next (menus_of b parent)) None b;
     let b = (case lst of None \<Rightarrow> b | Some l \<Rightarrow> b_upd (move_down parent l) b);
     Some (b_upd (upd_sym s (s_dir_dep_update (ev_expr_update
       (\<lambda>e. expr_alloc_or e (m_dep (menus_of b parent)))))) b) }"

section \<open>Choice values\<close>

fun list_append :: "sym \<Rightarrow> expr \<Rightarrow> expr option" where
  "list_append s (e_list None x) = Some (e_list (Some (e_list None s)) x)"
| "list_append s (e_list (Some l) x) = map_option (\<lambda>l. e_list (Some l) x) (list_append s l)"
| "list_append s e = None"

definition append_value :: "sym \<Rightarrow> expr option \<Rightarrow> expr option" where
  "append_value s e = (case e of None \<Rightarrow> Some (e_list None s) | Some l \<Rightarrow> list_append s l)"

definition value_warnings :: "sym \<Rightarrow> mid \<Rightarrow> pid \<Rightarrow> parser \<Rightarrow> parser option" where
  "value_warnings s m p b = do {
     b \<leftarrow> warn_if (p_type (k_prop (b_conf b) p) = P_DEFAULT) p ''defaults for choice values not supported'' b;
     if p_menu (k_prop (b_conf b) p) = Some m \<or> p_type (k_prop (b_conf b) p) \<noteq> P_PROMPT then Some b
     else do {
       pm \<leftarrow> p_menu (k_prop (b_conf b) p);
       par \<leftarrow> m_parent (menus_of b pm);
       warn_if (m_sym (menus_of b par) \<noteq> Some s) p ''choice value used outside its choice group'' b } }"

definition and_yes :: "sym \<Rightarrow> mid \<Rightarrow> pid \<Rightarrow> parser \<Rightarrow> parser option" where
  "and_yes s m p b = Some
     (if p_menu (k_prop (b_conf b) p) \<noteq> Some m then b
      else b_upd (set_prop_dep p (expr_alloc_and (Some (expr_alloc_comp E_EQUAL s symbol_yes))
             (prop_dep (b_conf b) p))) b)"

definition choice_value :: "sym \<Rightarrow> mid \<Rightarrow> sym \<Rightarrow> parser \<Rightarrow> parser option" where
  "choice_value s m v b = do {
     let b = b_upd (flag_on SYMBOL_CHOICEVAL v) (b\<lparr>b_entry := m\<rparr>);
     b \<leftarrow> (if m_prompt (menus_of b m) = None then menu_warn m ''choice value must have a prompt'' b else Some b);
     b \<leftarrow> each_prop (value_warnings s m) (s_prop (k_sym (b_conf b) v)) b;
     b \<leftarrow> (if s_type (k_sym (b_conf b) s) = S_TRISTATE \<and> s_type (k_sym (b_conf b) v) \<noteq> S_TRISTATE
          then each_prop (and_yes s m) (s_prop (k_sym (b_conf b) v))
            (b_upd (set_menu_dep m (expr_alloc_and (Some (expr_alloc_comp E_EQUAL s symbol_yes))
               (m_dep (menus_of b m)))) b)
          else Some b);
     b \<leftarrow> menu_add_symbol P_CHOICE s None b;
     p \<leftarrow> sym_get_choice_prop (b_conf b) s;
     e \<leftarrow> append_value v (p_expr (k_prop (b_conf b) p));
     Some (b_upd (upd_prop p (p_expr_update (\<lambda>_. Some e))) b) }"

section \<open>Entries without a prompt\<close>

fun set_parents :: "nat \<Rightarrow> mid \<Rightarrow> mid \<Rightarrow> parser \<Rightarrow> (mid \<times> parser) option" where
  "set_parents 0 parent m b = None"
| "set_parents (Suc n) parent m b =
     (let b = b_upd (set_parent m parent) b in
      case m_next (menus_of b m) of None \<Rightarrow> Some (m, b) | Some m' \<Rightarrow> set_parents n parent m' b)"

definition splice :: "mid \<Rightarrow> mid \<Rightarrow> kconf \<Rightarrow> kconf" where
  "splice m lst k =
     (let k = upd_menu lst (m_next_update (\<lambda>_. m_next (k_menu k m))) k
      in upd_menu m (\<lambda>M. M\<lparr>m_next := m_list M, m_list := None\<rparr>) k)"

definition no_prompt_text :: "kconf \<Rightarrow> mid \<Rightarrow> bool" where
  "no_prompt_text k m = (case m_prompt (k_menu k m) of None \<Rightarrow> True | Some p \<Rightarrow> p_text (k_prop k p) = None)"

definition flatten :: "nat \<Rightarrow> mid \<Rightarrow> mid \<Rightarrow> parser \<Rightarrow> parser option" where
  "flatten n parent m b = (case m_list (menus_of b m) of
     None \<Rightarrow> Some b
   | Some c \<Rightarrow> if \<not> no_prompt_text (b_conf b) m then Some b
       else map_option (\<lambda>(lst, b). b_upd (splice m lst) b) (set_parents n parent c b))"

definition fin_value :: "nat \<Rightarrow> mid \<Rightarrow> mid \<Rightarrow> parser \<Rightarrow> parser option" where
  "fin_value n parent m b = do {
     b \<leftarrow> (case (m_sym (menus_of b parent), m_sym (menus_of b m)) of
            (Some s, Some v) \<Rightarrow>
              if sym_is_choice (k_sym (b_conf b) s) \<and> \<not> sym_is_choice_value (k_sym (b_conf b) v)
              then choice_value s m v b else Some b
          | _ \<Rightarrow> Some b);
     flatten n parent m b }"

section \<open>\<^verbatim>\<open>menu_finalize\<close>\<close>

definition fin_check :: "mid \<Rightarrow> sym \<Rightarrow> parser \<Rightarrow> parser option" where
  "fin_check parent s b =
     (if SYMBOL_WARNED \<in> s_flags (k_sym (b_conf b) s) then Some b
      else do {
        b \<leftarrow> (if s_type (k_sym (b_conf b) s) = S_UNKNOWN
             then menu_warn parent ''config symbol defined without type'' b else Some b);
        b \<leftarrow> (if sym_is_choice (k_sym (b_conf b) s) \<and> m_prompt (menus_of b parent) = None
             then menu_warn parent ''choice must have a prompt'' b else Some b);
        b \<leftarrow> sym_check_prop s b;
        Some (b_upd (flag_on SYMBOL_WARNED s) b) })"

definition fin_sym :: "mid \<Rightarrow> parser \<Rightarrow> parser option" where
  "fin_sym parent b = (case m_sym (menus_of b parent) of None \<Rightarrow> Some b
   | Some s \<Rightarrow> do {
       b \<leftarrow> fin_check parent s b;
       Some (case m_prompt (menus_of b parent) of
           Some p \<Rightarrow> if sym_is_optional (k_sym (b_conf b) s) then b
             else b_upd (add_rev_dep s (expr_alloc_and (prop_dep (b_conf b) p)
                    (Some (expr_alloc_symbol symbol_mod)))) b
         | None \<Rightarrow> b) })"

fun menu_finalize :: "nat \<Rightarrow> mid \<Rightarrow> parser \<Rightarrow> parser option" where
  "menu_finalize 0 parent b = None"
| "menu_finalize (Suc n) parent b = do {
     b \<leftarrow> (case m_list (menus_of b parent) of
            Some _ \<Rightarrow> fin_list n (menu_finalize n) parent b
          | None \<Rightarrow> (case m_sym (menus_of b parent) of
              Some s \<Rightarrow> fin_leaf n (menu_finalize n) parent s b
            | None \<Rightarrow> Some b));
     b \<leftarrow> each_menu n (fin_value n parent) (m_list (menus_of b parent)) b;
     fin_sym parent b }"

end
