(* ===== verification/Menuorder.thy ===== *)
theory Menuorder
  imports Menufin
begin

text \<open>
  What \<^verbatim>\<open>menu_finalize\<close> does to the tree: entries move below the entry they depend on and
  out of entries without a prompt, and their order in the tree, read from the top, stays the same.
  The proof also gives the fuel: one more than the number of menus in the tree is enough for the
  recursion and for every loop.
\<close>

section \<open>Operations that leave the tree alone\<close>

text \<open>The parts of the configuration that the checks read, and the links.\<close>

definition same_static :: "kconf \<Rightarrow> kconf \<Rightarrow> bool" where
  "same_static k k' \<longleftrightarrow>
     (\<forall>s. s_name (k_sym k' s) = s_name (k_sym k s) \<and> s_prop (k_sym k' s) = s_prop (k_sym k s) \<and>
        (SYMBOL_CHOICE \<in> s_flags (k_sym k' s) \<longleftrightarrow> SYMBOL_CHOICE \<in> s_flags (k_sym k s))) \<and>
     (\<forall>p. p_type (k_prop k' p) = p_type (k_prop k p) \<and> p_file (k_prop k' p) = p_file (k_prop k p) \<and>
        p_menu (k_prop k' p) = p_menu (k_prop k p) \<and> p_expr (k_prop k' p) = p_expr (k_prop k p)) \<and>
     (\<forall>m. m_file (k_menu k' m) = m_file (k_menu k m) \<and> m_sym (k_menu k' m) = m_sym (k_menu k m) \<and>
        m_prompt (k_menu k' m) = m_prompt (k_menu k m) \<and> m_parent (k_menu k' m) = m_parent (k_menu k m) \<and>
        m_next (k_menu k' m) = m_next (k_menu k m) \<and> m_list (k_menu k' m) = m_list (k_menu k m))"

definition still :: "parser \<Rightarrow> parser \<Rightarrow> bool" where
  "still b b' \<longleftrightarrow> same_static (b_conf b) (b_conf b') \<and> t_props (b_tab b') = t_props (b_tab b)"

lemma still_refl [simp]: "still b b"
  by (simp add: still_def same_static_def)

lemma still_trans: "still a b \<Longrightarrow> still b c \<Longrightarrow> still a c"
  by (simp add: still_def same_static_def)

lemma set_prop_dep_simps [simp]:
  "k_sym (set_prop_dep p v k) = k_sym k" "k_menu (set_prop_dep p v k) = k_menu k"
  "p_type (k_prop (set_prop_dep p v k) q) = p_type (k_prop k q)"
  "p_expr (k_prop (set_prop_dep p v k) q) = p_expr (k_prop k q)"
  "prop_get_symbol (set_prop_dep p v k) q = prop_get_symbol k q"
  by (auto simp: set_prop_dep_def prop_get_symbol_def)

lemma b_upd_props [simp]: "t_props (b_tab (b_upd f b)) = t_props (b_tab b)"
  by (simp add: b_upd_def)

lemma still_upd: "(\<And>k. same_static k (f k)) \<Longrightarrow> still b (b_upd f b)"
  by (simp add: still_def)

lemma still_upds [simp]:
  "still b (b_upd (upd_sym s (s_type_update g)) b)"
  "still b (b_upd (set_prop_dep p d) b)"
  "still b (b_upd (set_menu_dep m d) b)"
  "still b (b_upd (add_rev_dep s d) b)"
  "still b (b_upd (upd_sym s (s_dir_dep_update h)) b)"
  "still b (b_upd (flag_on SYMBOL_CHOICEVAL s) b)"
  "still b (b_upd (flag_on SYMBOL_WARNED s) b)"
  by (rule still_upd; simp add: same_static_def set_prop_dep_def set_menu_dep_def add_rev_dep_def flag_on_def)+

lemma still_entry [simp]: "still b (b\<lparr>b_entry := m\<rparr>)" "still b (b\<lparr>b_out := out\<rparr>)"
  by (simp_all add: still_def same_static_def)

lemma still_sym:
  assumes "still b b'"
  shows "s_prop (k_sym (b_conf b') s) = s_prop (k_sym (b_conf b) s)"
    and "s_name (k_sym (b_conf b') s) = s_name (k_sym (b_conf b) s)"
    and "sym_is_choice (k_sym (b_conf b') s) = sym_is_choice (k_sym (b_conf b) s)"
    and "p_type (k_prop (b_conf b') p) = p_type (k_prop (b_conf b) p)"
    and "p_file (k_prop (b_conf b') p) = p_file (k_prop (b_conf b) p)"
    and "p_menu (k_prop (b_conf b') p) = p_menu (k_prop (b_conf b) p)"
    and "p_expr (k_prop (b_conf b') p) = p_expr (k_prop (b_conf b) p)"
    and "prop_get_symbol (b_conf b') p = prop_get_symbol (b_conf b) p"
    and "m_file (menus_of b' m) = m_file (menus_of b m)"
    and "sym_get_choice_prop (b_conf b') s = sym_get_choice_prop (b_conf b) s"
    and "m_sym (menus_of b' m) = m_sym (menus_of b m)"
    and "m_prompt (menus_of b' m) = m_prompt (menus_of b m)"
    and "m_parent (menus_of b' m) = m_parent (menus_of b m)"
    and "m_next (menus_of b' m) = m_next (menus_of b m)"
    and "m_list (menus_of b' m) = m_list (menus_of b m)"
    and "t_props (b_tab b') = t_props (b_tab b)"
  using assms by (auto simp: still_def same_static_def sym_is_choice_def prop_get_symbol_def
      sym_get_choice_prop_def for_all_properties_def)

text \<open>What the parser gives \<^verbatim>\<open>menu_finalize\<close>: the properties that it can warn about have a
  file, their expressions have the form the grammar gives them, and choices have the property that
  collects their values.\<close>

fun value_list :: "expr option \<Rightarrow> bool" where
  "value_list None = True"
| "value_list (Some (e_list l s)) = value_list l"
| "value_list (Some e) = False"

definition prop_ok :: "kconf \<Rightarrow> pid \<Rightarrow> bool" where
  "prop_ok k p \<longleftrightarrow>
     (p_type (k_prop k p) \<in> {P_DEFAULT, P_SELECT, P_RANGE, P_PROMPT} \<longrightarrow> p_file (k_prop k p) \<noteq> None) \<and>
     (p_type (k_prop k p) = P_DEFAULT \<longrightarrow> p_expr (k_prop k p) \<noteq> None \<and>
        (\<forall>s. prop_get_symbol k p = Some s \<longrightarrow> s_name (k_sym k s) \<noteq> None)) \<and>
     (p_type (k_prop k p) = P_SELECT \<longrightarrow> prop_get_symbol k p \<noteq> None) \<and>
     (p_type (k_prop k p) = P_RANGE \<longrightarrow> (\<exists>l r. p_expr (k_prop k p) = Some (e_range l r) \<and>
        s_name (k_sym k l) \<noteq> None \<and> s_name (k_sym k r) \<noteq> None)) \<and>
     (p_type (k_prop k p) = P_PROMPT \<longrightarrow> (\<exists>m. p_menu (k_prop k p) = Some m \<and> m_parent (k_menu k m) \<noteq> None))"

definition fin_ok :: "mid set \<Rightarrow> parser \<Rightarrow> bool" where
  "fin_ok U b \<longleftrightarrow>
     (\<forall>s. \<forall>p \<in> set (s_prop (k_sym (b_conf b) s)). p < t_props (b_tab b) \<and> prop_ok (b_conf b) p) \<and>
     (\<forall>s. sym_is_choice (k_sym (b_conf b) s) \<longrightarrow>
        (\<exists>p. sym_get_choice_prop (b_conf b) s = Some p \<and> value_list (p_expr (k_prop (b_conf b) p)))) \<and>
     (\<forall>m \<in> U. (m_sym (menus_of b m) \<noteq> None \<longrightarrow> m_file (menus_of b m) \<noteq> None) \<and> (m_sym (menus_of b m) = None \<longrightarrow>
        (\<forall>p. m_prompt (menus_of b m) = Some p \<longrightarrow> p < t_props (b_tab b) \<and> p_type (k_prop (b_conf b) p) \<noteq> P_SELECT)))"

lemma prop_ok_still: "still b b' \<Longrightarrow> prop_ok (b_conf b') p = prop_ok (b_conf b) p"
  unfolding prop_ok_def by (simp only: still_sym)

lemma fin_ok_still: "still b b' \<Longrightarrow> fin_ok U b' = fin_ok U b"
  unfolding fin_ok_def by (simp only: still_sym prop_ok_still)

section \<open>Operations without an effect on the tree\<close>

text \<open>\<open>calm b m\<close>: the operation has a result, and the tree is as before.\<close>

definition calm :: "parser \<Rightarrow> parser option \<Rightarrow> bool" where
  "calm b m \<longleftrightarrow> returns m (still b)"

lemma calm_some [simp]: "calm b (Some b') \<longleftrightarrow> still b b'"
  by (simp add: calm_def post_simps)

lemma calm_bind: "calm b m \<Longrightarrow> (\<And>b'. still b b' \<Longrightarrow> calm b' (f b')) \<Longrightarrow> calm b (m \<bind> f)"
  using still_trans by (fastforce simp: calm_def returns_def)

lemma calm_from: "still b b' \<Longrightarrow> calm b' m \<Longrightarrow> calm b m"
  by (auto simp: calm_def returns_def intro: still_trans)

lemma calm_if: "(c \<Longrightarrow> calm b m) \<Longrightarrow> (\<not> c \<Longrightarrow> calm b n) \<Longrightarrow> calm b (if c then m else n)"
  by simp

lemma calm_warn_at: "f \<noteq> None \<Longrightarrow> calm b (warn_at f l w b)"
  by (auto simp: warn_at_def)

lemma calm_prop_warn: "p_file (k_prop (b_conf b) p) \<noteq> None \<Longrightarrow> calm b (prop_warn p w b)"
  by (simp add: prop_warn_def calm_warn_at)

lemma calm_menu_warn: "m_file (menus_of b m) \<noteq> None \<Longrightarrow> calm b (menu_warn m w b)"
  by (simp add: menu_warn_def calm_warn_at)

lemma calm_warn_if: "p_file (k_prop (b_conf b) p) \<noteq> None \<Longrightarrow> calm b (warn_if c p w b)"
  by (simp add: warn_if_def calm_prop_warn)

lemma calm_each_prop:
  "(\<And>p b'. p \<in> set ps \<Longrightarrow> still b b' \<Longrightarrow> calm b' (f p b')) \<Longrightarrow> calm b (each_prop f ps b)"
proof (induction ps arbitrary: b)
  case (Cons p ps)
  then show ?case by (auto intro!: calm_bind intro: still_trans)
qed simp

lemma calm_each_menu:
  "path (\<lambda>m. m_next (menus_of b m)) mo ms None \<Longrightarrow> length ms \<le> n \<Longrightarrow>
   (\<And>m b'. m \<in> set ms \<Longrightarrow> still b b' \<Longrightarrow> calm b' (f m b')) \<Longrightarrow> calm b (each_menu n f mo b)"
proof (induction ms arbitrary: n mo b)
  case Nil
  then show ?case by (cases n) auto
next
  case (Cons m ms)
  obtain n' where n: "n = Suc n'" using Cons.prems(2) by (cases n) auto
  have mo: "mo = Some m" using Cons.prems(1) by simp
  have "calm b' (each_menu n' f (m_next (menus_of b' m)) b')" if q: "still b b'" for b'
  proof (rule Cons.IH)
    show "path (\<lambda>m. m_next (menus_of b' m)) (m_next (menus_of b' m)) ms None"
      using Cons.prems(1) by (simp add: still_sym(14) [OF q])
  qed (use Cons.prems(2,3) n q still_trans in auto)
  with Cons.prems(3) [of m b] show ?case unfolding n mo each_menu.simps by (auto intro: calm_bind)
qed

lemma calm_set_type: "m_sym (menus_of b (b_entry b)) = Some s \<Longrightarrow> s_type (k_sym (b_conf b) s) = S_UNKNOWN \<or>
    s_type (k_sym (b_conf b) s) = ty \<Longrightarrow> calm b (menu_set_type ty b)"
  by (auto simp: menu_set_type_def Let_def)

lemma dups_opt_total: "\<exists>d. dups_opt sy e = Some d"
  using eliminate_dups_total [of sy] by (cases e) (force simp: dups_opt_def)+

lemma and_above_total: "\<exists>d. and_above k up e = Some d"
  by (simp add: and_above_def dups_opt_total)

lemma reduced_total: "\<exists>d. reduced k e = Some d"
  by (simp add: reduced_def dups_opt_total)

lemma calm_total: "\<exists>x. m = Some x \<Longrightarrow> (\<And>x. m = Some x \<Longrightarrow> calm b (f x)) \<Longrightarrow> calm b (m \<bind> f)"
  by auto

lemma validate_total: "s_name (k_sym k s2) \<noteq> None \<Longrightarrow> \<exists>v. menu_validate_number k s s2 = Some v"
  by (auto simp: menu_validate_number_def Let_def)

lemma fin_okD:
  assumes "fin_ok U b" "p \<in> set (s_prop (k_sym (b_conf b) s))"
  shows "p < t_props (b_tab b)" "prop_ok (b_conf b) p"
  using assms by (auto simp: fin_ok_def)

lemma calm_check_prop:
  assumes ok: "fin_ok U b"
  shows "calm b (sym_check_prop s b)"
  unfolding sym_check_prop_def
proof (rule calm_each_prop)
  fix p b'
  assume p: "p \<in> set (s_prop (k_sym (b_conf b) s))" and q: "still b b'"
  have po: "prop_ok (b_conf b') p" using fin_okD(2) [OF ok p] by (simp add: prop_ok_still [OF q])
  have fl: "p_file (k_prop (b_conf b') p) \<noteq> None" if "p_type (k_prop (b_conf b') p) \<in> {P_DEFAULT, P_SELECT, P_RANGE, P_PROMPT}"
    using po that by (auto simp: prop_ok_def)
  have d: "calm b' (check_default s p b')" if t: "p_type (k_prop (b_conf b') p) = P_DEFAULT"
  proof -
    have f: "p_file (k_prop (b_conf b') p) \<noteq> None" using fl t by simp
    obtain e where e: "p_expr (k_prop (b_conf b') p) = Some e" using po t by (auto simp: prop_ok_def)
    have n: "\<exists>v. menu_validate_number (b_conf b'') s s2 = Some v"
      if "still b' b''" "prop_get_symbol (b_conf b'') p = Some s2" for b'' s2
      using po t that by (intro validate_total) (auto simp: prop_ok_def still_sym)
    show ?thesis
      unfolding check_default_def Let_def e bind.bind_lunit
      by (rule calm_bind [OF calm_warn_if [OF f]])
        (auto split: option.split intro!: calm_total [OF n] calm_warn_if simp: still_sym f [simplified])
  qed
  have se: "calm b' (check_select s p b')" if t: "p_type (k_prop (b_conf b') p) = P_SELECT"
  proof -
    have f: "p_file (k_prop (b_conf b') p) \<noteq> None" using fl t by simp
    obtain s2 where "prop_get_symbol (b_conf b') p = Some s2" using po t by (auto simp: prop_ok_def)
    with f show ?thesis unfolding check_select_def by (auto intro: calm_prop_warn calm_warn_if)
  qed
  have r: "calm b' (check_range_prop s p b')" if t: "p_type (k_prop (b_conf b') p) = P_RANGE"
  proof -
    have f: "p_file (k_prop (b_conf b') p) \<noteq> None" using fl t by simp
    obtain l r where lr: "p_expr (k_prop (b_conf b') p) = Some (e_range l r)"
      "s_name (k_sym (b_conf b') l) \<noteq> None" "s_name (k_sym (b_conf b') r) \<noteq> None"
      using po t by (auto simp: prop_ok_def)
    have "calm b'' (do { (l, r) \<leftarrow> range_of (p_expr (k_prop (b_conf b'') p));
        v \<leftarrow> menu_validate_number (b_conf b'') s l;
        v \<leftarrow> (if v then menu_validate_number (b_conf b'') s r else Some False);
        warn_if (\<not> v) p ''range is invalid'' b'' })" if q: "still b' b''" for b''
    proof -
      have n: "s_name (k_sym (b_conf b'') l) \<noteq> None" "s_name (k_sym (b_conf b'') r) \<noteq> None"
        "p_file (k_prop (b_conf b'') p) \<noteq> None" "range_of (p_expr (k_prop (b_conf b'') p)) = Some (l, r)"
        using lr f by (simp_all add: still_sym [OF q] range_of_def)
      obtain v1 v2 where "menu_validate_number (b_conf b'') s l = Some v1" "menu_validate_number (b_conf b'') s r = Some v2"
        using validate_total n(1,2) by blast
      then show ?thesis by (simp add: n calm_warn_if)
    qed
    then show ?thesis unfolding check_range_prop_def by (intro calm_bind [OF calm_warn_if [OF f]])
  qed
  show "calm b' (case p_type (k_prop (b_conf b') p) of P_DEFAULT \<Rightarrow> check_default s p b'
      | P_SELECT \<Rightarrow> check_select s p b' | P_RANGE \<Rightarrow> check_range_prop s p b' | _ \<Rightarrow> Some b')"
    using d se r by (cases "p_type (k_prop (b_conf b') p)") simp_all
qed

lemma calm_fin_sym:
  assumes ok: "fin_ok U b" and m: "m \<in> U"
  shows "calm b (fin_sym m b)"
proof (cases "m_sym (menus_of b m)")
  case (Some s)
  have fl: "m_file (menus_of b' m) \<noteq> None" if "still b b'" for b'
    using ok m Some by (simp add: fin_ok_def still_sym [OF that])
  have "calm b (fin_check m s b)"
    unfolding fin_check_def
  proof (intro calm_if calm_bind)
    fix b' assume "still b b'" then show "calm b' (menu_warn m ''choice must have a prompt'' b')"
      by (intro calm_menu_warn fl)
  next
    fix b' b'' assume "still b b'" "still b' b''"
    then show "calm b'' (sym_check_prop s b'')"
      using calm_check_prop fin_ok_still ok by blast
  qed (use fl [OF still_refl] in \<open>auto intro: calm_menu_warn\<close>)
  then show ?thesis
    unfolding fin_sym_def Some option.case by (rule calm_bind) (auto split: option.split)
qed (simp add: fin_sym_def)

lemma calm_fin_child:
  assumes ok: "fin_ok U b" and m: "m \<in> U"
  shows "calm b (fin_child pd m b)"
proof -
  obtain d where d: "and_above (b_conf b) pd (m_dep (menus_of b m)) = Some d"
    using and_above_total by blast
  let ?b = "b_upd (set_menu_dep m d) b"
  have q: "still b ?b" by simp
  have mp: "menu_props (b_conf ?b) m = menu_props (b_conf b) m" by (cases "m_sym (menus_of b m)") (simp_all add: menu_props_def set_menu_dep_def)
  have "calm ?b (each_prop (fin_prop m d) (menu_props (b_conf ?b) m) ?b)"
  proof (rule calm_each_prop)
    fix p b'
    assume p: "p \<in> set (menu_props (b_conf ?b) m)" and "still ?b b'"
    then have q': "still b b'" using still_trans [OF q] by blast
    have sel: "prop_get_symbol (b_conf b') p \<noteq> None \<and> m_sym (menus_of b' m) \<noteq> None"
      if t: "p_type (k_prop (b_conf b') p) = P_SELECT"
    proof (cases "m_sym (menus_of b m)")
      case None
      then have "m_prompt (menus_of b m) = Some p"
        using p unfolding mp by (auto simp: menu_props_def split: option.splits)
      then show ?thesis using ok m None t by (auto simp: fin_ok_def still_sym [OF q'])
    next
      case (Some s)
      then have "p \<in> set (s_prop (k_sym (b_conf b) s))"
        using p unfolding mp by (simp add: menu_props_def)
      from fin_okD(2) [OF ok this] t Some show ?thesis
        by (simp add: prop_ok_def still_sym [OF q'])
    qed
    show "calm b' (fin_prop m d p b')"
      unfolding fin_prop_def
    proof (intro calm_if calm_total [OF and_above_total])
      fix x assume "and_above (b_conf b') d (prop_dep (b_conf b') p) = Some x"
      have st: "still b' (b_upd (set_prop_dep p y) b')" for y by simp
      have "calm b' (Some (b_upd (add_rev_dep e z) (b_upd (set_prop_dep p y) b')))" for e z y
        using still_trans [OF st still_upds(4)] by simp
      with sel show "calm b' (let y = if m_sym (menus_of b' m) \<noteq> None \<and> menu_type (b_conf b') m \<noteq> S_TRISTATE
                 then map_option (expr_trans_bool (k_sym (b_conf b'))) x else x;
               b' = b_upd (set_prop_dep p y) b'
          in if p_type (k_prop (b_conf b') p) = P_SELECT then do {
               es \<leftarrow> prop_get_symbol (b_conf b') p;
               s \<leftarrow> m_sym (menus_of b' m);
               Some (b_upd (add_rev_dep es (expr_alloc_and (Some (expr_alloc_symbol s)) (expr_copy y))) b') }
             else Some b')"
        by (auto simp: Let_def)
    qed simp
  qed
  then show ?thesis unfolding fin_child_def d bind.bind_lunit Let_def by (rule calm_from [OF q])
qed

lemma find_type_total:
  "path (\<lambda>m. m_next (k_menu k m)) mo ms None \<Longrightarrow> length ms \<le> n \<Longrightarrow> \<exists>ty. find_type n k mo = Some ty"
proof (induction ms arbitrary: n mo)
  case Nil
  then show ?case by (cases n) auto
next
  case (Cons m ms)
  then show ?case by (cases n) auto
qed

lemma calm_choice_types:
  assumes s: "m_sym (menus_of b parent) = Some s"
    and ms: "path (\<lambda>m. m_next (menus_of b m)) (m_list (menus_of b parent)) ms None" "length ms \<le> n"
  shows "calm b (choice_types n parent s b)"
proof -
  have first: "calm b (if s_type (k_sym (b_conf b) s) = S_UNKNOWN then do {
            let b = b\<lparr>b_entry := parent\<rparr>;
            ty \<leftarrow> find_type n (b_conf b) (m_list (menus_of b parent));
            if ty \<noteq> S_UNKNOWN then menu_set_type ty b else Some b }
          else Some b)"
  proof (rule calm_if)
    assume u: "s_type (k_sym (b_conf b) s) = S_UNKNOWN"
    obtain ty where ty: "find_type n (b_conf (b\<lparr>b_entry := parent\<rparr>)) (m_list (menus_of (b\<lparr>b_entry := parent\<rparr>) parent)) = Some ty"
      using find_type_total [OF ms] by auto
    have "calm (b\<lparr>b_entry := parent\<rparr>) (menu_set_type ty (b\<lparr>b_entry := parent\<rparr>))"
      by (rule calm_set_type) (use s u in auto)
    then show "calm b (let b = b\<lparr>b_entry := parent\<rparr> in find_type n (b_conf b) (m_list (menus_of b parent)) \<bind>
        (\<lambda>ty. if ty \<noteq> S_UNKNOWN then menu_set_type ty b else Some b))"
      unfolding Let_def ty bind.bind_lunit using calm_from [of b "b\<lparr>b_entry := parent\<rparr>"] by simp
  qed simp
  show ?thesis
    unfolding choice_types_def
  proof (rule calm_bind [OF first])
    fix b' assume q: "still b b'"
    show "calm b' (each_menu n (\<lambda>m b. let b = b\<lparr>b_entry := m\<rparr> in
         if m_sym (menus_of b m) \<noteq> None \<and> menu_type (b_conf b) m = S_UNKNOWN
         then menu_set_type (s_type (k_sym (b_conf b) s)) b else Some b)
       (m_list (menus_of b' parent)) b')"
    proof (rule calm_each_menu)
      show "path (\<lambda>m. m_next (menus_of b' m)) (m_list (menus_of b' parent)) ms None"
        using ms(1) by (simp add: still_sym [OF q])
      fix m b'' assume "m \<in> set ms" "still b' b''"
      have "calm b'' (menu_set_type (s_type (k_sym (b_conf b'') s)) (b''\<lparr>b_entry := m\<rparr>))"
        if "m_sym (menus_of b'' m) = Some v" "menu_type (b_conf b'') m = S_UNKNOWN" for v
        by (rule calm_from [of _ "b''\<lparr>b_entry := m\<rparr>"], simp, rule calm_set_type)
          (use that in \<open>auto simp: menu_type_def\<close>)
      then show "calm b'' (let b = b''\<lparr>b_entry := m\<rparr> in
         if m_sym (menus_of b m) \<noteq> None \<and> menu_type (b_conf b) m = S_UNKNOWN
         then menu_set_type (s_type (k_sym (b_conf b) s)) b else Some b)"
        by (auto simp: Let_def)
    qed (rule ms(2))
  qed
qed

lemma implied_by_total: "\<exists>i. implied_by k s d e = Some i"
proof -
  obtain r where "reduced k (expr_trans_compare e E_UNEQUAL symbol_no) = Some r" using reduced_total by blast
  then show ?thesis by (auto simp: implied_by_def)
qed

section \<open>Choice values\<close>

definition same_tree :: "parser \<Rightarrow> parser \<Rightarrow> bool" where
  "same_tree b b' \<longleftrightarrow> (\<forall>m. m_next (menus_of b' m) = m_next (menus_of b m) \<and>
     m_list (menus_of b' m) = m_list (menus_of b m) \<and> m_parent (menus_of b' m) = m_parent (menus_of b m)) \<and>
     (\<forall>s. sym_is_choice (k_sym (b_conf b') s) = sym_is_choice (k_sym (b_conf b) s))"

lemma same_tree_refl [simp]: "same_tree b b"
  by (simp add: same_tree_def)

lemma same_tree_trans: "same_tree a b \<Longrightarrow> same_tree b c \<Longrightarrow> same_tree a c"
  by (simp add: same_tree_def)

lemma still_tree: "still b b' \<Longrightarrow> same_tree b b'"
  by (simp add: same_tree_def still_sym)

definition keeps :: "mid set \<Rightarrow> parser \<Rightarrow> parser option \<Rightarrow> bool" where
  "keeps U b m \<longleftrightarrow> returns m (\<lambda>b'. fin_ok U b' \<and> same_tree b b')"

lemma calm_keeps: "fin_ok U b \<Longrightarrow> calm b m \<Longrightarrow> keeps U b m"
  by (auto simp: calm_def keeps_def returns_def still_tree fin_ok_still)

lemma keeps_bind: "keeps U b m \<Longrightarrow> (\<And>b'. fin_ok U b' \<Longrightarrow> same_tree b b' \<Longrightarrow> keeps U b' (f b')) \<Longrightarrow> keeps U b (m \<bind> f)"
  using same_tree_trans by (fastforce simp: keeps_def returns_def)

lemma keeps_after: "calm b m \<Longrightarrow> fin_ok U b \<Longrightarrow>
    (\<And>b'. still b b' \<Longrightarrow> fin_ok U b' \<Longrightarrow> keeps U b' (f b')) \<Longrightarrow> keeps U b (m \<bind> f)"
  using still_tree same_tree_trans fin_ok_still by (fastforce simp: keeps_def calm_def returns_def)

lemma append_value_total: "value_list e \<Longrightarrow> \<exists>e'. append_value v e = Some e' \<and> value_list (Some e')"
proof -
  have "value_list (Some l) \<Longrightarrow> \<exists>l'. list_append v l = Some l' \<and> value_list (Some l')" for l
    by (induction l rule: list_append.induct) auto
  then show "value_list e \<Longrightarrow> \<exists>e'. append_value v e = Some e' \<and> value_list (Some e')"
    by (cases e) (auto simp: append_value_def)
qed

lemma sym_get_choice_prop_append:
  assumes "sym_get_choice_prop k s = Some p" "s_prop (k_sym k' s) = s_prop (k_sym k s) @ qs"
    "\<And>p. p \<in> set (s_prop (k_sym k s)) \<Longrightarrow> p_type (k_prop k' p) = p_type (k_prop k p)"
  shows "sym_get_choice_prop k' s = Some p"
proof -
  have "filter (\<lambda>p. p_type (k_prop k' p) = P_CHOICE) (s_prop (k_sym k s)) =
      filter (\<lambda>p. p_type (k_prop k p) = P_CHOICE) (s_prop (k_sym k s))"
    using assms(3) by (intro filter_cong) auto
  with assms(1,2) show ?thesis
    by (auto simp: sym_get_choice_prop_def for_all_properties_def first_of_def split: list.splits)
qed

lemma keeps_add_choice:
  assumes ok: "fin_ok U b"
  shows "keeps U b (menu_add_symbol P_CHOICE s None b)"
proof -
  let ?so = "m_sym (menus_of b (b_entry b))" and ?q = "t_props (b_tab b)" and ?k = "b_conf b"
  define t where "t = snd (prop_alloc P_CHOICE ?so (b_tab b))"
  have pa: "prop_alloc P_CHOICE ?so (b_tab b) = (?q, t)"
    by (simp add: t_def prop_alloc_simps(1) prod_eq_iff)
  define b' where "b' = b_upd (set_prop_dep ?q None \<circ> upd_prop ?q (p_expr_update (\<lambda>_. Some (expr_alloc_symbol s))) \<circ>
     upd_prop ?q (p_menu_update (\<lambda>_. Some (b_entry b)))) (b\<lparr>b_tab := t\<rparr>)"
  have eq: "menu_add_symbol P_CHOICE s None b = Some b'"
    by (simp add: menu_add_symbol_def menu_add_prop_def pa b'_def)
  have "k_menu (t_conf t) = menus_of b"
    using prop_alloc_menus [of P_CHOICE ?so "b_tab b"] by (simp add: t_def b_conf_def)
  then have M: "menus_of b' = menus_of b" by (simp add: b'_def)
  have T: "t_props t = Suc ?q"
    "k_prop (t_conf t) = (k_prop ?k)(?q := null_property\<lparr>p_type := P_CHOICE, p_sym := ?so,
       p_file := t_file (b_tab b), p_lineno := t_lineno (b_tab b)\<rparr>)"
    "k_sym (t_conf t) = (\<lambda>x. if ?so = Some x
     then (k_sym ?k x)\<lparr>s_prop := s_prop (k_sym ?k x) @ [?q]\<rparr> else k_sym ?k x)"
    by (auto simp: t_def prop_alloc_simps b_conf_def fun_eq_iff)
  have q: "t_props (b_tab b') = Suc ?q" by (simp add: b'_def T)
  have P: "k_prop (b_conf b') p = k_prop ?k p" if "p < ?q" for p
    using that by (simp add: b'_def T set_prop_dep_def)
  have Q: "p_type (k_prop (b_conf b') ?q) = P_CHOICE"
    by (simp add: b'_def T set_prop_dep_def)
  have S: "k_sym (b_conf b') = (\<lambda>x. if ?so = Some x
     then (k_sym ?k x)\<lparr>s_prop := s_prop (k_sym ?k x) @ [?q]\<rparr> else k_sym ?k x)"
    by (simp add: b'_def T)
  have ps: "s_prop (k_sym (b_conf b') x) = s_prop (k_sym ?k x) @ (if ?so = Some x then [?q] else [])" for x
    by (simp add: S)
  have old: "p < ?q" "prop_ok (b_conf b') p" if "p \<in> set (s_prop (k_sym ?k x))" for p x
  proof -
    show l: "p < ?q" using fin_okD(1) [OF ok that] .
    have "s_name (k_sym (b_conf b') y) = s_name (k_sym ?k y)" for y by (simp add: S)
    then show "prop_ok (b_conf b') p"
      using fin_okD(2) [OF ok that] by (simp add: prop_ok_def P [OF l] prop_get_symbol_def M)
  qed
  have "\<exists>p. sym_get_choice_prop (b_conf b') x = Some p \<and> value_list (p_expr (k_prop (b_conf b') p))"
    if "sym_is_choice (k_sym (b_conf b') x)" for x
  proof -
    have "sym_is_choice (k_sym ?k x)" using that by (simp add: S sym_is_choice_def split: if_splits)
    then obtain p where p: "sym_get_choice_prop ?k x = Some p" "value_list (p_expr (k_prop ?k p))"
      using ok by (auto simp: fin_ok_def)
    have "p \<in> set (s_prop (k_sym ?k x))"
      using p(1) by (auto simp: sym_get_choice_prop_def for_all_properties_def first_of_def
          split: list.splits dest: filter_eq_ConsD)
    then have "k_prop (b_conf b') p = k_prop ?k p" using P old(1) by blast
    moreover have "sym_get_choice_prop (b_conf b') x = Some p"
      using p(1) ps by (rule sym_get_choice_prop_append) (simp add: P old(1))
    ultimately show ?thesis using p(2) by auto
  qed
  moreover have "p < Suc ?q \<and> prop_ok (b_conf b') p" if "p \<in> set (s_prop (k_sym (b_conf b') x))" for p x
    using that old [of p x] Q by (auto simp: ps prop_ok_def less_SucI split: if_splits)
  moreover have "p < Suc ?q \<and> p_type (k_prop (b_conf b') p) \<noteq> P_SELECT"
    if "m \<in> U" "m_sym (menus_of b m) = None" "m_prompt (menus_of b m) = Some p" for m p
    using ok that P [of p] by (auto simp: fin_ok_def less_SucI)
  ultimately have "fin_ok U b'" using ok unfolding fin_ok_def q M by blast
  then show ?thesis by (auto simp: keeps_def eq post_simps same_tree_def M S sym_is_choice_def)
qed

lemma choice_prop_type: "sym_get_choice_prop k s = Some p \<Longrightarrow> p_type (k_prop k p) = P_CHOICE"
  by (auto simp: sym_get_choice_prop_def for_all_properties_def first_of_def split: list.splits
      dest: filter_eq_ConsD)

lemma keeps_append:
  assumes ok: "fin_ok U b" and p: "sym_get_choice_prop (b_conf b) s = Some p" and e: "value_list (Some e)"
  shows "keeps U b (Some (b_upd (upd_prop p (p_expr_update (\<lambda>_. Some e))) b))"
proof -
  define b' where "b' = b_upd (upd_prop p (p_expr_update (\<lambda>_. Some e))) b"
  have same: "k_sym (b_conf b') = k_sym (b_conf b)" "menus_of b' = menus_of b" "t_props (b_tab b') = t_props (b_tab b)"
    "p_type (k_prop (b_conf b') q) = p_type (k_prop (b_conf b) q)" for q
    by (simp_all add: b'_def)
  have po: "prop_ok (b_conf b') q" if "prop_ok (b_conf b) q" for q
  proof (cases "q = p")
    case True
    then show ?thesis using choice_prop_type [OF p] by (simp add: prop_ok_def b'_def)
  next
    case False
    then show ?thesis using that by (simp add: prop_ok_def prop_get_symbol_def b'_def)
  qed
  have g: "sym_get_choice_prop (b_conf b') x = sym_get_choice_prop (b_conf b) x" for x
    unfolding sym_get_choice_prop_def for_all_properties_def same by simp
  have "value_list (p_expr (k_prop (b_conf b') q))" if "value_list (p_expr (k_prop (b_conf b) q))" for q
    using that e by (simp add: b'_def)
  then have "fin_ok U b'" using ok po unfolding fin_ok_def g same by blast
  then show ?thesis unfolding b'_def [symmetric] by (simp add: keeps_def post_simps same_tree_def same)
qed

lemma keeps_choice_value:
  assumes ok: "fin_ok U b" and m: "m \<in> U" "m_sym (menus_of b m) \<noteq> None" and s: "sym_is_choice (k_sym (b_conf b) s)"
  shows "keeps U b (choice_value s m v b)"
proof -
  let ?b = "b_upd (flag_on SYMBOL_CHOICEVAL v) (b\<lparr>b_entry := m\<rparr>)"
  have q: "still b ?b" using still_trans [OF still_entry(1) still_upds(6)] .
  have warn: "calm b1 (each_prop (value_warnings s m) (s_prop (k_sym (b_conf b1) v)) b1)" if ok1: "fin_ok U b1" for b1
  proof (rule calm_each_prop)
    fix p b2 assume p: "p \<in> set (s_prop (k_sym (b_conf b1) v))" and q: "still b1 b2"
    have po: "prop_ok (b_conf b2) p" using fin_okD(2) [OF ok1 p] by (simp add: prop_ok_still [OF q])
    have "calm b2 (warn_if (p_type (k_prop (b_conf b2) p) = P_DEFAULT) p ''defaults for choice values not supported'' b2)"
      using po by (auto simp: warn_if_def prop_ok_def intro: calm_prop_warn)
    then show "calm b2 (value_warnings s m p b2)"
      unfolding value_warnings_def
    proof (rule calm_bind)
      fix b3 assume q3: "still b2 b3"
      have po3: "prop_ok (b_conf b3) p" using po by (simp add: prop_ok_still [OF q3])
      show "calm b3 (if p_menu (k_prop (b_conf b3) p) = Some m \<or> p_type (k_prop (b_conf b3) p) \<noteq> P_PROMPT then Some b3
        else do { pm \<leftarrow> p_menu (k_prop (b_conf b3) p); par \<leftarrow> m_parent (menus_of b3 pm);
          warn_if (m_sym (menus_of b3 par) \<noteq> Some s) p ''choice value used outside its choice group'' b3 })"
      proof (rule calm_if)
        assume "\<not> (p_menu (k_prop (b_conf b3) p) = Some m \<or> p_type (k_prop (b_conf b3) p) \<noteq> P_PROMPT)"
        then have t: "p_type (k_prop (b_conf b3) p) = P_PROMPT" by simp
        then have f: "p_file (k_prop (b_conf b3) p) \<noteq> None" using po3 by (auto simp: prop_ok_def)
        from t po3 obtain pm par where "p_menu (k_prop (b_conf b3) p) = Some pm" "m_parent (menus_of b3 pm) = Some par"
          by (auto simp: prop_ok_def)
        then show "calm b3 (do { pm \<leftarrow> p_menu (k_prop (b_conf b3) p); par \<leftarrow> m_parent (menus_of b3 pm);
          warn_if (m_sym (menus_of b3 par) \<noteq> Some s) p ''choice value used outside its choice group'' b3 })"
          by (simp add: calm_warn_if [OF f])
      qed simp
    qed
  qed
  have yes: "calm b1 (each_prop (and_yes s m) ps b1)" for ps b1
    by (rule calm_each_prop) (auto simp: and_yes_def)
  show ?thesis
    unfolding choice_value_def Let_def
  proof (rule keeps_after [OF calm_from [OF q]])
    show "calm ?b (if m_prompt (menus_of ?b m) = None then menu_warn m ''choice value must have a prompt'' ?b else Some ?b)"
      using ok m by (auto intro!: calm_menu_warn simp del: b_upd_simps simp: fin_ok_def still_sym [OF q])
  next
    fix b1 assume q1: "still b b1" and ok1: "fin_ok U b1"
    show "keeps U b1 (do {
       b \<leftarrow> each_prop (value_warnings s m) (s_prop (k_sym (b_conf b1) v)) b1;
       b \<leftarrow> (if s_type (k_sym (b_conf b) s) = S_TRISTATE \<and> s_type (k_sym (b_conf b) v) \<noteq> S_TRISTATE
            then each_prop (and_yes s m) (s_prop (k_sym (b_conf b) v))
              (b_upd (set_menu_dep m (expr_alloc_and (Some (expr_alloc_comp E_EQUAL s symbol_yes))
                 (m_dep (menus_of b m)))) b)
            else Some b);
       b \<leftarrow> menu_add_symbol P_CHOICE s None b;
       p \<leftarrow> sym_get_choice_prop (b_conf b) s;
       e \<leftarrow> append_value v (p_expr (k_prop (b_conf b) p));
       Some (b_upd (upd_prop p (p_expr_update (\<lambda>_. Some e))) b) })"
    proof (rule keeps_after [OF warn [OF ok1] ok1])
      fix b2 assume q2: "still b1 b2" and ok2: "fin_ok U b2"
      have "calm b2 (if s_type (k_sym (b_conf b2) s) = S_TRISTATE \<and> s_type (k_sym (b_conf b2) v) \<noteq> S_TRISTATE
            then each_prop (and_yes s m) (s_prop (k_sym (b_conf b2) v))
              (b_upd (set_menu_dep m (expr_alloc_and (Some (expr_alloc_comp E_EQUAL s symbol_yes))
                 (m_dep (menus_of b2 m)))) b2)
            else Some b2)"
        using calm_from [OF still_upds(3) yes] by simp
      then show "keeps U b2 (do {
         b \<leftarrow> (if s_type (k_sym (b_conf b2) s) = S_TRISTATE \<and> s_type (k_sym (b_conf b2) v) \<noteq> S_TRISTATE
              then each_prop (and_yes s m) (s_prop (k_sym (b_conf b2) v))
                (b_upd (set_menu_dep m (expr_alloc_and (Some (expr_alloc_comp E_EQUAL s symbol_yes))
                   (m_dep (menus_of b2 m)))) b2)
              else Some b2);
         b \<leftarrow> menu_add_symbol P_CHOICE s None b;
         p \<leftarrow> sym_get_choice_prop (b_conf b) s;
         e \<leftarrow> append_value v (p_expr (k_prop (b_conf b) p));
         Some (b_upd (upd_prop p (p_expr_update (\<lambda>_. Some e))) b) })"
      proof (rule keeps_after [OF _ ok2])
        fix b3 assume q3: "still b2 b3" and ok3: "fin_ok U b3"
        have s3: "sym_is_choice (k_sym (b_conf b3) s)"
          using s by (simp add: still_sym [OF q1] still_sym [OF q2] still_sym [OF q3])
        show "keeps U b3 (do {
           b \<leftarrow> menu_add_symbol P_CHOICE s None b3;
           p \<leftarrow> sym_get_choice_prop (b_conf b) s;
           e \<leftarrow> append_value v (p_expr (k_prop (b_conf b) p));
           Some (b_upd (upd_prop p (p_expr_update (\<lambda>_. Some e))) b) })"
        proof (rule keeps_bind [OF keeps_add_choice [OF ok3]])
          fix b4 assume ok4: "fin_ok U b4" and t4: "same_tree b3 b4"
          then obtain p where p: "sym_get_choice_prop (b_conf b4) s = Some p" "value_list (p_expr (k_prop (b_conf b4) p))"
            using s3 by (auto simp: fin_ok_def same_tree_def)
          then obtain e where "append_value v (p_expr (k_prop (b_conf b4) p)) = Some e" "value_list (Some e)"
            using append_value_total by blast
          then show "keeps U b4 (do { p \<leftarrow> sym_get_choice_prop (b_conf b4) s;
             e \<leftarrow> append_value v (p_expr (k_prop (b_conf b4) p));
             Some (b_upd (upd_prop p (p_expr_update (\<lambda>_. Some e))) b4) })"
            using keeps_append [OF ok4 p(1)] p(1) by simp
        qed
      qed
    qed
  qed (rule ok)
qed

end
