(* ===== verification/Menuforest.thy ===== *)
theory Menuforest
  imports Menuorder
begin

text \<open>
  The tree of menus as a forest of nodes: the links of a segment of siblings hold a list of trees.
  Every step of \<^verbatim>\<open>menu_finalize\<close> that moves entries keeps the order of the nodes, so
  that the whole function does.
\<close>

section \<open>Forests\<close>

datatype mtree = Node (root: mid) (kids: "mtree list")

fun ids :: "mtree list \<Rightarrow> mid list" where
  "ids [] = []"
| "ids (Node m cs # ts) = m # ids cs @ ids ts"

text \<open>The siblings from \<open>p\<close> up to \<open>q\<close>, with what is below them.\<close>

fun fseg :: "(mid \<Rightarrow> menu) \<Rightarrow> mid \<Rightarrow> mid option \<Rightarrow> mtree list \<Rightarrow> mid option \<Rightarrow> bool" where
  "fseg M par p [] q \<longleftrightarrow> p = q"
| "fseg M par p (Node m cs # ts) q \<longleftrightarrow> p = Some m \<and> m_parent (M m) = Some par \<and>
     fseg M m (m_list (M m)) cs None \<and> fseg M par (m_next (M m)) ts q"

lemma ids_append [simp]: "ids (ts @ us) = ids ts @ ids us"
  by (induction ts rule: ids.induct) auto

lemma roots_ids: "set (map root ts) \<subseteq> set (ids ts)"
  by (induction ts rule: ids.induct) auto

lemma length_ids: "length ts \<le> length (ids ts)"
  by (induction ts rule: ids.induct) auto

lemma ids_empty [simp]: "ids ts = [] \<longleftrightarrow> ts = []"
  by (cases ts rule: ids.cases) auto

definition same_at :: "mid set \<Rightarrow> (mid \<Rightarrow> menu) \<Rightarrow> (mid \<Rightarrow> menu) \<Rightarrow> bool" where
  "same_at S M M' \<longleftrightarrow> (\<forall>x \<in> S. m_next (M' x) = m_next (M x) \<and> m_list (M' x) = m_list (M x) \<and>
     m_parent (M' x) = m_parent (M x))"

text \<open>Only the links of the menus in \<open>S\<close> have changed.\<close>

definition only :: "mid set \<Rightarrow> (mid \<Rightarrow> menu) \<Rightarrow> (mid \<Rightarrow> menu) \<Rightarrow> bool" where
  "only S M M' \<longleftrightarrow> same_at (- S) M M'"

lemma only_refl [simp]: "only S M M"
  by (simp add: only_def same_at_def)

lemma only_trans: "only S M M' \<Longrightarrow> only T M' M'' \<Longrightarrow> S \<union> T \<subseteq> R \<Longrightarrow> only R M M''"
  unfolding only_def same_at_def by (metis Compl_iff Un_iff subsetD)

lemma only_mono: "only S M M' \<Longrightarrow> S \<subseteq> R \<Longrightarrow> only R M M'"
  by (auto simp: only_def same_at_def)

lemma onlyD: "only S M M' \<Longrightarrow> x \<notin> S \<Longrightarrow> m_next (M' x) = m_next (M x)"
  "only S M M' \<Longrightarrow> x \<notin> S \<Longrightarrow> m_list (M' x) = m_list (M x)"
  "only S M M' \<Longrightarrow> x \<notin> S \<Longrightarrow> m_parent (M' x) = m_parent (M x)"
  by (auto simp: only_def same_at_def)

lemma fseg_cong: "same_at (set (ids ts)) M M' \<Longrightarrow> fseg M' par p ts q = fseg M par p ts q"
proof (induction M par p ts q rule: fseg.induct)
  case (2 M par p m cs ts q)
  from 2(3) have "same_at (set (ids cs)) M M'" "same_at (set (ids ts)) M M'"
    "m_next (M' m) = m_next (M m)" "m_list (M' m) = m_list (M m)" "m_parent (M' m) = m_parent (M m)"
    by (auto simp: same_at_def)
  with 2(1,2) show ?case by simp
qed simp

lemma fseg_only: "only S M M' \<Longrightarrow> set (ids ts) \<inter> S = {} \<Longrightarrow> fseg M' par p ts q = fseg M par p ts q"
  by (rule fseg_cong) (auto simp: only_def same_at_def)

lemma fseg_append: "fseg M par p (ts @ us) q \<longleftrightarrow> (\<exists>r. fseg M par p ts r \<and> fseg M par r us q)"
  by (induction M par p ts q rule: fseg.induct) auto

lemma fseg_path: "fseg M par p ts q \<Longrightarrow> path (\<lambda>m. m_next (M m)) p (map root ts) q"
  by (induction M par p ts q rule: fseg.induct) auto

lemma fseg_first: "fseg M par p (t # ts) q \<Longrightarrow> p = Some (root t)"
  by (cases t) simp

lemma fseg_None: "fseg M par None ts None \<Longrightarrow> ts = []"
  by (cases ts rule: ids.cases) auto

text \<open>New parents for the siblings, and a new end.\<close>

lemma fseg_parents:
  assumes "fseg M par p ts q" "distinct (ids ts)"
    "\<And>x. x \<in> set (ids ts) \<Longrightarrow> m_next (M' x) = m_next (M x) \<and> m_list (M' x) = m_list (M x) \<and>
       m_parent (M' x) = (if x \<in> root ` set ts then Some par' else m_parent (M x))"
  shows "fseg M' par' p ts q"
  using assms
proof (induction ts arbitrary: p rule: ids.induct)
  case (2 m cs ts)
  have "m_parent (M' x) = m_parent (M x)" if "x \<in> set (ids cs)" for x
    using that 2(4,5) roots_ids [of ts] by auto
  then have "same_at (set (ids cs)) M M'" using 2(5) by (simp add: same_at_def)
  then have c: "fseg M' m (m_list (M' m)) cs None" using 2(3,5) fseg_cong by simp
  have "fseg M' par' (m_next (M m)) ts q"
  proof (rule 2(2))
    fix x assume x: "x \<in> set (ids ts)"
    then have "x \<noteq> m" using 2(4) by auto
    then show "m_next (M' x) = m_next (M x) \<and> m_list (M' x) = m_list (M x) \<and>
       m_parent (M' x) = (if x \<in> root ` set ts then Some par' else m_parent (M x))"
      using 2(5) [of x] x by simp
  qed (use 2(3,4) in auto)
  then show ?case using c 2(3,5) by simp
qed simp

lemma fseg_end:
  assumes "fseg M par p ts q" "distinct (ids ts)" "ts \<noteq> []" "l = root (last ts)"
    "M' l = (M l)\<lparr>m_next := r\<rparr>" "\<And>x. x \<in> set (ids ts) \<Longrightarrow> x \<noteq> l \<Longrightarrow> M' x = M x"
  shows "fseg M' par p ts r"
  using assms
proof (induction ts arbitrary: p rule: ids.induct)
  case (2 m cs ts)
  show ?case
  proof (cases ts)
    case Nil
    with 2 have "l = m" by simp
    then have "M' x = M x" if "x \<in> set (ids cs)" for x
      by (intro 2(8)) (use that 2(4) in auto)
    then have "same_at (set (ids cs)) M M'" by (simp add: same_at_def)
    with 2(3,7) Nil \<open>l = m\<close> show ?thesis by (simp add: fseg_cong)
  next
    case (Cons t us)
    have lt: "l \<in> set (ids ts)" using 2(6) Cons roots_ids [of ts] last_in_set [of ts] by auto
    then have lm: "l \<noteq> m" "l \<notin> set (ids cs)" using 2(4) by auto
    have "M' x = M x" if "x \<in> set (ids cs)" for x
      by (intro 2(8)) (use that lm in auto)
    then have c: "same_at (set (ids cs)) M M'" by (simp add: same_at_def)
    have "fseg M' par (m_next (M m)) ts r"
      by (rule 2(2)) (use 2(3,4,6,7,8) Cons in auto)
    with 2(3,8) lm c show ?thesis by (simp add: fseg_cong)
  qed
qed simp

section \<open>Changes of links\<close>

text \<open>Whatever only changes links keeps what the checks need, if no parent is lost.\<close>

lemma fin_ok_links:
  assumes "fin_ok U b" "k_sym (b_conf b') = k_sym (b_conf b)" "k_prop (b_conf b') = k_prop (b_conf b)"
    "t_props (b_tab b') = t_props (b_tab b)"
    "\<And>m. m_file (menus_of b' m) = m_file (menus_of b m)" "\<And>m. m_sym (menus_of b' m) = m_sym (menus_of b m)"
    "\<And>m. m_prompt (menus_of b' m) = m_prompt (menus_of b m)"
    "\<And>m. m_parent (menus_of b m) \<noteq> None \<Longrightarrow> m_parent (menus_of b' m) \<noteq> None"
  shows "fin_ok U b'"
proof -
  have pg: "prop_get_symbol (b_conf b') p = prop_get_symbol (b_conf b) p"
    "sym_get_choice_prop (b_conf b') s = sym_get_choice_prop (b_conf b) s" for p s
    by (simp_all add: prop_get_symbol_def sym_get_choice_prop_def for_all_properties_def assms(2,3))
  have "prop_ok (b_conf b') p" if "prop_ok (b_conf b) p" for p
    using that assms(8) unfolding prop_ok_def pg assms(2,3) by blast
  with assms(1) show ?thesis
    unfolding fin_ok_def pg assms(2-7) by blast
qed

lemma set_parent_simps [simp]:
  "k_menu (set_parent m par k) = (k_menu k)(m := (k_menu k m)\<lparr>m_parent := Some par\<rparr>)"
  "k_sym (set_parent m par k) = k_sym k" "k_prop (set_parent m par k) = k_prop k"
  by (simp_all add: set_parent_def)

lemma fin_ok_parent: "fin_ok U b \<Longrightarrow> fin_ok U (b_upd (set_parent m par) b)"
  by (rule fin_ok_links [of U b]) auto

text \<open>The loop over the children of an entry without a prompt.\<close>

lemma set_parents_spec:
  assumes "fin_ok U b" "fseg (menus_of b) par (Some m) (t # ts) None" "distinct (ids (t # ts))"
    "length (t # ts) \<le> n"
  shows "\<exists>b'. set_parents n par' m b = Some (root (last (t # ts)), b') \<and> fin_ok U b' \<and>
    menus_of b' = (\<lambda>x. if x \<in> root ` set (t # ts) then (menus_of b x)\<lparr>m_parent := Some par'\<rparr> else menus_of b x)"
  using assms
proof (induction ts arbitrary: b m t n)
  case Nil
  then have m: "m = root t" "m_next (menus_of b m) = None" by (cases t; simp)+
  obtain n' where "n = Suc n'" using Nil.prems(4) by (cases n) auto
  with m fin_ok_parent [OF Nil.prems(1)] show ?case by (auto simp: Let_def fun_eq_iff)
next
  case (Cons u us)
  obtain cs where t: "t = Node m cs" using Cons.prems(2) by (cases t) auto
  let ?b = "b_upd (set_parent m par') b"
  obtain n' where n: "n = Suc n'" using Cons.prems(4) by (cases n) auto
  have nm: "m_next (menus_of b m) = Some (root u)" using Cons.prems(2) by (cases u) (auto simp: t)
  have "fseg (menus_of ?b) par (Some (root u)) (u # us) None"
  proof -
    have "fseg (menus_of b) par (Some (root u)) (u # us) None" using Cons.prems(2) nm by (simp add: t)
    moreover have "same_at (set (ids (u # us))) (menus_of b) (menus_of ?b)"
      using Cons.prems(3) by (auto simp: same_at_def t)
    ultimately show ?thesis using fseg_cong by blast
  qed
  from Cons.IH [OF fin_ok_parent [OF Cons.prems(1)] this, of n'] Cons.prems(3,4) obtain b' where
    b': "set_parents n' par' (root u) ?b = Some (root (last (u # us)), b')" "fin_ok U b'"
    "menus_of b' = (\<lambda>x. if x \<in> root ` set (u # us) then (menus_of ?b x)\<lparr>m_parent := Some par'\<rparr> else menus_of ?b x)"
    by (auto simp: n t)
  have "m \<notin> root ` set (u # us)" using Cons.prems(3) roots_ids [of "u # us"] by (auto simp: t)
  with b' nm show ?case by (auto simp: n t Let_def fun_eq_iff)
qed

definition menu_ok :: "parser \<Rightarrow> mid \<Rightarrow> mid \<Rightarrow> mtree list \<Rightarrow> mtree list \<Rightarrow> bool" where
  "menu_ok b par m cs ts \<longleftrightarrow> fseg (menus_of b) m (m_list (menus_of b m)) cs None \<and>
     fseg (menus_of b) par (m_next (menus_of b m)) ts None \<and> distinct (m # ids cs @ ids ts)"

lemma menu_ok_tree: "same_tree b b' \<Longrightarrow> menu_ok b' par m cs ts = menu_ok b par m cs ts"
proof -
  assume t: "same_tree b b'"
  then have "same_at S (menus_of b) (menus_of b')" for S by (auto simp: same_tree_def same_at_def)
  with t show ?thesis
    by (simp add: menu_ok_def fseg_cong [of _ "menus_of b" "menus_of b'"] same_tree_def)
qed

lemma only_tree: "same_tree b b' \<Longrightarrow> only S (menus_of b) (menus_of b')"
  by (auto simp: same_tree_def only_def same_at_def)

text \<open>What a step makes of a menu: \<open>cs'\<close> is below it, \<open>us\<close> behind it.\<close>

definition step_ok :: "mid set \<Rightarrow> parser \<Rightarrow> parser \<Rightarrow> mid \<Rightarrow> mid \<Rightarrow> mtree list \<Rightarrow> mtree list \<Rightarrow> mtree list \<Rightarrow> mtree list \<Rightarrow> bool" where
  "step_ok U b b' par m cs ts cs' us \<longleftrightarrow> fin_ok U b' \<and> menu_ok b' par m cs' us \<and>
     ids cs' @ ids us = ids cs @ ids ts \<and> m_parent (menus_of b' m) = m_parent (menus_of b m)"

lemma flatten_spec:
  assumes ok: "fin_ok U b" and mo: "menu_ok b par m cs ts" and n: "length cs \<le> n"
  shows "\<exists>b' cs' us. flatten n par m b = Some b' \<and> step_ok U b b' par m cs ts cs' us \<and>
    only (insert m (set (ids cs))) (menus_of b) (menus_of b')"
proof (cases "cs = [] \<or> \<not> no_prompt_text (b_conf b) m")
  case True
  then have "flatten n par m b = Some b"
    using mo by (auto simp: menu_ok_def flatten_def split: option.split)
  then show ?thesis using ok mo by (auto simp: step_ok_def)
next
  case False
  then obtain c cs2 where cs: "cs = c # cs2" and np: "no_prompt_text (b_conf b) m" by (cases cs) auto
  let ?M = "menus_of b"
  have seg: "fseg ?M m (Some (root c)) cs None" "m_list (?M m) = Some (root c)"
    "fseg ?M par (m_next (?M m)) ts None" and d: "distinct (m # ids cs @ ids ts)"
    using mo fseg_first unfolding menu_ok_def cs by metis+
  obtain b1 where b1: "set_parents n par (root c) b = Some (root (last cs), b1)" "fin_ok U b1"
    "menus_of b1 = (\<lambda>x. if x \<in> root ` set cs then (?M x)\<lparr>m_parent := Some par\<rparr> else ?M x)"
    using set_parents_spec [OF ok, of m "root c" c cs2 n par] seg(1) d n by (auto simp: cs)
  let ?l = "root (last cs)"
  define b2 where "b2 = b_upd (splice m ?l) b1"
  have rs: "root ` set cs \<subseteq> set (ids cs)" using roots_ids [of cs] by simp
  have l: "?l \<in> set (ids cs)" "?l \<noteq> m" "m \<notin> root ` set cs" using rs d cs by (auto simp: image_subset_iff)
  have M2: "menus_of b2 = (menus_of b1)(?l := (menus_of b1 ?l)\<lparr>m_next := m_next (?M m)\<rparr>,
      m := (?M m)\<lparr>m_next := Some (root c), m_list := None\<rparr>)"
    using l b1(3) seg(2) by (auto simp: b2_def splice_def Let_def fun_eq_iff)
  have only: "only (insert m (set (ids cs))) ?M (menus_of b2)"
    using rs l unfolding M2 b1(3) by (auto simp: only_def same_at_def)
  have 1: "fseg (menus_of b1) par (Some (root c)) cs None"
    by (rule fseg_parents [OF seg(1)]) (use d b1(3) in auto)
  have 2: "fseg (menus_of b2) par (Some (root c)) cs (m_next (?M m))"
  proof -
    let ?M1 = "(menus_of b1)(?l := (menus_of b1 ?l)\<lparr>m_next := m_next (?M m)\<rparr>)"
    have "fseg ?M1 par (Some (root c)) cs (m_next (?M m))"
      by (rule fseg_end [OF 1]) (use d cs in auto)
    then show ?thesis using d by (subst fseg_cong [of _ ?M1]) (auto simp: same_at_def M2)
  qed
  have 3: "fseg (menus_of b2) par (m_next (?M m)) ts None"
  proof -
    have "set (ids ts) \<inter> insert m (set (ids cs)) = {}" using d by auto
    then show ?thesis using seg(3) fseg_only [OF only] by blast
  qed
  have k: "k_sym (b_conf b2) = k_sym (b_conf b1)" "k_prop (b_conf b2) = k_prop (b_conf b1)"
    by (simp_all add: b2_def splice_def Let_def)
  have "fin_ok U b2"
    by (rule fin_ok_links [OF b1(2) k]) (use l b1(3) in \<open>auto simp: M2 b2_def splice_def Let_def\<close>)
  moreover have "menu_ok b2 par m [] (cs @ ts)"
    using 2 3 d by (auto simp: menu_ok_def fseg_append M2)
  moreover have "m_parent (menus_of b2 m) = m_parent (?M m)" by (simp add: M2)
  moreover have "flatten n par m b = Some b2"
    using seg(2) np b1(1) by (simp add: flatten_def b2_def)
  ultimately show ?thesis using only 
    by (intro exI [of _ b2] exI [of _ "[]"] exI [of _ "cs @ ts"]) (simp add: step_ok_def)
qed

section \<open>The loop over the entries below a menu\<close>

lemma fin_value_spec:
  assumes ok: "fin_ok U b" and mo: "menu_ok b par m cs ts" and n: "length cs \<le> n" and U: "m \<in> U"
  shows "\<exists>b' cs' us. fin_value n par m b = Some b' \<and> step_ok U b b' par m cs ts cs' us \<and>
    only (insert m (set (ids cs))) (menus_of b) (menus_of b')"
proof -
  let ?c = "case (m_sym (menus_of b par), m_sym (menus_of b m)) of
      (Some s, Some v) \<Rightarrow> if sym_is_choice (k_sym (b_conf b) s) \<and> \<not> sym_is_choice_value (k_sym (b_conf b) v)
        then choice_value s m v b else Some b | _ \<Rightarrow> Some b"
  have "keeps U b ?c"
    using keeps_choice_value [OF ok U] calm_keeps [OF ok] by (auto split: option.split)
  then obtain b1 where b1: "?c = Some b1" "fin_ok U b1" "same_tree b b1"
    by (auto simp: keeps_def returns_def)
  have "menu_ok b1 par m cs ts" using mo menu_ok_tree [OF b1(3)] by simp
  from flatten_spec [OF b1(2) this n] obtain b' cs' us where
    "flatten n par m b1 = Some b'" "step_ok U b1 b' par m cs ts cs' us"
    "only (insert m (set (ids cs))) (menus_of b1) (menus_of b')" by blast
  moreover have "only {} (menus_of b) (menus_of b1)" using only_tree [OF b1(3)] .
  ultimately show ?thesis
    using b1 by (auto simp: fin_value_def step_ok_def same_tree_def intro: only_trans)
qed

text \<open>The loop with a body that turns every menu into one with \<open>cs'\<close> below it and \<open>us\<close> behind it.\<close>

lemma each_menu_spec:
  assumes body: "\<And>m cs ts b. fin_ok U b \<Longrightarrow> menu_ok b par m cs ts \<Longrightarrow> m \<in> U \<Longrightarrow> set (ids cs @ ids ts) \<subseteq> U \<Longrightarrow>
      Suc (length (ids cs @ ids ts)) \<le> N \<Longrightarrow>
      \<exists>b' cs' us. f m b = Some b' \<and> step_ok U b b' par m cs ts cs' us \<and>
        only (insert m (set (ids cs @ ids ts))) (menus_of b) (menus_of b')"
  shows "fin_ok U b \<Longrightarrow> fseg (menus_of b) par p ts None \<Longrightarrow> distinct (ids ts) \<Longrightarrow> set (ids ts) \<subseteq> U \<Longrightarrow>
    length (ids ts) \<le> N \<Longrightarrow> length (ids ts) \<le> n \<Longrightarrow>
    \<exists>b' ts'. each_menu n f p b = Some b' \<and> fin_ok U b' \<and> fseg (menus_of b') par p ts' None \<and>
      ids ts' = ids ts \<and> only (set (ids ts)) (menus_of b) (menus_of b')"
proof (induction n arbitrary: b p ts)
  case 0
  then have "ts = []" by simp
  with 0 show ?case by (intro exI [of _ b] exI [of _ "[]"]) simp
next
  case (Suc n)
  show ?case
  proof (cases ts rule: ids.cases)
    case 1
    with Suc.prems show ?thesis by (intro exI [of _ b] exI [of _ "[]"]) simp
  next
    case (2 m cs ts2)
    have mo: "menu_ok b par m cs ts2" using Suc.prems(2,3) by (simp add: 2 menu_ok_def)
    obtain b1 cs' us where b1: "f m b = Some b1" "step_ok U b b1 par m cs ts2 cs' us"
      "only (insert m (set (ids cs @ ids ts2))) (menus_of b) (menus_of b1)"
      using body [OF Suc.prems(1) mo] Suc.prems(4,5) by (auto simp: 2)
    have s: "fin_ok U b1" "fseg (menus_of b1) m (m_list (menus_of b1 m)) cs' None"
      "fseg (menus_of b1) par (m_next (menus_of b1 m)) us None" "distinct (m # ids cs' @ ids us)"
      "ids cs' @ ids us = ids cs @ ids ts2" "m_parent (menus_of b1 m) = m_parent (menus_of b m)"
      using b1(2) unfolding step_ok_def menu_ok_def by blast+
    have si: "set (ids cs') \<union> set (ids us) = set (ids cs) \<union> set (ids ts2)"
      "length (ids cs') + length (ids us) = length (ids cs) + length (ids ts2)"
      using arg_cong [OF s(5), of set] arg_cong [OF s(5), of length] by simp_all
    obtain b' us' where b': "each_menu n f (m_next (menus_of b1 m)) b1 = Some b'" "fin_ok U b'"
      "fseg (menus_of b') par (m_next (menus_of b1 m)) us' None" "ids us' = ids us"
      "only (set (ids us)) (menus_of b1) (menus_of b')"
    proof -
      have "set (ids us) \<subseteq> U" using si(1) Suc.prems(4) by (auto simp: 2)
      then show thesis
        using Suc.IH [OF s(1,3)] s(4) si(2) Suc.prems(5,6) that by (auto simp: 2)
    qed
    have m: "m \<notin> set (ids us)" "set (ids cs') \<inter> set (ids us) = {}" using s(4) by auto
    have "fseg (menus_of b') par p (Node m cs' # us') None"
      using Suc.prems(2) s(2,6) b'(3) onlyD [OF b'(5) m(1)] fseg_only [OF b'(5) m(2)] by (simp add: 2)
    moreover have "only (set (ids ts)) (menus_of b) (menus_of b')"
      by (rule only_trans [OF b1(3) b'(5)]) (use si in \<open>auto simp: 2\<close>)
    moreover have "each_menu (Suc n) f p b = Some b'" using Suc.prems(2) b1(1) b'(1) by (simp add: 2)
    moreover have "ids (Node m cs' # us') = ids ts" using s(5) b'(4) by (simp add: 2)
    ultimately show ?thesis using b'(2) by blast
  qed
qed

section \<open>Entries that move below the one they depend on\<close>

text \<open>What is known of the recursive calls on trees with at most \<open>N\<close> menus.\<close>

definition fin_spec :: "mid set \<Rightarrow> nat \<Rightarrow> (mid \<Rightarrow> parser \<Rightarrow> parser option) \<Rightarrow> bool" where
  "fin_spec U N fin \<longleftrightarrow> (\<forall>b par m cs ts. fin_ok U b \<longrightarrow> menu_ok b par m cs ts \<longrightarrow> m \<in> U \<longrightarrow>
     set (ids cs @ ids ts) \<subseteq> U \<longrightarrow> Suc (length (ids cs @ ids ts)) \<le> N \<longrightarrow>
     (\<exists>b' cs' us. fin m b = Some b' \<and> step_ok U b b' par m cs ts cs' us \<and>
        only (insert m (set (ids cs @ ids ts)) - set (ids us)) (menus_of b) (menus_of b')))"

lemma step_set: "step_ok U b b' par m cs ts cs' us \<Longrightarrow> set (ids cs') \<union> set (ids us) = set (ids cs) \<union> set (ids ts)"
  by (metis set_append step_ok_def)

lemma step_length: "step_ok U b b' par m cs ts cs' us \<Longrightarrow> length (ids cs') + length (ids us) = length (ids cs) + length (ids ts)"
  by (metis length_append step_ok_def)

text \<open>The siblings \<open>ts\<close> after the entry \<open>par'\<close>: some of them, \<open>as\<close>, get it as their parent.\<close>

lemma absorb_spec:
  assumes fin: "fin_spec U N fin"
  shows "fin_ok U b \<Longrightarrow> fseg (menus_of b) par p ts None \<Longrightarrow> distinct (ids ts) \<Longrightarrow> set (ids ts) \<subseteq> U \<Longrightarrow>
    length (ids ts) \<le> N \<Longrightarrow> length (ids ts) \<le> n \<Longrightarrow>
    \<exists>b' lst' q as us. absorb n fin par' s basedep p lst b = Some (lst', b') \<and> fin_ok U b' \<and>
      fseg (menus_of b') par' p as q \<and> fseg (menus_of b') par q us None \<and>
      ids as @ ids us = ids ts \<and> lst' = (if as = [] then lst else Some (root (last as))) \<and>
      only (set (ids as)) (menus_of b) (menus_of b')"
proof (induction n arbitrary: b p ts lst)
  case 0
  then have "ts = []" by simp
  with 0 show ?case by (intro exI [of _ b] exI [of _ lst] exI [of _ p] exI [of _ "[]"]) simp
next
  case (Suc n)
  have stop: "\<exists>b' lst' q as us. Some (lst, b) = Some (lst', b') \<and> fin_ok U b' \<and>
      fseg (menus_of b') par' p as q \<and> fseg (menus_of b') par q us None \<and>
      ids as @ ids us = ids ts \<and> lst' = (if as = [] then lst else Some (root (last as))) \<and>
      only (set (ids as)) (menus_of b) (menus_of b')"
    using Suc.prems by (intro exI [of _ b] exI [of _ lst] exI [of _ p] exI [of _ "[]"] exI [of _ ts]) simp
  show ?case
  proof (cases ts rule: ids.cases)
    case 1
    with Suc.prems(2) have "p = None" by simp
    then show ?thesis using stop by simp
  next
    case (2 m cs ts2)
    obtain i where i: "implied_by (b_conf b) s basedep (entry_dep (b_conf b) m) = Some i"
      using implied_by_total by blast
    show ?thesis
    proof (cases "expr_contains_symbol (entry_dep (b_conf b) m) s \<and> i")
      case False
      then have "absorb (Suc n) fin par' s basedep p lst b = Some (lst, b)"
        using Suc.prems(2) i by (auto simp: 2 Let_def)
      with stop show ?thesis by simp
    next
      case True
      have mo: "menu_ok b par m cs ts2" using Suc.prems(2,3) by (simp add: 2 menu_ok_def)
      have "Suc (length (ids cs @ ids ts2)) \<le> N" "m \<in> U" "set (ids cs @ ids ts2) \<subseteq> U"
        using Suc.prems(4,5) by (simp_all add: 2)
      then obtain b1 cs' us where b1: "fin m b = Some b1" "step_ok U b b1 par m cs ts2 cs' us"
        "only (insert m (set (ids cs @ ids ts2)) - set (ids us)) (menus_of b) (menus_of b1)"
        using fin [unfolded fin_spec_def, rule_format, OF Suc.prems(1) mo] by blast
      have s: "fin_ok U b1" "fseg (menus_of b1) m (m_list (menus_of b1 m)) cs' None"
        "fseg (menus_of b1) par (m_next (menus_of b1 m)) us None" "distinct (m # ids cs' @ ids us)"
        using b1(2) unfolding step_ok_def menu_ok_def by blast+
      note si = step_set [OF b1(2)] step_length [OF b1(2)]
      define b2 where "b2 = b_upd (set_parent m par') b1"
      have o2: "only {m} (menus_of b1) (menus_of b2)" by (simp add: b2_def only_def same_at_def)
      have m: "set (ids us) \<inter> {m} = {}" "set (ids cs') \<inter> {m} = {}" using s(4) by auto
      have us2: "fseg (menus_of b2) par (m_next (menus_of b2 m)) us None"
        using s(3) fseg_only [OF o2 m(1)] by (simp add: b2_def)
      have cs2: "fseg (menus_of b2) m (m_list (menus_of b2 m)) cs' None" "m_parent (menus_of b2 m) = Some par'"
        using s(2) fseg_only [OF o2 m(2)] by (simp_all add: b2_def)
      have "set (ids us) \<subseteq> U" "length (ids us) \<le> N" "length (ids us) \<le> n" "distinct (ids us)"
        using si s(4) Suc.prems(4,5,6) by (auto simp: 2)
      from Suc.IH [OF fin_ok_parent [OF s(1), of m par', folded b2_def] us2 this(4,1,2,3), of "Some m"]
      obtain b' lst' q as us' where b': "absorb n fin par' s basedep (m_next (menus_of b2 m)) (Some m) b2 = Some (lst', b')"
        "fin_ok U b'" "fseg (menus_of b') par' (m_next (menus_of b2 m)) as q" "fseg (menus_of b') par q us' None"
        "ids as @ ids us' = ids us" "lst' = (if as = [] then Some m else Some (root (last as)))"
        "only (set (ids as)) (menus_of b2) (menus_of b')" by blast
      have as: "set (ids as) \<subseteq> set (ids us)" using arg_cong [OF b'(5), of set] by auto
      have mas: "m \<notin> set (ids as)" "set (ids cs') \<inter> set (ids as) = {}" using as s(4) by auto
      have "fseg (menus_of b') par' p (Node m cs' # as) q"
        using Suc.prems(2) cs2 b'(3) onlyD [OF b'(7) mas(1)] fseg_only [OF b'(7) mas(2)] by (simp add: 2)
      moreover have "ids (Node m cs' # as) @ ids us' = ids ts"
        using b1(2) b'(5) by (simp add: 2 step_ok_def)
      moreover have "lst' = (if Node m cs' # as = [] then lst else Some (root (last (Node m cs' # as))))"
        using b'(6) by simp
      moreover have "only (set (ids (Node m cs' # as))) (menus_of b) (menus_of b')"
      proof -
        have "only (insert m (set (ids cs'))) (menus_of b) (menus_of b1)"
          by (rule only_mono [OF b1(3)]) (use si in auto)
        then have "only (insert m (set (ids cs'))) (menus_of b) (menus_of b2)"
          by (rule only_trans [OF _ o2]) auto
        then show ?thesis by (rule only_trans [OF _ b'(7)]) auto
      qed
      moreover have "m_next (menus_of b1 m) = m_next (menus_of b2 m)" by (simp add: b2_def)
      then have "absorb (Suc n) fin par' s basedep p lst b = Some (lst', b')"
        using Suc.prems(2) True i b1(1) b'(1) by (simp add: 2 Let_def b2_def [symmetric])
      ultimately show ?thesis using b'(2,4) by blast
    qed
  qed
qed

lemma move_down_menus:
  assumes "l \<noteq> parent"
  shows "k_menu (move_down parent l k) = (k_menu k)(
      parent := (k_menu k parent)\<lparr>m_list := m_next (k_menu k parent), m_next := m_next (k_menu k l)\<rparr>,
      l := (k_menu k l)\<lparr>m_next := None\<rparr>)"
    "k_sym (move_down parent l k) = k_sym k" "k_prop (move_down parent l k) = k_prop k"
  using assms by (auto simp: move_down_def Let_def fun_eq_iff)

lemma fin_leaf_spec:
  assumes fin: "fin_spec U n fin" and ok: "fin_ok U b" and mo: "menu_ok b par m [] ts"
    and U: "set (ids ts) \<subseteq> U" "length (ids ts) \<le> n"
  shows "\<exists>b' cs' us. fin_leaf n fin m s b = Some b' \<and> step_ok U b b' par m [] ts cs' us \<and>
    only (insert m (set (ids ts)) - set (ids us)) (menus_of b) (menus_of b')"
proof -
  have mo': "m_list (menus_of b m) = None" "fseg (menus_of b) par (m_next (menus_of b m)) ts None"
    "m \<notin> set (ids ts)" "distinct (ids ts)"
    using mo by (auto simp: menu_ok_def)
  obtain basedep where bd: "reduced (b_conf b) (expr_trans_compare
      (case m_prompt (menus_of b m) of Some p \<Rightarrow> prop_dep (b_conf b) p | None \<Rightarrow> None) E_UNEQUAL symbol_no) = Some basedep"
    using reduced_total by blast
  obtain b1 lst q as us where b1: "absorb n fin m s basedep (m_next (menus_of b m)) None b = Some (lst, b1)"
    "fin_ok U b1" "fseg (menus_of b1) m (m_next (menus_of b m)) as q" "fseg (menus_of b1) par q us None"
    "ids as @ ids us = ids ts" "lst = (if as = [] then None else Some (root (last as)))"
    "only (set (ids as)) (menus_of b) (menus_of b1)"
    using absorb_spec [OF fin ok mo'(2,4) U(1,2,2), of m s basedep None] by blast
  have d: "m \<notin> set (ids as)" "m \<notin> set (ids us)" "set (ids as) \<inter> set (ids us) = {}" "distinct (ids as)" "distinct (ids us)"
    using mo'(3,4) arg_cong [OF b1(5), of set] arg_cong [OF b1(5), of distinct] by auto
  define b2 where "b2 = (case lst of None \<Rightarrow> b1 | Some l \<Rightarrow> b_upd (move_down m l) b1)"
  have b2: "fin_ok U b2 \<and> menu_ok b2 par m as us \<and> m_parent (menus_of b2 m) = m_parent (menus_of b m) \<and>
      only (insert m (set (ids as))) (menus_of b) (menus_of b2)"
  proof (cases "as = []")
    case True
    then have e: "b2 = b1" "q = m_next (menus_of b m)" using b1(3,6) by (auto simp: b2_def)
    have t: "only {} (menus_of b) (menus_of b1)" using b1(7) True by simp
    then have "m_next (menus_of b1 m) = m_next (menus_of b m)" "m_list (menus_of b1 m) = None"
      "m_parent (menus_of b1 m) = m_parent (menus_of b m)" using onlyD [OF t, of m] mo'(1) by auto
    then show ?thesis using b1(2,4) True d e only_mono [OF t] by (auto simp: menu_ok_def)
  next
    case False
    let ?l = "root (last as)"
    have l: "?l \<in> set (ids as)" using roots_ids [of as] False by auto
    then have lm: "?l \<noteq> m" using d(1) by blast
    have M: "menus_of b2 = (menus_of b1)(m := (menus_of b1 m)\<lparr>m_list := m_next (menus_of b1 m), m_next := m_next (menus_of b1 ?l)\<rparr>,
        ?l := (menus_of b1 ?l)\<lparr>m_next := None\<rparr>)"
      "k_sym (b_conf b2) = k_sym (b_conf b1)" "k_prop (b_conf b2) = k_prop (b_conf b1)"
      "t_props (b_tab b2) = t_props (b_tab b1)"
      using False b1(6) move_down_menus [OF lm, of "b_conf b1"] by (auto simp: b2_def)
    have k1: "m_next (menus_of b1 m) = m_next (menus_of b m)" "m_parent (menus_of b1 m) = m_parent (menus_of b m)"
      using onlyD [OF b1(7) d(1)] by auto
    have q: "m_next (menus_of b1 ?l) = q"
      using path_end [OF _ fseg_path [OF b1(3)]] False by (simp add: last_map)
    have "fseg ((menus_of b1)(?l := (menus_of b1 ?l)\<lparr>m_next := None\<rparr>)) m (m_next (menus_of b m)) as None"
      by (rule fseg_end [OF b1(3) d(4) False refl]) auto
    then have "fseg (menus_of b2) m (m_next (menus_of b m)) as None"
      using d(1) by (subst fseg_cong [of _ "(menus_of b1)(?l := (menus_of b1 ?l)\<lparr>m_next := None\<rparr>)"])
        (auto simp: same_at_def M)
    moreover have o2: "only {m, ?l} (menus_of b1) (menus_of b2)" by (auto simp: only_def same_at_def M)
    moreover have "fseg (menus_of b2) par q us None"
    proof -
      have "set (ids us) \<inter> {m, ?l} = {}" using d(2,3) l by auto
      then show ?thesis using b1(4) fseg_only [OF o2] by blast
    qed
    ultimately have "menu_ok b2 par m as us" using d k1 q lm by (auto simp: menu_ok_def M(1))
    moreover have "fin_ok U b2"
      by (rule fin_ok_links [OF b1(2) M(2,3,4)]) (auto simp: M(1))
    moreover have "only (insert m (set (ids as))) (menus_of b) (menus_of b2)"
      by (rule only_trans [OF b1(7) o2]) (use l in auto)
    ultimately show ?thesis using k1 lm by (simp add: M(1))
  qed
  let ?b = "b_upd (upd_sym s (s_dir_dep_update (ev_expr_update (\<lambda>e. expr_alloc_or e (m_dep (menus_of b2 m)))))) b2"
  have st: "still b2 ?b" by simp
  have "step_ok U b ?b par m [] ts as us"
    using b2 b1(5) fin_ok_still [OF st] menu_ok_tree [OF still_tree [OF st]] by (simp add: step_ok_def)
  moreover have "only (insert m (set (ids ts)) - set (ids us)) (menus_of b) (menus_of ?b)"
  proof -
    have "insert m (set (ids as)) \<subseteq> insert m (set (ids ts)) - set (ids us)"
      using arg_cong [OF b1(5), of set] d by auto
    moreover have "only (insert m (set (ids as))) (menus_of b) (menus_of ?b)"
      by (rule only_trans [OF _ only_tree [OF still_tree [OF st], of "{}"]]) (use b2 in auto)
    ultimately show ?thesis using only_mono by blast
  qed
  moreover have "fin_leaf n fin m s b = Some ?b"
    using bd b1(1) by (simp add: fin_leaf_def b2_def Let_def)
  ultimately show ?thesis by blast
qed

section \<open>The whole function\<close>

lemma calm_then: "calm b m \<Longrightarrow> fin_ok U b \<Longrightarrow> \<exists>b'. m = Some b' \<and> still b b' \<and> fin_ok U b'"
  by (auto simp: calm_def returns_def fin_ok_still)

lemma menu_ok_still: "still b b' \<Longrightarrow> menu_ok b' par m cs ts = menu_ok b par m cs ts"
  by (rule menu_ok_tree [OF still_tree])

lemma fin_spec_each:
  assumes "fin_spec U N fin" "fin_ok U b" "menu_ok b par m cs ts" "m \<in> U"
    "set (ids cs @ ids ts) \<subseteq> U" "Suc (length (ids cs @ ids ts)) \<le> N"
  shows "\<exists>b' cs' us. fin m b = Some b' \<and> step_ok U b b' par m cs ts cs' us \<and>
    only (insert m (set (ids cs @ ids ts))) (menus_of b) (menus_of b')"
  using assms only_mono unfolding fin_spec_def by (meson Diff_subset)

text \<open>The branch for a menu with entries.\<close>

lemma fin_list_spec:
  assumes fin: "fin_spec U n fin" and ok: "fin_ok U b" and mo: "menu_ok b par m cs ts"
    and U: "m \<in> U" "set (ids cs @ ids ts) \<subseteq> U" "length (ids cs) \<le> n"
  shows "\<exists>b' cs'. fin_list n fin m b = Some b' \<and> step_ok U b b' par m cs ts cs' ts \<and>
    only (set (ids cs)) (menus_of b) (menus_of b')"
proof -
  have roots: "path (\<lambda>x. m_next (menus_of b' x)) (m_list (menus_of b' m)) (map root cs) None"
    if "still b b'" for b'
  proof -
    have "menu_ok b' par m cs ts" using mo menu_ok_still [OF that] by blast
    then show ?thesis unfolding menu_ok_def using fseg_path by blast
  qed
  have len: "length (map root cs) \<le> n" using length_ids [of cs] U(3) by simp
  let ?c = "case m_sym (menus_of b m) of
      Some s \<Rightarrow> if sym_is_choice (k_sym (b_conf b) s) then choice_types n m s b else Some b | None \<Rightarrow> Some b"
  have "calm b ?c"
    using calm_choice_types [OF _ roots [OF still_refl] len] by (auto split: option.split)
  then obtain b1 where b1: "?c = Some b1" "still b b1" "fin_ok U b1" using calm_then ok by blast
  have "calm b1 (each_menu n (fin_child (parent_dep m (b_conf b1))) (m_list (menus_of b1 m)) b1)"
  proof (rule calm_each_menu [OF roots [OF b1(2)] len])
    fix x b' assume "x \<in> set (map root cs)" "still b1 b'"
    then have "fin_ok U b'" "x \<in> U" using b1(3) fin_ok_still U(2) roots_ids [of cs] by (blast, auto)
    then show "calm b' (fin_child (parent_dep m (b_conf b1)) x b')"
      by (rule calm_fin_child)
  qed
  then obtain b2 where b2: "each_menu n (fin_child (parent_dep m (b_conf b1))) (m_list (menus_of b1 m)) b1 = Some b2"
    "still b1 b2" "fin_ok U b2" using calm_then b1(3) by blast
  have st: "still b b2" using still_trans b1(2) b2(2) by blast
  then have mo2: "menu_ok b2 par m cs ts" using mo menu_ok_still by blast
  have "\<exists>b' cs'. each_menu n fin (m_list (menus_of b2 m)) b2 = Some b' \<and> fin_ok U b' \<and>
      fseg (menus_of b') m (m_list (menus_of b2 m)) cs' None \<and> ids cs' = ids cs \<and>
      only (set (ids cs)) (menus_of b2) (menus_of b')"
    by (rule each_menu_spec [of U m n fin])
      (use fin_spec_each [OF fin] U mo2 b2(3) in \<open>auto simp: menu_ok_def\<close>)
  then obtain b' cs' where b': "each_menu n fin (m_list (menus_of b2 m)) b2 = Some b'" "fin_ok U b'"
      "fseg (menus_of b') m (m_list (menus_of b2 m)) cs' None" "ids cs' = ids cs"
      "only (set (ids cs)) (menus_of b2) (menus_of b')" by blast
  have d: "m \<notin> set (ids cs)" "set (ids ts) \<inter> set (ids cs) = {}" using mo by (auto simp: menu_ok_def)
  have "menu_ok b' par m cs' ts"
    using mo2 b'(3,4) onlyD [OF b'(5) d(1)] fseg_only [OF b'(5) d(2)] by (simp add: menu_ok_def)
  moreover have "m_parent (menus_of b' m) = m_parent (menus_of b m)"
    using onlyD(3) [OF b'(5) d(1)] still_sym [OF st] by simp
  moreover have "only (set (ids cs)) (menus_of b) (menus_of b')"
    by (rule only_trans [OF only_tree [OF still_tree [OF st], of "{}"] b'(5)]) simp
  moreover have "fin_list n fin m b = Some b'"
    using b1(1) b2(1) b'(1) unfolding fin_list_def by simp
  ultimately show ?thesis using b'(2,4) by (auto simp: step_ok_def)
qed

lemma menu_finalize_spec: "fin_spec U n (menu_finalize n)"
proof (induction n)
  case 0
  then show ?case by (simp add: fin_spec_def)
next
  case (Suc n)
  show ?case
    unfolding fin_spec_def
  proof (intro allI impI)
    fix b par m cs ts
    assume ok: "fin_ok U b" and mo: "menu_ok b par m cs ts" and m: "m \<in> U"
      and U: "set (ids cs @ ids ts) \<subseteq> U" and len: "Suc (length (ids cs @ ids ts)) \<le> Suc n"
    let ?c = "case m_list (menus_of b m) of
        Some _ \<Rightarrow> fin_list n (menu_finalize n) m b
      | None \<Rightarrow> (case m_sym (menus_of b m) of
          Some s \<Rightarrow> fin_leaf n (menu_finalize n) m s b | None \<Rightarrow> Some b)"
    have "\<exists>b' cs' us. ?c = Some b' \<and> step_ok U b b' par m cs ts cs' us \<and>
        only (insert m (set (ids cs @ ids ts)) - set (ids us)) (menus_of b) (menus_of b')"
    proof (cases "m_list (menus_of b m)")
      case None
      then have cs: "cs = []" using mo fseg_None by (auto simp: menu_ok_def)
      show ?thesis
      proof (cases "m_sym (menus_of b m)")
        case None
        with \<open>m_list (menus_of b m) = None\<close> show ?thesis
          using ok mo by (intro exI [of _ b] exI [of _ cs] exI [of _ ts]) (simp add: step_ok_def)
      next
        case (Some s)
        with \<open>m_list (menus_of b m) = None\<close> show ?thesis
          using fin_leaf_spec [OF Suc.IH ok mo [unfolded cs], of s] U len by (simp add: cs)
      qed
    next
      case (Some c)
      have "set (ids cs) \<subseteq> insert m (set (ids cs @ ids ts)) - set (ids ts)"
        using mo by (auto simp: menu_ok_def)
      moreover have "length (ids cs) \<le> n" using len by simp
      from fin_list_spec [OF Suc.IH ok mo m U this] obtain b' cs' where
        "fin_list n (menu_finalize n) m b = Some b'" "step_ok U b b' par m cs ts cs' ts"
        "only (set (ids cs)) (menus_of b) (menus_of b')" by blast
      ultimately show ?thesis using Some only_mono
        by (intro exI [of _ b'] exI [of _ cs'] exI [of _ ts]) simp
    qed
    then obtain b1 cs1 us where b1: "?c = Some b1" "step_ok U b b1 par m cs ts cs1 us"
      "only (insert m (set (ids cs @ ids ts)) - set (ids us)) (menus_of b) (menus_of b1)" by blast
    have s: "fin_ok U b1" "fseg (menus_of b1) m (m_list (menus_of b1 m)) cs1 None"
      "fseg (menus_of b1) par (m_next (menus_of b1 m)) us None" "distinct (m # ids cs1 @ ids us)"
      "m_parent (menus_of b1 m) = m_parent (menus_of b m)" "ids cs1 @ ids us = ids cs @ ids ts"
      using b1(2) unfolding step_ok_def menu_ok_def by blast+
    note si = step_set [OF b1(2)] step_length [OF b1(2)]
    have dc: "distinct (ids cs1)" "set (ids cs1) \<subseteq> U" "length (ids cs1) \<le> n" "length (ids cs1) \<le> n"
      using s(4) si U len by auto
    have "\<exists>b' cs'. each_menu n (fin_value n m) (m_list (menus_of b1 m)) b1 = Some b' \<and> fin_ok U b' \<and>
        fseg (menus_of b') m (m_list (menus_of b1 m)) cs' None \<and> ids cs' = ids cs1 \<and>
        only (set (ids cs1)) (menus_of b1) (menus_of b')"
    proof (rule each_menu_spec [OF _ s(1,2) dc])
      fix x ds ts b
      assume 1: "fin_ok U b" "menu_ok b m x ds ts" "x \<in> U" "Suc (length (ids ds @ ids ts)) \<le> n"
      have "length ds \<le> n" using 1(4) length_ids [of ds] by simp
      from fin_value_spec [OF 1(1,2) this 1(3)] obtain b' ds' vs where
        v: "fin_value n m x b = Some b'" "step_ok U b b' m x ds ts ds' vs"
        "only (insert x (set (ids ds))) (menus_of b) (menus_of b')" by blast
      show "\<exists>b' cs' us. fin_value n m x b = Some b' \<and> step_ok U b b' m x ds ts cs' us \<and>
        only (insert x (set (ids ds @ ids ts))) (menus_of b) (menus_of b')"
        using v(1,2) only_mono [OF v(3)] by (intro exI [of _ b'] exI [of _ ds'] exI [of _ vs]) auto
    qed
    then obtain b2 cs2 where b2: "each_menu n (fin_value n m) (m_list (menus_of b1 m)) b1 = Some b2" "fin_ok U b2"
        "fseg (menus_of b2) m (m_list (menus_of b1 m)) cs2 None" "ids cs2 = ids cs1"
        "only (set (ids cs1)) (menus_of b1) (menus_of b2)" by blast
    obtain b3 where b3: "fin_sym m b2 = Some b3" "still b2 b3" "fin_ok U b3"
      using calm_then [OF calm_fin_sym [OF b2(2) m] b2(2)] by blast
    have d: "m \<notin> set (ids cs1)" "set (ids us) \<inter> set (ids cs1) = {}" using s(4) by auto
    have "menu_ok b2 par m cs2 us"
      using s b2(3,4) onlyD [OF b2(5) d(1)] fseg_only [OF b2(5) d(2)] by (simp add: menu_ok_def)
    then have "step_ok U b b3 par m cs ts cs2 us"
      using b3(3) s(5,6) b2(4) onlyD(3) [OF b2(5) d(1)] menu_ok_still [OF b3(2)] still_sym [OF b3(2)]
      by (simp add: step_ok_def)
    moreover have "only (insert m (set (ids cs @ ids ts)) - set (ids us)) (menus_of b) (menus_of b3)"
    proof -
      have "set (ids cs1) \<subseteq> insert m (set (ids cs @ ids ts)) - set (ids us)" using si d by auto
      then have "only (insert m (set (ids cs @ ids ts)) - set (ids us)) (menus_of b) (menus_of b2)"
        by (intro only_trans [OF b1(3) b2(5)]) simp
      then show ?thesis by (rule only_trans [OF _ only_tree [OF still_tree [OF b3(2)], of "{}"]]) simp
    qed
    moreover have "menu_finalize (Suc n) m b = Some b3"
      using b1(1) b2(1) b3(1) by simp
    ultimately show "\<exists>b' cs' us. menu_finalize (Suc n) m b = Some b' \<and> step_ok U b b' par m cs ts cs' us \<and>
       only (insert m (set (ids cs @ ids ts)) - set (ids us)) (menus_of b) (menus_of b')" by blast
  qed
qed

section \<open>The order of the menus\<close>

lemma static_no_props [simp]: "s_prop (static_symbols s) = []" "SYMBOL_CHOICE \<notin> s_flags (static_symbols s)"
  by (cases s; simp add: static_symbol_def fresh_symbol_def sym_is_choice_def has_flag_def)+

lemma sample_finalizable: "\<exists>b. acts (\<lambda>_. None) sample_actions (menu_init sample_parser) = Some b \<and>
    menu_ok b 0 0 [Node 1 [Node 2 []]] [] \<and> fin_ok {0, 1, 2} b"
  by (simp add: sample_actions_def sample_parser_def empty_tab_def empty_conf_def menu_init_def
      menu_add_entry_def menu_add_visibility_def menu_add_menu_def menu_add_symbol_def menu_add_prop_def
      prop_alloc_def null_menu_def set_prop_dep_def b_conf_def b_upd_def Let_def upd_defs menu_ok_def fin_ok_def
      sym_is_choice_def prop_ok_def fresh_symbol_def null_property_def has_flag_def)

text \<open>C7   \<^verbatim>\<open>menu_finalize\<close> on a menu with a forest \<open>cs\<close> below it and the siblings \<open>ts\<close>
  after it ends, with one unit of fuel per menu, and moves menus only between the levels: the links
  are again those of a forest \<open>cs'\<close> below the menu and of siblings \<open>us\<close> after it, and a walk
  through them visits exactly the menus of before in the same order. No menu is lost or visited
  twice, and no menu of the rest of the tree gets another link.\<close>

theorem menu_finalize_keeps_order:
  assumes seg: "fseg (menus_of b) m (m_list (menus_of b m)) cs None"
      "fseg (menus_of b) par (m_next (menus_of b m)) ts None" "distinct (m # ids cs @ ids ts)"
    and ok: "fin_ok (insert m (set (ids cs @ ids ts))) b"
  shows "\<exists>b' cs' us. menu_finalize (Suc (length (ids cs @ ids ts))) m b = Some b' \<and>
    fseg (menus_of b') m (m_list (menus_of b' m)) cs' None \<and>
    fseg (menus_of b') par (m_next (menus_of b' m)) us None \<and>
    ids cs' @ ids us = ids cs @ ids ts \<and>
    only (insert m (set (ids cs @ ids ts))) (menus_of b) (menus_of b')"
proof -
  have "menu_ok b par m cs ts" using seg by (simp add: menu_ok_def)
  from fin_spec_each [OF menu_finalize_spec ok this] show ?thesis
    unfolding step_ok_def menu_ok_def by blast
qed

theorem menu_finalize_keeps_order_witness:
  "\<exists>b b' cs' us. acts (\<lambda>_. None) sample_actions (menu_init sample_parser) = Some b \<and>
     menu_finalize 3 0 b = Some b' \<and> fseg (menus_of b') 0 (m_list (menus_of b' 0)) cs' None \<and>
     fseg (menus_of b') 0 (m_next (menus_of b' 0)) us None \<and> ids cs' @ ids us = [1, 2]"
proof -
  obtain b where b: "acts (\<lambda>_. None) sample_actions (menu_init sample_parser) = Some b"
    "menu_ok b 0 0 [Node 1 [Node 2 []]] []" "fin_ok {0, 1, 2} b" using sample_finalizable by blast
  have "\<exists>b' cs' us. menu_finalize (Suc (length (ids [Node 1 [Node 2 []]] @ ids []))) 0 b = Some b' \<and>
    fseg (menus_of b') 0 (m_list (menus_of b' 0)) cs' None \<and>
    fseg (menus_of b') 0 (m_next (menus_of b' 0)) us None \<and>
    ids cs' @ ids us = ids [Node 1 [Node 2 []]] @ ids [] \<and>
    only (insert 0 (set (ids [Node 1 [Node 2 []]] @ ids []))) (menus_of b) (menus_of b')"
    by (rule menu_finalize_keeps_order) (use b(2,3) in \<open>simp_all add: menu_ok_def\<close>)
  then show ?thesis using b(1) by (auto simp: numeral_3_eq_3)
qed

end
