(* ===== verification/Menuview.thy ===== *)
theory Menuview
  imports Gstr Menuforest Symspec
begin

text \<open>
  What the front ends ask of the tree of menus (the rest of \<^verbatim>\<open>menu.c\<close>): the visibility of an
  entry, its prompt and its parent menu, and the texts for help and search. The root menu is the
  menu 0. Calculating a value changes the state, and so does asking for the visibility of an entry
  with visible entries below it. Messages are those of a build without translations
  (\<^verbatim>\<open>KBUILD_NO_NLS\<close>). \<open>None\<close> is a read through NULL or out of fuel.
\<close>

definition rootmenu :: mid where "rootmenu = 0"

definition menu_has_prompt :: "kconf \<Rightarrow> mid \<Rightarrow> bool" where
  "menu_has_prompt k m \<longleftrightarrow> m_prompt (k_menu k m) \<noteq> None"

section \<open>Visibility\<close>

text \<open>The visibility of the prompt, with the calculation it needs.\<close>

definition prompt_visible :: "calc \<Rightarrow> mid \<Rightarrow> pid \<Rightarrow> kconf \<Rightarrow> (tristate \<times> kconf) option" where
  "prompt_visible cv m p k = (case m_sym (k_menu k m) of
     Some s \<Rightarrow> do { k \<leftarrow> cv s k; Some (ev_tri (p_visible (k_prop k p)), k) }
   | None \<Rightarrow> calc_prop_visible cv p k)"

definition visibility_allows :: "calc \<Rightarrow> mid \<Rightarrow> kconf \<Rightarrow> (bool \<times> kconf) option" where
  "visibility_allows cv m k = (case m_visibility (k_menu k m) of None \<Rightarrow> Some (True, k)
     | Some e \<Rightarrow> do { (t, k) \<leftarrow> expr_calc_value cv (Some e) k; Some (t \<noteq> tri_no, k) })"

text \<open>The loop over the children stops at the first visible one.\<close>

fun menu_is_visible :: "calc \<Rightarrow> nat \<Rightarrow> mid \<Rightarrow> kconf \<Rightarrow> (bool \<times> kconf) option"
  and some_visible :: "calc \<Rightarrow> nat \<Rightarrow> mid option \<Rightarrow> kconf \<Rightarrow> (bool \<times> kconf) option" where
  "menu_is_visible cv 0 m k = None"
| "menu_is_visible cv (Suc n) m k = (case m_prompt (k_menu k m) of
     None \<Rightarrow> Some (False, k)
   | Some p \<Rightarrow> do {
       (a, k) \<leftarrow> visibility_allows cv m k;
       if \<not> a then Some (False, k)
       else do {
         (visible, k) \<leftarrow> prompt_visible cv m p k;
         if visible \<noteq> tri_no then Some (True, k)
         else (case m_sym (k_menu k m) of
             None \<Rightarrow> Some (False, k)
           | Some s \<Rightarrow> if sym_get_tristate_value (k_sym k s) = tri_no then Some (False, k)
               else do {
                 (v, k) \<leftarrow> some_visible cv n (m_list (k_menu k m)) k;
                 if v then Some (True, flag_on SYMBOL_DEF_USER s k) else Some (False, k) }) } })"
| "some_visible cv 0 c k = None"
| "some_visible cv (Suc n) c k = (case c of
     None \<Rightarrow> Some (False, k)
   | Some m \<Rightarrow> do {
       (v, k) \<leftarrow> menu_is_visible cv n m k;
       if v then Some (True, k) else some_visible cv n (m_next (k_menu k m)) k })"

definition menu_is_empty :: "calc \<Rightarrow> nat \<Rightarrow> mid \<Rightarrow> kconf \<Rightarrow> (bool \<times> kconf) option" where
  "menu_is_empty cv n m k = do { (v, k) \<leftarrow> some_visible cv n (m_list (k_menu k m)) k; Some (\<not> v, k) }"

section \<open>Prompts, menus and help\<close>

definition menu_get_prompt :: "kconf \<Rightarrow> mid \<Rightarrow> string option" where
  "menu_get_prompt k m = (case m_prompt (k_menu k m) of
     Some p \<Rightarrow> p_text (k_prop k p)
   | None \<Rightarrow> (case m_sym (k_menu k m) of Some s \<Rightarrow> s_name (k_sym k s) | None \<Rightarrow> None))"

text \<open>The walk ends at the root menu, a menu entry, or at NULL, which is \<open>None\<close>.\<close>

fun menu_get_parent_menu :: "nat \<Rightarrow> kconf \<Rightarrow> mid option \<Rightarrow> mid option" where
  "menu_get_parent_menu 0 k mo = None"
| "menu_get_parent_menu (Suc n) k mo = do {
     m \<leftarrow> mo;
     if m = rootmenu \<or> (case m_prompt (k_menu k m) of Some p \<Rightarrow> p_type (k_prop k p) = P_MENU | None \<Rightarrow> False)
     then Some m else menu_get_parent_menu n k (m_parent (k_menu k m)) }"

definition menu_has_help :: "kconf \<Rightarrow> mid \<Rightarrow> bool" where
  "menu_has_help k m \<longleftrightarrow> m_help (k_menu k m) \<noteq> None"

definition menu_get_help :: "kconf \<Rightarrow> mid \<Rightarrow> string" where
  "menu_get_help k m = (case m_help (k_menu k m) of Some h \<Rightarrow> h | None \<Rightarrow> [])"

section \<open>Texts\<close>

text \<open>An entry of the list of places to jump to; the offset is set when the place is printed.\<close>

record jump_key =
  j_offset :: "nat option"
  j_target :: mid
  j_index :: nat

type_synonym view = "gstr \<times> kconf"

text \<open>The first loop of \<^verbatim>\<open>get_prompt_str\<close>: at most eight menus around the prompt, from the
  inside, and the first one that is visible.\<close>

fun submenus :: "calc \<Rightarrow> nat \<Rightarrow> nat \<Rightarrow> mid option \<Rightarrow> mid option \<Rightarrow> kconf \<Rightarrow> (mid list \<times> mid option \<times> kconf) option" where
  "submenus cv n 0 mo location k = Some ([], location, k)"
| "submenus cv n (Suc i) mo location k =
     (if mo = Some rootmenu then Some ([], location, k)
      else do {
        m \<leftarrow> mo;
        (accessible, k) \<leftarrow> menu_is_visible cv n m k;
        (ms, location, k) \<leftarrow> submenus cv n i (m_parent (k_menu k m))
          (if location = None \<and> accessible then Some m else location) k;
        Some (m # ms, location, k) })"

definition new_jump :: "calc \<Rightarrow> nat \<Rightarrow> mid \<Rightarrow> mid \<Rightarrow> jump_key list \<Rightarrow> kconf \<Rightarrow> (jump_key \<times> kconf) option" where
  "new_jump cv n m location head k = do {
     (v, k) \<leftarrow> menu_is_visible cv n m k;
     Some (\<lparr>j_offset = None, j_target = if v then m else location,
            j_index = if head = [] then 0 else j_index (last head) + 1\<rparr>, k) }"

text \<open>One line of the location, indented by \<open>j\<close>.\<close>

definition location_line :: "calc \<Rightarrow> nat \<Rightarrow> mid \<Rightarrow> view \<Rightarrow> view option" where
  "location_line cv j m v = (case v of (r, k) \<Rightarrow> do {
     t \<leftarrow> menu_get_prompt k m;
     r \<leftarrow> str_printf (replicate j (CHR '' '') @ ''-> '' @ t) r;
     (r, k) \<leftarrow> (case m_sym (k_menu k m) of
         None \<Rightarrow> Some (r, k)
       | Some s \<Rightarrow> do {
           (x, k) \<leftarrow> sym_get_string_value cv s k;
           let n = (case s_name (k_sym k s) of Some n \<Rightarrow> n | None \<Rightarrow> ''<choice>'');
           r \<leftarrow> str_printf ('' ('' @ n @ '' [='' @ x @ ''])'') r;
           Some (r, k) });
     r \<leftarrow> str_append (Some [CHR 0x0A]) r;
     Some (r, k) })"

fun location_lines :: "calc \<Rightarrow> nat \<Rightarrow> mid option \<Rightarrow> mid list \<Rightarrow> nat option \<Rightarrow> view \<Rightarrow> (nat option \<times> view) option" where
  "location_lines cv j location [] off v = Some (off, v)"
| "location_lines cv j location (m # ms) off v = do {
     let off = (if location = Some m then Some (length (g_s (fst v))) else off);
     v \<leftarrow> location_line cv j m v;
     location_lines cv (j + 2) location ms off v }"

text \<open>The list \<open>head\<close> is None where the code passes NULL.\<close>

definition get_prompt_str :: "calc \<Rightarrow> nat \<Rightarrow> pid \<Rightarrow> jump_key list option \<Rightarrow> view \<Rightarrow> (jump_key list option \<times> view) option" where
  "get_prompt_str cv n p head v = (case v of (r, k) \<Rightarrow> do {
     t \<leftarrow> p_text (k_prop k p);
     r \<leftarrow> str_printf (''Prompt: '' @ t @ [CHR 0x0A]) r;
     m \<leftarrow> p_menu (k_prop k p);
     (ms, location, k) \<leftarrow> submenus cv n 8 (m_parent (k_menu k m)) None k;
     (jump, k) \<leftarrow> (case (head, location) of
         (Some h, Some l) \<Rightarrow> do { (j, k) \<leftarrow> new_jump cv n m l h k; Some (Some j, k) }
       | _ \<Rightarrow> Some (None, k));
     (off, r, k) \<leftarrow> (if ms = [] then Some (None, r, k) else do {
         r \<leftarrow> str_printf (''  Location:'' @ [CHR 0x0A]) r;
         location_lines cv 4 location (rev ms) None (r, k) });
     Some (case (head, jump) of (Some h, Some j) \<Rightarrow> Some (h @ [j\<lparr>j_offset := off\<rparr>]) | _ \<Rightarrow> head, r, k) })"

definition get_symbol_prop :: "kconf \<Rightarrow> sym \<Rightarrow> pid option" where
  "get_symbol_prop k s = first_of (for_all_properties k s P_SYMBOL)"

fun prompt_strs :: "calc \<Rightarrow> nat \<Rightarrow> pid list \<Rightarrow> jump_key list option \<Rightarrow> view \<Rightarrow> (jump_key list option \<times> view) option" where
  "prompt_strs cv n [] head v = Some (head, v)"
| "prompt_strs cv n (p # ps) head v = do { (head, v) \<leftarrow> get_prompt_str cv n p head v; prompt_strs cv n ps head v }"

fun select_strs :: "calc \<Rightarrow> bool \<Rightarrow> pid list \<Rightarrow> view \<Rightarrow> view option" where
  "select_strs cv hit [] v = (if hit then do { r \<leftarrow> str_append (Some [CHR 0x0A]) (fst v); Some (r, snd v) } else Some v)"
| "select_strs cv hit (p # ps) v = (case v of (r, k) \<Rightarrow> do {
     r \<leftarrow> (if hit then str_printf '' && '' r else str_append (Some ''  Selects: '') r);
     v \<leftarrow> expr_gstr_print cv (p_expr (k_prop k p)) (r, k);
     select_strs cv True ps v })"

text \<open>A label, an expression and a line end.\<close>

definition expr_line :: "calc \<Rightarrow> string \<Rightarrow> expr option \<Rightarrow> view \<Rightarrow> view option" where
  "expr_line cv label e v = (case v of (r, k) \<Rightarrow> do {
     r \<leftarrow> str_append (Some label) r;
     (r, k) \<leftarrow> expr_gstr_print cv e (r, k);
     r \<leftarrow> str_append (Some [CHR 0x0A]) r;
     Some (r, k) })"

definition symbol_head :: "calc \<Rightarrow> sym \<Rightarrow> view \<Rightarrow> view option" where
  "symbol_head cv s v = (case v of (r, k) \<Rightarrow> (case s_name (k_sym k s) of
     None \<Rightarrow> Some (r, k)
   | Some n \<Rightarrow> do {
       (x, k) \<leftarrow> sym_get_string_value cv s k;
       r \<leftarrow> str_printf (''Symbol: '' @ n @ '' [='' @ x @ '']'' @ [CHR 0x0A]) r;
       r \<leftarrow> str_printf (''Type  : '' @ sym_type_name (s_type (k_sym k s)) @ [CHR 0x0A]) r;
       if s_type (k_sym k s) = S_INT \<or> s_type (k_sym k s) = S_HEX then do {
         (po, k) \<leftarrow> sym_get_range_prop cv s k;
         case po of None \<Rightarrow> Some (r, k)
         | Some p \<Rightarrow> expr_line cv ''Range : '' (p_expr (k_prop k p)) (r, k) }
       else Some (r, k) }))"

definition defined_at :: "calc \<Rightarrow> sym \<Rightarrow> view \<Rightarrow> view option" where
  "defined_at cv s v = (case v of (r, k) \<Rightarrow> (case get_symbol_prop k s of
     None \<Rightarrow> Some (r, k)
   | Some p \<Rightarrow> do {
       m \<leftarrow> p_menu (k_prop k p);
       f \<leftarrow> m_file (k_menu k m);
       r \<leftarrow> str_printf (''  Defined at '' @ f @ '':'' @ print_lld (m_lineno (k_menu k m)) @ [CHR 0x0A]) r;
       if expr_is_yes (ev_expr (p_visible (k_prop k p))) then Some (r, k)
       else expr_line cv ''  Depends on: '' (ev_expr (p_visible (k_prop k p))) (r, k) }))"

definition get_symbol_str :: "calc \<Rightarrow> nat \<Rightarrow> sym \<Rightarrow> jump_key list option \<Rightarrow> view \<Rightarrow> (jump_key list option \<times> view) option" where
  "get_symbol_str cv n s head v = do {
     v \<leftarrow> symbol_head cv s v;
     (head, v) \<leftarrow> prompt_strs cv n (for_all_prompts (snd v) s) head v;
     v \<leftarrow> defined_at cv s v;
     (r, k) \<leftarrow> select_strs cv False (for_all_properties (snd v) s P_SELECT) v;
     (r, k) \<leftarrow> (case ev_expr (s_rev_dep (k_sym k s)) of None \<Rightarrow> Some (r, k)
        | Some e \<Rightarrow> expr_line cv ''  Selected by: '' (Some e) (r, k));
     r \<leftarrow> str_append (Some [CHR 0x0A, CHR 0x0A]) r;
     Some (head, r, k) }"

fun symbol_strs :: "calc \<Rightarrow> nat \<Rightarrow> sym list \<Rightarrow> jump_key list option \<Rightarrow> view \<Rightarrow> (jump_key list option \<times> view) option" where
  "symbol_strs cv n [] head v = Some (head, v)"
| "symbol_strs cv n (s # ss) head v = do { (head, v) \<leftarrow> get_symbol_str cv n s head v; symbol_strs cv n ss head v }"

definition get_relations_str :: "calc \<Rightarrow> nat \<Rightarrow> sym list \<Rightarrow> jump_key list option \<Rightarrow> kconf \<Rightarrow> (jump_key list option \<times> view) option" where
  "get_relations_str cv n sym_arr head k = do {
     (head, res, k) \<leftarrow> symbol_strs cv n sym_arr head (str_new, k);
     res \<leftarrow> (if sym_arr = [] then str_append (Some (''No matches found.'' @ [CHR 0x0A])) res else Some res);
     Some (head, res, k) }"

definition menu_get_ext_help :: "string \<Rightarrow> calc \<Rightarrow> nat \<Rightarrow> mid \<Rightarrow> view \<Rightarrow> view option" where
  "menu_get_ext_help pre cv n m v = (case v of (help, k) \<Rightarrow> do {
     help \<leftarrow> (if menu_has_help k m then do {
         s \<leftarrow> m_sym (k_menu k m);
         case s_name (k_sym k s) of Some x \<Rightarrow> str_printf (pre @ x @ '':'' @ [CHR 0x0A, CHR 0x0A]) help | None \<Rightarrow> Some help }
       else Some help);
     help \<leftarrow> str_printf ((if menu_has_help k m then menu_get_help k m
        else ''There is no help available for this option.'') @ [CHR 0x0A]) help;
     case m_sym (k_menu k m) of None \<Rightarrow> Some (help, k)
     | Some s \<Rightarrow> do { (_, v) \<leftarrow> get_symbol_str cv n s None (help, k); Some v } })"

section \<open>Which entries are visible\<close>

text \<open>A state in which every symbol has been calculated and has a string that can be read.\<close>

definition evaluated :: "kconf \<Rightarrow> bool" where
  "evaluated k \<longleftrightarrow> (\<forall>s. has_flag k s SYMBOL_VALID) \<and> k_modules_sym k \<noteq> None \<and>
     (\<forall>s. s_type (k_sym k s) \<noteq> S_BOOLEAN \<and> s_type (k_sym k s) \<noteq> S_TRISTATE \<longrightarrow> (\<exists>x. sv_val (s_curr (k_sym k s)) = VStr x))"

text \<open>The visibility of a menu with the menus \<open>cs\<close> below it, without an order of evaluation.\<close>

definition prompt_tri :: "kconf \<Rightarrow> mid \<Rightarrow> pid \<Rightarrow> tristate" where
  "prompt_tri k m p = (if m_sym (k_menu k m) = None then cond_val k p else ev_tri (p_visible (k_prop k p)))"

fun shown :: "kconf \<Rightarrow> mtree \<Rightarrow> bool" where
  "shown k (Node m cs) \<longleftrightarrow> (\<exists>p. m_prompt (k_menu k m) = Some p \<and>
     expr_val_opt (val_of k) (m_visibility (k_menu k m)) \<noteq> tri_no \<and>
     (prompt_tri k m p \<noteq> tri_no \<or>
      (\<exists>s. m_sym (k_menu k m) = Some s \<and> sv_tri (s_curr (k_sym k s)) \<noteq> tri_no \<and> (\<exists>c \<in> set cs. shown k c))))"

text \<open>What asking for the visibility leaves alone: everything but some flags \<open>F\<close> of symbols (the
  user's mark), and the visibility that is stored in the prompts of entries without a symbol.\<close>

definition free_prompts :: "kconf \<Rightarrow> pid set" where
  "free_prompts k = {p. \<exists>m. m_sym (k_menu k m) = None \<and> m_prompt (k_menu k m) = Some p}"

definition same_look :: "symbol_flag set \<Rightarrow> kconf \<Rightarrow> kconf \<Rightarrow> bool" where
  "same_look F k k' \<longleftrightarrow> k_menu k' = k_menu k \<and> k_modules_sym k' = k_modules_sym k \<and>
     (\<forall>s. k_sym k' s = (k_sym k s)\<lparr>s_flags := s_flags (k_sym k' s)\<rparr> \<and>
        s_flags (k_sym k' s) - F = s_flags (k_sym k s) - F) \<and>
     (\<forall>p. ev_expr (p_visible (k_prop k' p)) = ev_expr (p_visible (k_prop k p)) \<and>
        p_text (k_prop k' p) = p_text (k_prop k p) \<and>
        (p \<notin> free_prompts k \<longrightarrow> k_prop k' p = k_prop k p))"

definition own_prompts :: "kconf \<Rightarrow> bool" where
  "own_prompts k \<longleftrightarrow> (\<forall>m p. m_prompt (k_menu k m) = Some p \<longrightarrow> m_sym (k_menu k m) \<noteq> None \<longrightarrow> p \<notin> free_prompts k)"

lemma same_look_refl [simp]: "same_look F k k"
  by (auto simp: same_look_def)

lemma same_look_sym:
  assumes "same_look F k k'"
  shows "s_curr (k_sym k' s) = s_curr (k_sym k s)" "s_type (k_sym k' s) = s_type (k_sym k s)"
    "k_menu k' = k_menu k" "k_modules_sym k' = k_modules_sym k"
    "ev_expr (p_visible (k_prop k' p)) = ev_expr (p_visible (k_prop k p))"
    "free_prompts k' = free_prompts k" "own_prompts k' = own_prompts k"
proof -
  from assms have s: "k_sym k' s = (k_sym k s)\<lparr>s_flags := s_flags (k_sym k' s)\<rparr>" for s
    unfolding same_look_def by blast
  show "s_curr (k_sym k' s) = s_curr (k_sym k s)" "s_type (k_sym k' s) = s_type (k_sym k s)"
    by (subst s, simp)+
  from assms show m: "k_menu k' = k_menu k" "k_modules_sym k' = k_modules_sym k"
    "ev_expr (p_visible (k_prop k' p)) = ev_expr (p_visible (k_prop k p))"
    by (simp_all add: same_look_def)
  then show "free_prompts k' = free_prompts k" "own_prompts k' = own_prompts k"
    by (simp_all add: free_prompts_def own_prompts_def)
qed

lemma same_look_trans:
  assumes "same_look F a b" "same_look F b c"
  shows "same_look F a c"
proof -
  have "k_sym c s = (k_sym a s)\<lparr>s_flags := s_flags (k_sym c s)\<rparr>" for s
  proof -
    have "k_sym c s = (k_sym b s)\<lparr>s_flags := s_flags (k_sym c s)\<rparr>" using assms(2) unfolding same_look_def by blast
    also have "k_sym b s = (k_sym a s)\<lparr>s_flags := s_flags (k_sym b s)\<rparr>" using assms(1) unfolding same_look_def by blast
    finally show ?thesis by simp
  qed
  moreover have "s_flags (k_sym c s) - F = s_flags (k_sym a s) - F" for s
    using assms unfolding same_look_def by blast
  ultimately show ?thesis
    using assms same_look_sym(6) [OF assms(1)] unfolding same_look_def by simp
qed

lemma same_look_vals:
  assumes "same_look F k k'"
  shows "val_of k' = val_of k" "cond_val k' p = cond_val k p" "SYMBOL_VALID \<notin> F \<Longrightarrow> evaluated k \<Longrightarrow> evaluated k'"
    "own_prompts k \<Longrightarrow> m_prompt (k_menu k m) = Some p \<Longrightarrow> prompt_tri k' m p = prompt_tri k m p"
proof -
  note q = same_look_sym [OF assms]
  have "modules_off k' = modules_off k" by (cases "k_modules_sym k") (simp_all add: modules_off_def q)
  then show v: "val_of k' = val_of k"
    by (simp add: fun_eq_iff val_of_def string_value_def raw_string_def q)
  then show c: "cond_val k' p = cond_val k p" for p by (simp add: cond_val_def q)
  show "SYMBOL_VALID \<notin> F \<Longrightarrow> evaluated k \<Longrightarrow> evaluated k'"
    using assms unfolding evaluated_def q has_flag_def same_look_def by blast
  assume "own_prompts k" "m_prompt (k_menu k m) = Some p"
  then show "prompt_tri k' m p = prompt_tri k m p"
    using assms c q by (auto simp: prompt_tri_def own_prompts_def same_look_def)
qed

lemma same_look_shown: "same_look F k k' \<Longrightarrow> own_prompts k \<Longrightarrow> shown k' t = shown k t"
proof (induction t)
  case (Node m cs)
  have "(\<exists>c \<in> set cs. shown k' c) = (\<exists>c \<in> set cs. shown k c)" using Node by blast
  then show ?case
    using same_look_vals(1,4) [OF Node.prems(1)] same_look_sym(1,3) [OF Node.prems(1)] Node.prems(2)
    by (auto simp del: split_paired_Ex)
qed

lemma same_look_user: "same_look {SYMBOL_DEF_USER} k (flag_on SYMBOL_DEF_USER s k)"
  by (auto simp: same_look_def upd_defs)

lemma same_look_prompt: "p \<in> free_prompts k \<Longrightarrow> same_look F k (set_prop_visible p t k)"
  by (auto simp: same_look_def upd_defs)

text \<open>Nothing is calculated in an evaluated state.\<close>

lemma evaluated_string:
  assumes "\<forall>s k. has_flag k s SYMBOL_VALID \<longrightarrow> cv s k = Some k" "evaluated k"
  shows "cv s k = Some k" "sym_get_string_value cv s k = Some (string_value k s, k)"
proof -
  show c: "cv s k = Some k" for s using assms by (simp add: evaluated_def)
  obtain m where m: "k_modules_sym k = Some m" using assms(2) by (auto simp: evaluated_def)
  show "sym_get_string_value cv s k = Some (string_value k s, k)"
  proof (cases "s_type (k_sym k s) = S_BOOLEAN \<or> s_type (k_sym k s) = S_TRISTATE")
    case True
    then show ?thesis
      by (cases "sv_tri (s_curr (k_sym k s))")
        (auto simp: sym_get_string_value_def string_value_def modules_off_def calc_opt_def m c)
  next
    case False
    then obtain x where "sv_val (s_curr (k_sym k s)) = VStr x" using assms(2) by (auto simp: evaluated_def)
    with False show ?thesis by (simp add: sym_get_string_value_def string_value_def raw_string_def)
  qed
qed

lemma evaluated_expr:
  assumes "\<forall>s k. has_flag k s SYMBOL_VALID \<longrightarrow> cv s k = Some k" "evaluated k"
  shows "expr_calc_value cv e k = Some (expr_val_opt (val_of k) e, k)"
proof -
  have "expr_calc_value1 cv e' k = Some (expr_val (val_of k) e', k)" for e'
    by (induction e') (simp_all add: evaluated_string [OF assms] val_of_def calc_strings_def)
  then show ?thesis by (cases e) (simp_all add: expr_calc_value_def)
qed

lemma menu_is_visible_spec:
  assumes cv: "\<forall>s k. has_flag k s SYMBOL_VALID \<longrightarrow> cv s k = Some k"
  shows "evaluated k \<Longrightarrow> own_prompts k \<Longrightarrow> fseg (k_menu k) m (m_list (k_menu k m)) cs None \<Longrightarrow>
      2 * length (ids cs) + 2 \<le> n \<Longrightarrow>
      \<exists>k'. menu_is_visible cv n m k = Some (shown k (Node m cs), k') \<and> same_look {SYMBOL_DEF_USER} k k'"
    and "evaluated k \<Longrightarrow> own_prompts k \<Longrightarrow> fseg (k_menu k) par c ts None \<Longrightarrow> 2 * length (ids ts) + 1 \<le> n \<Longrightarrow>
      \<exists>k'. some_visible cv n c k = Some (\<exists>t \<in> set ts. shown k t, k') \<and> same_look {SYMBOL_DEF_USER} k k'"
proof (induction n arbitrary: m cs k par c ts)
  case (Suc n)
  {
    case 1
    show ?case
    proof (cases "m_prompt (k_menu k m)")
      case None
      then show ?thesis by (intro exI [of _ k]) simp
    next
      case (Some p)
      have a: "visibility_allows cv m k = Some (expr_val_opt (val_of k) (m_visibility (k_menu k m)) \<noteq> tri_no, k)"
        by (cases "m_visibility (k_menu k m)") (simp_all add: visibility_allows_def evaluated_expr [OF cv 1(1)])
      show ?thesis
      proof (cases "expr_val_opt (val_of k) (m_visibility (k_menu k m)) = tri_no")
        case True
        then show ?thesis using Some a by (intro exI [of _ k]) simp
      next
        case allowed: False
        obtain k1 where k1: "prompt_visible cv m p k = Some (prompt_tri k m p, k1)" "same_look {SYMBOL_DEF_USER} k k1"
        proof (cases "m_sym (k_menu k m)")
          case None
          with Some have "p \<in> free_prompts k" by (auto simp: free_prompts_def)
          then show thesis
            using None that same_look_prompt
            by (simp add: prompt_visible_def calc_prop_visible_def evaluated_expr [OF cv 1(1)] prompt_tri_def cond_val_def)
        next
          case (Some s)
          then show thesis
            using that [of k] by (simp add: prompt_visible_def evaluated_string(1) [OF cv 1(1)] prompt_tri_def)
        qed
        note q = same_look_sym [OF k1(2)]
        show ?thesis
        proof (cases "prompt_tri k m p = tri_no \<and> (\<exists>s. m_sym (k_menu k m) = Some s \<and> sv_tri (s_curr (k_sym k s)) \<noteq> tri_no)")
          case True
          then obtain s where s: "m_sym (k_menu k m) = Some s" "sv_tri (s_curr (k_sym k s)) \<noteq> tri_no" by blast
          have "\<exists>k'. some_visible cv n (m_list (k_menu k1 m)) k1 = Some (\<exists>t \<in> set cs. shown k1 t, k') \<and> same_look {SYMBOL_DEF_USER} k1 k'"
            by (rule Suc.IH(2)) (use 1 k1(2) same_look_vals(3) q in simp_all)
          then obtain k2 where k2: "some_visible cv n (m_list (k_menu k m)) k1 = Some (\<exists>t \<in> set cs. shown k t, k2)"
            "same_look {SYMBOL_DEF_USER} k k2" using same_look_trans k1(2) same_look_shown [OF k1(2) 1(2)] q by auto
          show ?thesis
          proof (cases "\<exists>t \<in> set cs. shown k t")
            case True
            have "same_look {SYMBOL_DEF_USER} k (flag_on SYMBOL_DEF_USER s k2)" using same_look_trans [OF k2(2) same_look_user] .
            with True show ?thesis
              using Some a allowed k1 k2 s q \<open>_ \<and> _\<close> by (simp add: sym_get_tristate_value_def)
          next
            case False
            then show ?thesis
              using Some a allowed k1 k2 s q \<open>_ \<and> _\<close> by (simp add: sym_get_tristate_value_def)
          qed
        next
          case False
          then show ?thesis
            using Some a allowed k1 q by (auto simp: sym_get_tristate_value_def split: option.split)
        qed
      qed
    qed
  next
    case 2
    show ?case
    proof (cases ts rule: ids.cases)
      case 1
      with 2 show ?thesis by (intro exI [of _ k]) simp
    next
      case (2 m cs us)
      note P = \<open>evaluated k\<close> \<open>own_prompts k\<close> \<open>fseg (k_menu k) par c ts None\<close> \<open>2 * length (ids ts) + 1 \<le> Suc n\<close>
      have c: "c = Some m" "fseg (k_menu k) m (m_list (k_menu k m)) cs None" "fseg (k_menu k) par (m_next (k_menu k m)) us None"
        using P(3) by (simp_all add: 2)
      obtain k1 where k1: "menu_is_visible cv n m k = Some (shown k (Node m cs), k1)" "same_look {SYMBOL_DEF_USER} k k1"
        using Suc.IH(1) [OF P(1,2) c(2)] P(4) by (auto simp: 2)
      show ?thesis
      proof (cases "shown k (Node m cs)")
        case True
        with k1 show ?thesis by (intro exI [of _ k1]) (simp add: c(1) 2 del: shown.simps)
      next
        case False
        note q = same_look_sym [OF k1(2)]
        have "\<exists>k'. some_visible cv n (m_next (k_menu k1 m)) k1 = Some (\<exists>t \<in> set us. shown k1 t, k') \<and> same_look {SYMBOL_DEF_USER} k1 k'"
          by (rule Suc.IH(2)) (use P(1,2,4) c(3) k1(2) same_look_vals(3) q 2 in simp_all)
        then show ?thesis
          using k1 False same_look_trans same_look_shown [OF k1(2) P(2)] q by (auto simp: c(1) 2 simp del: shown.simps)
      qed
    qed
  }
qed simp_all

text \<open>C11   When every symbol has been calculated, \<^verbatim>\<open>menu_is_visible\<close> and \<^verbatim>\<open>menu_is_empty\<close> end, with
  fuel for twice the number of menus below, and answer what the tree means: an entry is visible if
  it has a prompt, its visibility condition is not n, and its prompt is visible or its symbol is
  not n and something below it is visible. No value, menu or expression changes by asking.\<close>

theorem menu_visible_correct:
  assumes "evaluated k" "own_prompts k" "fseg (k_menu k) m (m_list (k_menu k m)) cs None"
    "2 * length (ids cs) + 2 \<le> n"
  shows "(\<exists>k'. menu_is_visible (sym_calc_value (Suc c)) n m k = Some (shown k (Node m cs), k') \<and> same_look {SYMBOL_DEF_USER} k k') \<and>
    (\<exists>k'. menu_is_empty (sym_calc_value (Suc c)) n m k = Some (\<forall>t \<in> set cs. \<not> shown k t, k') \<and> same_look {SYMBOL_DEF_USER} k k')"
proof -
  have cv: "\<forall>s k. has_flag k s SYMBOL_VALID \<longrightarrow> sym_calc_value (Suc c) s k = Some k"
    by (simp add: calc_value_step_def)
  obtain k1 where "menu_is_visible (sym_calc_value (Suc c)) n m k = Some (shown k (Node m cs), k1)" "same_look {SYMBOL_DEF_USER} k k1"
    using menu_is_visible_spec(1) [OF cv assms] by blast
  moreover have "2 * length (ids cs) + 1 \<le> n" using assms(4) by simp
  then obtain k2 where "some_visible (sym_calc_value (Suc c)) n (m_list (k_menu k m)) k = Some (\<exists>t \<in> set cs. shown k t, k2)" "same_look {SYMBOL_DEF_USER} k k2"
    using menu_is_visible_spec(2) [OF cv assms(1-3)] by blast
  ultimately show ?thesis by (simp add: menu_is_empty_def)
qed

text \<open>A choice whose own prompt is hidden, with a visible value below it.\<close>

definition sample_view :: kconf where
  "sample_view = empty_conf\<lparr>k_sym := (\<lambda>_. (fresh_symbol None {SYMBOL_VALID})\<lparr>s_type := S_TRISTATE, s_curr := \<lparr>sv_val = VNull, sv_tri = tri_mod\<rparr>\<rparr>),
     k_modules_sym := Some symbol_yes,
     k_prop := (\<lambda>p. null_property\<lparr>p_visible := \<lparr>ev_expr = None, ev_tri = if p = 1 then tri_mod else tri_no\<rparr>\<rparr>),
     k_menu := (\<lambda>_. null_menu)(0 := null_menu\<lparr>m_list := Some 1\<rparr>,
        1 := null_menu\<lparr>m_parent := Some 0, m_prompt := Some 0, m_sym := Some (Sym 0), m_list := Some 2\<rparr>,
        2 := null_menu\<lparr>m_parent := Some 1, m_prompt := Some 1, m_sym := Some (Sym 1)\<rparr>)\<rparr>"

theorem menu_visible_correct_witness:
  "\<exists>k1 k2. menu_is_visible (sym_calc_value 1) 4 1 sample_view = Some (True, k1) \<and>
     menu_is_empty (sym_calc_value 1) 4 1 sample_view = Some (False, k2)"
proof -
  have v: "evaluated sample_view" "own_prompts sample_view"
    by (auto simp: evaluated_def own_prompts_def free_prompts_def sample_view_def empty_conf_def has_flag_def fresh_symbol_def null_menu_def)
  have s: "shown sample_view (Node 2 [])" "shown sample_view (Node 1 [Node 2 []])"
    by (simp_all add: sample_view_def empty_conf_def null_menu_def prompt_tri_def)
  have f: "fseg (k_menu sample_view) 1 (m_list (k_menu sample_view 1)) [Node 2 []] None"
    by (simp add: sample_view_def empty_conf_def null_menu_def)
  show ?thesis using menu_visible_correct [OF v f, of 4 0] s by auto
qed

end
