(* ===== verification/Confwrite.thy ===== *)
theory Confwrite
  imports Confround Menuview
begin

text \<open>
  Writing configurations: \<^verbatim>\<open>conf_write\<close> and \<^verbatim>\<open>conf_write_defconfig\<close> of
  \<^verbatim>\<open>confdata.c\<close>, with the walk through the tree of menus that both make. A file that is
  written is the list of its characters; the calls on the file system are collected in order, and
  their results are arguments. \<open>None\<close> is a read through NULL, a buffer overrun or out of fuel.
\<close>

section \<open>Printers\<close>

record conf_printer =
  print_symbol :: "string \<Rightarrow> symbol_type \<Rightarrow> string \<Rightarrow> string \<Rightarrow> bool \<Rightarrow> string"
  print_comment :: "string \<Rightarrow> string"

definition kconfig_printer_cb :: conf_printer where
  "kconfig_printer_cb = \<lparr>print_symbol = kconfig_print_symbol, print_comment = kconfig_print_comment\<rparr>"

definition header_printer_cb :: conf_printer where
  "header_printer_cb = \<lparr>print_symbol = (\<lambda>pre ty name value arg. header_print_symbol pre ty name value),
     print_comment = header_print_comment\<rparr>"

definition tristate_printer_cb :: conf_printer where
  "tristate_printer_cb = \<lparr>print_symbol = (\<lambda>pre ty name value arg. tristate_print_symbol pre ty name value),
     print_comment = kconfig_print_comment\<rparr>"

text \<open>What is written, and the state. \<open>arg\<close> is whether the argument of the printer is not NULL.\<close>

definition conf_write_symbol :: "calc \<Rightarrow> string \<Rightarrow> conf_printer \<Rightarrow> bool \<Rightarrow> sym \<Rightarrow> kconf \<Rightarrow> (string \<times> kconf) option" where
  "conf_write_symbol cv pre printer arg s k =
     (let ty = s_type (k_sym k s) in
      if ty = S_OTHER \<or> ty = S_UNKNOWN then Some ([], k)
      else do {
        (str, k) \<leftarrow> sym_get_string_value cv s k;
        str \<leftarrow> (if ty = S_STRING then sym_escape_string_value str else Some str);
        name \<leftarrow> s_name (k_sym k s);
        Some (print_symbol printer pre ty name str arg, k) })"

text \<open>The text of the heading is cut off to the 255 characters that fit its buffer.\<close>

definition conf_write_heading :: "conf_printer \<Rightarrow> kconf \<Rightarrow> string option" where
  "conf_write_heading printer k = do {
     p \<leftarrow> m_prompt (k_menu k rootmenu);
     t \<leftarrow> p_text (k_prop k p);
     Some (print_comment printer (take 255 ([LF] @ ''Automatically generated file; DO NOT EDIT.'' @ [LF] @ t @ [LF]))) }"

section \<open>The walk through the menus\<close>

text \<open>\<open>Some None\<close> is the end of the walk, \<open>None\<close> is out of fuel.\<close>

fun climb :: "nat \<Rightarrow> (mid \<Rightarrow> menu) \<Rightarrow> mid \<Rightarrow> mid option option" where
  "climb 0 M m = None"
| "climb (Suc d) M m = (case m_parent (M m) of None \<Rightarrow> Some None
     | Some p \<Rightarrow> (case m_next (M p) of Some x \<Rightarrow> Some (Some x) | None \<Rightarrow> climb d M p))"

definition next_menu :: "nat \<Rightarrow> (mid \<Rightarrow> menu) \<Rightarrow> mid \<Rightarrow> mid option option" where
  "next_menu d M m = (case m_list (M m) of Some c \<Rightarrow> Some (Some c)
     | None \<Rightarrow> (case m_next (M m) of Some x \<Rightarrow> Some (Some x) | None \<Rightarrow> climb d M m))"

text \<open>Both functions write something for a menu and go on to the next one.\<close>

type_synonym writer = "string \<times> kconf"

fun walk :: "nat \<Rightarrow> nat \<Rightarrow> (mid \<Rightarrow> writer \<Rightarrow> writer option) \<Rightarrow> mid option \<Rightarrow> writer \<Rightarrow> writer option" where
  "walk d 0 visit mo w = None"
| "walk d (Suc n) visit mo w = (case mo of None \<Rightarrow> Some w
     | Some m \<Rightarrow> do {
         w \<leftarrow> visit m w;
         mo \<leftarrow> next_menu d (k_menu (snd w)) m;
         walk d n visit mo w })"

definition write_calculated :: "calc \<Rightarrow> string \<Rightarrow> sym \<Rightarrow> writer \<Rightarrow> writer option" where
  "write_calculated cv pre s w = do {
     (txt, k) \<leftarrow> conf_write_symbol cv pre kconfig_printer_cb False s (snd w);
     Some (fst w @ txt, k) }"

text \<open>\<open>n\<close> is the fuel for the visibility of a menu.\<close>

definition write_menu :: "calc \<Rightarrow> string \<Rightarrow> nat \<Rightarrow> mid \<Rightarrow> writer \<Rightarrow> writer option" where
  "write_menu cv pre n m w = (case w of (out, k) \<Rightarrow> (case m_sym (k_menu k m) of
     None \<Rightarrow> do {
       (v, k) \<leftarrow> menu_is_visible cv n m k;
       if \<not> v then Some (out, k)
       else do {
         str \<leftarrow> menu_get_prompt k m;
         Some (out @ [LF] @ ''#'' @ [LF] @ ''# '' @ str @ [LF] @ ''#'' @ [LF], k) } }
   | Some s \<Rightarrow> if has_flag k s SYMBOL_CHOICE then Some (out, k)
       else do {
         k \<leftarrow> cv s k;
         if \<not> has_flag k s SYMBOL_WRITE then Some (out, k)
         else write_calculated cv pre s (out, flag_off SYMBOL_WRITE s k) }))"

text \<open>The body of the file after the heading.\<close>

definition write_body :: "calc \<Rightarrow> string \<Rightarrow> nat \<Rightarrow> kconf \<Rightarrow> writer option" where
  "write_body cv pre n k = do {
     k \<leftarrow> (if k_change_count k = 0 then sym_clear_all_valid cv k else Some k);
     walk n n (write_menu cv pre n) (m_list (k_menu k rootmenu)) ([], k) }"

section \<open>\<^verbatim>\<open>conf_write\<close>\<close>

datatype fs_op = Fs_write string string | Fs_rename string string

text \<open>\<^verbatim>\<open>stat\<close> with \<^verbatim>\<open>S_ISDIR\<close>, \<^verbatim>\<open>fopen\<close>, \<^verbatim>\<open>rename\<close>, \<^verbatim>\<open>getpid\<close>.\<close>

record files =
  fs_isdir :: "string \<Rightarrow> bool"
  fs_fopen :: "string \<Rightarrow> bool"
  fs_rename :: "string \<Rightarrow> string \<Rightarrow> bool"
  fs_getpid :: int

text \<open>A string for one of the buffers of PATH_MAX + 1 bytes.\<close>

definition path_buf :: "string \<Rightarrow> string option" where
  "path_buf s = (if length s \<le> PATH_MAX then Some s else None)"

definition split_dir :: "string \<Rightarrow> (string \<times> string) option" where
  "split_dir s = (if CHR ''/'' \<in> set s
     then Some (rev (dropWhile (\<lambda>c. c \<noteq> CHR ''/'') (rev s)), rev (takeWhile (\<lambda>c. c \<noteq> CHR ''/'') (rev s)))
     else None)"

text \<open>\<^verbatim>\<open>dirname\<close>, with its last slash, and \<^verbatim>\<open>basename\<close>.\<close>

definition split_name :: "cenv \<Rightarrow> files \<Rightarrow> string \<Rightarrow> (string \<times> string) option" where
  "split_name e fs name =
     (if name = [] then Some ([], conf_get_configname e)
      else if fs_isdir fs name then do { d \<leftarrow> path_buf (name @ ''/''); Some (d, conf_get_configname e) }
      else (case split_dir name of
          Some (d, b) \<Rightarrow> do { d \<leftarrow> path_buf d; Some (d, if b = [] then conf_get_configname e else b) }
        | None \<Rightarrow> Some ([], name)))"

text \<open>The result is the status, the calls on the file system, the messages and the state.\<close>

definition conf_write :: "calc \<Rightarrow> string \<Rightarrow> nat \<Rightarrow> cenv \<Rightarrow> files \<Rightarrow> string option \<Rightarrow> kconf \<Rightarrow>
    (nat \<times> fs_op list \<times> string list \<times> kconf) option" where
  "conf_write cv pre n e fs name k = do {
     (dir, base) \<leftarrow> split_name e fs (case name of Some x \<Rightarrow> x | None \<Rightarrow> conf_get_configname e);
     newname \<leftarrow> path_buf (dir @ base);
     let temp = (e_getenv e ''KCONFIG_OVERWRITECONFIG'' \<in> {None, Some []});
     tmpname \<leftarrow> (if temp then path_buf (dir @ ''.tmpconfig.'' @ print_lld (fs_getpid fs)) else Some []);
     let file = (if temp then tmpname else newname);
     if \<not> fs_fopen fs file then Some (1, [], [], k)
     else do {
       head \<leftarrow> conf_write_heading kconfig_printer_cb k;
       (body, k) \<leftarrow> write_body cv pre n k;
       let ops = [Fs_write file (head @ body)];
       old \<leftarrow> (if temp then path_buf (dir @ base @ ''.old'') else Some []);
       let ops = (if temp then ops @ [Fs_rename newname old, Fs_rename tmpname newname] else ops);
       if temp \<and> \<not> fs_rename fs tmpname newname then Some (1, ops, [], k)
       else Some (0, ops, [''configuration written to '' @ newname], sym_set_change_count 0 k) } }"

section \<open>\<^verbatim>\<open>conf_write_defconfig\<close>\<close>

text \<open>Whether the value of a choice value is the one its choice has by default.\<close>

definition default_choice_value :: "calc \<Rightarrow> sym \<Rightarrow> kconf \<Rightarrow> (bool \<times> kconf) option" where
  "default_choice_value cv s k =
     (if \<not> sym_is_choice_value (k_sym k s) then Some (False, k)
      else do {
        p \<leftarrow> sym_get_choice_prop k s;
        cs \<leftarrow> prop_get_symbol k p;
        (ds, k) \<leftarrow> sym_choice_default cv cs k;
        Some (\<not> sym_is_optional (k_sym k cs) \<and> ds = Some s \<and> s_type (k_sym k s) = S_BOOLEAN \<and>
          sym_get_tristate_value (k_sym k s) = tri_yes, k) })"

definition write_changed :: "calc \<Rightarrow> string \<Rightarrow> nat \<Rightarrow> mid \<Rightarrow> writer \<Rightarrow> writer option" where
  "write_changed cv pre n m w = (case w of (out, k) \<Rightarrow> (case m_sym (k_menu k m) of
     None \<Rightarrow> do { (v, k) \<leftarrow> menu_is_visible cv n m k; Some (out, k) }
   | Some s \<Rightarrow> if sym_is_choice (k_sym k s) then Some (out, k)
       else do {
         k \<leftarrow> cv s k;
         if \<not> has_flag k s SYMBOL_WRITE then Some (out, k)
         else do {
           let k = flag_off SYMBOL_WRITE s k;
           if \<not> sym_is_changable k s then Some (out, k)
           else do {
             (v, k) \<leftarrow> sym_get_string_value cv s k;
             (d, k) \<leftarrow> sym_get_string_default cv s k;
             if strcmp v d = 0 then Some (out, k)
             else do {
               (skip, k) \<leftarrow> default_choice_value cv s k;
               if skip then Some (out, k) else write_calculated cv pre s (out, k) } } } }))"

definition conf_write_defconfig :: "calc \<Rightarrow> string \<Rightarrow> nat \<Rightarrow> files \<Rightarrow> string \<Rightarrow> kconf \<Rightarrow> (nat \<times> fs_op list \<times> kconf) option" where
  "conf_write_defconfig cv pre n fs filename k =
     (if \<not> fs_fopen fs filename then Some (1, [], k)
      else do {
        k \<leftarrow> sym_clear_all_valid cv k;
        (out, k) \<leftarrow> walk n n (write_changed cv pre n) (m_list (k_menu k rootmenu)) ([], k);
        Some (0, [Fs_write filename out], k) })"

section \<open>The walk visits every menu once, in order\<close>

fun visit_all :: "(mid \<Rightarrow> writer \<Rightarrow> writer option) \<Rightarrow> mid list \<Rightarrow> writer \<Rightarrow> writer option" where
  "visit_all visit [] w = Some w"
| "visit_all visit (m # ms) w = do { w \<leftarrow> visit m w; visit_all visit ms w }"

lemma visit_all_append: "visit_all visit (ms @ ns) w = do { w \<leftarrow> visit_all visit ms w; visit_all visit ns w }"
proof (induction ms arbitrary: w)
  case (Cons m ms)
  then show ?case by (cases "visit m w") simp_all
qed simp

definition links_kept :: "(mid \<Rightarrow> menu) \<Rightarrow> (mid \<Rightarrow> menu) \<Rightarrow> bool" where
  "links_kept M M' \<longleftrightarrow> same_at UNIV M M'"

lemma links_keptD: "links_kept M M' \<Longrightarrow> m_next (M' x) = m_next (M x)" "links_kept M M' \<Longrightarrow> m_list (M' x) = m_list (M x)"
  "links_kept M M' \<Longrightarrow> m_parent (M' x) = m_parent (M x)"
  by (simp_all add: links_kept_def same_at_def)

lemma links_kept_refl [simp]: "links_kept M M"
  by (simp add: links_kept_def same_at_def)

lemma links_kept_trans: "links_kept M M' \<Longrightarrow> links_kept M' M'' \<Longrightarrow> links_kept M M''"
  by (simp add: links_kept_def same_at_def)

lemma fseg_links: "links_kept M M' \<Longrightarrow> fseg M' par p ts q = fseg M par p ts q"
  by (rule fseg_cong) (simp add: links_kept_def same_at_def)

lemma climb_links: "links_kept M M' \<Longrightarrow> climb d M' m = climb d M m"
  by (induction d arbitrary: m) (simp_all add: links_keptD split: option.split)

lemma next_menu_links: "links_kept M M' \<Longrightarrow> next_menu d M' m = next_menu d M m"
  by (simp add: next_menu_def climb_links links_keptD split: option.split)

lemma climb_mono: "climb d M m = Some r \<Longrightarrow> d \<le> d' \<Longrightarrow> climb d' M m = Some r"
proof (induction d arbitrary: m d')
  case (Suc d)
  then show ?case by (cases d') (auto split: option.splits)
qed simp

text \<open>Where the walk goes after the last menu below \<open>par\<close>.\<close>

definition after_kids :: "nat \<Rightarrow> (mid \<Rightarrow> menu) \<Rightarrow> mid \<Rightarrow> mid option option" where
  "after_kids d M par = (case m_next (M par) of Some x \<Rightarrow> Some (Some x) | None \<Rightarrow> climb d M par)"

lemma after_kids_links: "links_kept M M' \<Longrightarrow> after_kids e M' par = after_kids e M par"
  by (simp add: after_kids_def climb_links links_keptD split: option.split)

text \<open>A visit keeps what the state has to satisfy, and that includes the links.\<close>

locale menu_walk =
  fixes I :: "kconf \<Rightarrow> bool" and M :: "mid \<Rightarrow> menu" and visit :: "mid \<Rightarrow> writer \<Rightarrow> writer option"
  assumes links: "I k \<Longrightarrow> links_kept M (k_menu k)"
    and visit: "I (snd w) \<Longrightarrow> visit m w = Some w' \<Longrightarrow> I (snd w')"
begin

lemma I_visit_all: "visit_all visit ms w = Some w' \<Longrightarrow> I (snd w) \<Longrightarrow> I (snd w')"
proof (induction ms arbitrary: w)
  case (Cons m ms)
  then obtain w1 where "visit m w = Some w1" "visit_all visit ms w1 = Some w'" by (auto simp: bind_eq_Some_conv)
  then show ?case using visit Cons by blast
qed simp

lemma walk_step:
  "I (snd w) \<Longrightarrow> visit m w = Some w' \<Longrightarrow> next_menu d M m = Some mo \<Longrightarrow>
    walk d (Suc n) visit (Some m) w = walk d n visit mo w'"
  by (simp add: next_menu_links [OF links [OF visit]])

lemma walk_seg:
  "I (snd w) \<Longrightarrow> fseg M par p ts None \<Longrightarrow> ts \<noteq> [] \<Longrightarrow> after_kids e M par = Some r \<Longrightarrow> e + length (ids ts) \<le> d \<Longrightarrow>
    walk d (length (ids ts) + n) visit p w = do { w \<leftarrow> visit_all visit (ids ts) w; walk d n visit r w }"
proof (induction ts arbitrary: w par p e r n rule: ids.induct)
  case (2 m cs us)
  have f: "p = Some m" "m_parent (M m) = Some par" "fseg M m (m_list (M m)) cs None"
    "fseg M par (m_next (M m)) us None" using 2(4) by simp_all
  have up: "climb (Suc d) M m = after_kids d M par" for d
    using f(2) by (simp add: after_kids_def)
  let ?r = "if us = [] then r else m_next (M m)"
  have nx: "m_next (M m) = (if us = [] then None else Some (root (hd us)))"
    using f(4) fseg_first by (cases us) auto
  have after: "after_kids (Suc e) M m = Some ?r"
    using 2(6) up [of e] nx by (simp add: after_kids_def)
  show ?case
  proof (cases "visit m w")
    case None
    then show ?thesis by (simp add: f(1))
  next
    case (Some w1)
    have I1: "I (snd w1)" using visit [OF 2(3) Some] .
    have rest: "walk d (length (ids us) + n) visit ?r w' = do { w \<leftarrow> visit_all visit (ids us) w'; walk d n visit r w }"
      if "I (snd w')" for w'
      using 2(2) [OF that f(4) _ 2(6)] 2(7) by (cases "us = []") auto
    show ?thesis
    proof (cases "cs = []")
      case True
      have "climb d M m = Some r" if "us = []"
      proof -
        have "climb (Suc e) M m = Some r" using 2(6) up [of e] by simp
        then show ?thesis by (rule climb_mono) (use 2(7) in simp)
      qed
      then have "next_menu d M m = Some ?r" using f(3) True nx by (simp add: next_menu_def)
      then show ?thesis
        using rest [OF I1] True walk_step [OF 2(3) Some] by (simp add: f(1) Some del: walk.simps)
    next
      case False
      then have "m_list (M m) = Some (root (hd cs))"
        using f(3) fseg_first [of M m "m_list (M m)" "hd cs" "tl cs"] by simp
      then have "next_menu d M m = Some (m_list (M m))" by (simp add: next_menu_def)
      then have "walk d (length (ids (Node m cs # us)) + n) visit p w =
          walk d (length (ids cs) + (length (ids us) + n)) visit (m_list (M m)) w1"
        using walk_step [OF 2(3) Some] by (simp add: f(1) add.assoc del: walk.simps)
      also have "\<dots> = do { w \<leftarrow> visit_all visit (ids cs) w1; walk d (length (ids us) + n) visit ?r w }"
        using 2(1) [OF I1 f(3) False after] 2(7) by simp
      also have "\<dots> = do { w \<leftarrow> visit_all visit (ids cs @ ids us) w1; walk d n visit r w }"
        using rest I_visit_all [OF _ I1] by (cases "visit_all visit (ids cs) w1") (simp_all add: visit_all_append)
      finally show ?thesis by (simp add: Some)
    qed
  qed
qed simp

lemma walk_preorder:
  assumes "I (snd w)" "fseg M rootmenu (m_list (M rootmenu)) ts None"
    and "m_next (M rootmenu) = None" "m_parent (M rootmenu) = None" "length (ids ts) < n"
  shows "walk n n visit (m_list (k_menu (snd w) rootmenu)) w = visit_all visit (ids ts) w"
proof -
  obtain n' where n: "n = length (ids ts) + Suc n'" using assms(5) by (metis less_iff_Suc_add add_Suc_right)
  have l: "m_list (k_menu (snd w) rootmenu) = m_list (M rootmenu)" by (rule links_keptD(2) [OF links [OF assms(1)]])
  show ?thesis
  proof (cases "ts = []")
    case True
    with assms(2) n show ?thesis unfolding l by simp
  next
    case False
    have "after_kids 1 M rootmenu = Some None" using assms(3,4) by (simp add: after_kids_def)
    then have "walk n (length (ids ts) + Suc n') visit (m_list (M rootmenu)) w =
        do { w \<leftarrow> visit_all visit (ids ts) w; walk n (Suc n') visit None w }"
      by (intro walk_seg [OF assms(1,2) False]) (use assms(5) in auto)
    then show ?thesis unfolding l by (cases "visit_all visit (ids ts) w") (simp_all add: n)
  qed
qed

end

section \<open>What a visit keeps\<close>

text \<open>The contract of a calculation, for states in which a symbol may become the user's.\<close>

locale menu_queries = calc_preserves I ty cv
  for I :: "kconf \<Rightarrow> bool" and ty :: "sym \<Rightarrow> symbol_type" and cv :: calc +
  assumes user: "I k \<Longrightarrow> I (flag_on SYMBOL_DEF_USER s k)"
begin

lemma P_allows [call_rules]: "I k \<Longrightarrow> (\<And>x k'. I k' \<Longrightarrow> Q (x, k')) \<Longrightarrow> post (visibility_allows cv m k) Q"
  by (auto simp: visibility_allows_def post_simps intro!: call_rules split: option.split)

lemma P_prompt [call_rules]: "I k \<Longrightarrow> (\<And>x k'. I k' \<Longrightarrow> Q (x, k')) \<Longrightarrow> post (prompt_visible cv m p k) Q"
  by (auto simp: prompt_visible_def post_simps intro!: call_rules split: option.split)

lemma P_visible:
  "I k \<Longrightarrow> post (menu_is_visible cv n m k) (\<lambda>(v, k'). I k')"
  "I k \<Longrightarrow> post (some_visible cv n c k) (\<lambda>(v, k'). I k')"
proof (induction n arbitrary: m c k)
  case (Suc n)
  have v: "I k \<Longrightarrow> (\<And>x k'. I k' \<Longrightarrow> Q (x, k')) \<Longrightarrow> post (menu_is_visible cv n m k) Q" for k m Q
    using Suc.IH(1) [of k m] by (auto simp: post_def)
  have s: "I k \<Longrightarrow> (\<And>x k'. I k' \<Longrightarrow> Q (x, k')) \<Longrightarrow> post (some_visible cv n c k) Q" for k c Q
    using Suc.IH(2) [of k c] by (auto simp: post_def)
  {
    case 1
    then show ?case by (auto simp: post_simps user intro!: call_rules s split: option.split)
  next
    case 2
    then show ?case by (auto simp: post_simps intro!: v s split: option.split)
  }
qed (simp_all add: post_simps)

lemma P_is_visible [call_rules]:
  "I k \<Longrightarrow> (\<And>x k'. I k' \<Longrightarrow> Q (x, k')) \<Longrightarrow> post (menu_is_visible cv n m k) Q"
  using P_visible(1) [of k n m] by (auto simp: post_def)

lemma post_True [simp]: "post m (\<lambda>_. True)"
  by (simp add: post_def)

lemma P_write_symbol [call_rules]:
  "I k \<Longrightarrow> (\<And>x k'. I k' \<Longrightarrow> Q (x, k')) \<Longrightarrow> post (conf_write_symbol cv pre printer arg s k) Q"
  by (auto simp: conf_write_symbol_def Let_def post_simps intro!: call_rules intro: postI)

lemma P_write_calculated [call_rules]:
  "I (snd w) \<Longrightarrow> (\<And>w'. I (snd w') \<Longrightarrow> Q w') \<Longrightarrow> post (write_calculated cv pre s w) Q"
  by (auto simp: write_calculated_def post_simps intro!: call_rules)

lemma P_write_menu: "I (snd w) \<Longrightarrow> write_menu cv pre n m w = Some w' \<Longrightarrow> I (snd w')"
proof -
  have "I k \<Longrightarrow> post (write_menu cv pre n m (out, k)) (\<lambda>w'. I (snd w'))" for out k
    by (auto simp: write_menu_def post_simps I_write intro!: call_rules split: option.split intro: postI)
  then show "I (snd w) \<Longrightarrow> write_menu cv pre n m w = Some w' \<Longrightarrow> I (snd w')"
    by (cases w) (auto dest: postD)
qed

lemma P_default_values [call_rules]:
  "I k \<Longrightarrow> (\<And>a b k'. I k' \<Longrightarrow> Q (a, b, k')) \<Longrightarrow> post (default_values cv s p val str k) Q"
  by (auto simp: default_values_def post_simps intro!: call_rules split: option.split)

lemma P_string_default [call_rules]:
  "I k \<Longrightarrow> (\<And>x k'. I k' \<Longrightarrow> Q (x, k')) \<Longrightarrow> post (sym_get_string_default cv s k) Q"
  unfolding sym_get_string_default_def Let_def post_simps
  by (intro call_rules) (auto simp: post_simps intro!: call_rules split: option.splits symbol_type.splits)

lemma P_default_choice [call_rules]:
  "I k \<Longrightarrow> (\<And>x k'. I k' \<Longrightarrow> Q (x, k')) \<Longrightarrow> post (default_choice_value cv s k) Q"
  by (auto simp: default_choice_value_def post_simps intro!: call_rules)

lemma P_write_changed: "I (snd w) \<Longrightarrow> write_changed cv pre n m w = Some w' \<Longrightarrow> I (snd w')"
proof -
  have "I k \<Longrightarrow> post (write_changed cv pre n m (out, k)) (\<lambda>w'. I (snd w'))" for out k
    by (auto simp: write_changed_def Let_def post_simps I_write intro!: call_rules split: option.split)
  then show "I (snd w) \<Longrightarrow> write_changed cv pre n m w = Some w' \<Longrightarrow> I (snd w')"
    by (cases w) (auto dest: postD)
qed

end

text \<open>The static symbols and the types of all symbols are as ever, and the links are those of \<open>M\<close>.\<close>

definition tree_inv :: "(mid \<Rightarrow> menu) \<Rightarrow> (sym \<Rightarrow> symbol_type) \<Rightarrow> kconf \<Rightarrow> bool" where
  "tree_inv M ty k \<longleftrightarrow> static_ok k \<and> (\<forall>s. s_type (k_sym k s) = ty s) \<and> links_kept M (k_menu k)"

lemma tree_inv_frame:
  assumes "tree_inv M ty k" "calc_frame k k'" "links_kept (k_menu k) (k_menu k')"
  shows "tree_inv M ty k'"
  using assms frame.types [OF assms(2)] frame.static [OF assms(2)] links_kept_trans
  by (auto simp: tree_inv_def)

lemma set_all_menu: "set_all_choice_values c k = Some k' \<Longrightarrow> k_menu k' = k_menu k"
proof -
  have "k_menu (fold unset_def_user xs k) = k_menu k" for xs k
    by (induction xs arbitrary: k) (auto simp: unset_def_user_def upd_defs)
  then show "set_all_choice_values c k = Some k' \<Longrightarrow> k_menu k' = k_menu k"
    by (auto simp: set_all_choice_values_def Let_def upd_defs elim!: bind_eq_SomeE)
qed

interpretation tree: calc_invariant "tree_inv M ty" ty for M ty
proof
  fix k assume I: "tree_inv M ty k"
  then have st: "static_ok k" by (simp add: tree_inv_def)
  note f = calc_frame_refl [OF st]
  show "static_ok k" by (rule st)
  show "s_type (k_sym k s) = ty s" for s using I by (simp add: tree_inv_def)
  show "tree_inv M ty (upd_sym s g k)" if "quiet g" for s g
    by (rule tree_inv_frame [OF I frame.quiet [OF f that]]) simp
  show "tree_inv M ty (upd_menu m (m_changed_update g) k)" for m g
    by (rule tree_inv_frame [OF I frame.menu [OF f]]) (simp add: upd_defs links_kept_def same_at_def)
  show "tree_inv M ty (set_prop_visible p t k)" for p t
    by (rule tree_inv_frame [OF I frame.visible_prop [OF f]]) (simp add: upd_defs)
  show "tree_inv M ty (k\<lparr>k_modules_val := t\<rparr>)" for t
    by (rule tree_inv_frame [OF I frame.modules [OF f]]) simp
  show "tree_inv M ty (set_curr s v k)" if "s \<notin> static_syms" for s v
    by (rule tree_inv_frame [OF I frame_curr [OF f that]]) (simp add: upd_defs)
  show "tree_inv M ty (set_curr_val s w k)" if "s \<notin> static_syms" for s w
    by (rule tree_inv_frame [OF I frame.curr_val [OF f that]]) (simp add: set_curr_val_def upd_defs)
  show "tree_inv M ty (flag_on SYMBOL_VALID s k)" for s
    by (rule tree_inv_frame [OF I frame.valid [OF f]]) (simp add: upd_defs)
  show "tree_inv M ty (flag_off SYMBOL_NEED_SET_CHOICE_VALUES s k)" for s
    by (rule tree_inv_frame [OF I frame.need [OF f]]) (simp add: upd_defs)
  show "tree_inv M ty k'" if "has_flag k c SYMBOL_NEED_SET_CHOICE_VALUES"
    "set_all_choice_values c k = Some k'" for c k'
    by (rule tree_inv_frame [OF I frame.set_all [OF f that]]) (simp add: set_all_menu [OF that(2)])
qed

interpretation tree_calls: menu_queries "tree_inv M ty" ty "sym_calc_value c" for M ty c
proof
  show "post (sym_calc_value c s k) Q" if "tree_inv M ty k" "\<And>k'. tree_inv M ty k' \<Longrightarrow> Q k'" for k s Q
    using that tree.I_calc_value [of c s k] by (auto intro: postI)
  show "tree_inv M ty (flag_on SYMBOL_DEF_USER s k)" if "tree_inv M ty k" for k s
    using that by (auto simp: tree_inv_def static_ok_def upd_defs has_flag_def)
qed

interpretation writing: menu_walk "tree_inv M ty" M "write_menu (sym_calc_value c) pre n" for M ty c pre n
  by unfold_locales (simp add: tree_inv_def, rule tree_calls.P_write_menu)

interpretation writing_changed: menu_walk "tree_inv M ty" M "write_changed (sym_calc_value c) pre n" for M ty c pre n
  by unfold_locales (simp add: tree_inv_def, rule tree_calls.P_write_changed)

lemma tree_inv_clear:
  assumes "static_ok k" "set (k_all k) \<inter> static_syms = {}" "sym_clear_all_valid (sym_calc_value c) k = Some k'"
  shows "tree_inv (k_menu k) (\<lambda>s. s_type (k_sym k s)) k'"
proof -
  let ?k = "sym_add_change_count 1 (fold (flag_off SYMBOL_VALID) (for_all_symbols k) k)"
  have fold: "k_menu (fold (flag_off SYMBOL_VALID) ss j) = k_menu j \<and> k_modules_sym (fold (flag_off SYMBOL_VALID) ss j) = k_modules_sym j \<and>
      (\<forall>s. s_type (k_sym (fold (flag_off SYMBOL_VALID) ss j) s) = s_type (k_sym j s) \<and>
        s_curr (k_sym (fold (flag_off SYMBOL_VALID) ss j) s) = s_curr (k_sym j s) \<and>
        s_flags (k_sym (fold (flag_off SYMBOL_VALID) ss j) s) = (if s \<in> set ss then s_flags (k_sym j s) - {SYMBOL_VALID} else s_flags (k_sym j s)))"
    for ss j
    by (induction ss arbitrary: j) (auto simp: upd_defs)
  have "tree_inv (k_menu k) (\<lambda>s. s_type (k_sym k s)) ?k"
    using assms(1,2) fold [of "for_all_symbols k" k]
    by (auto simp: tree_inv_def static_ok_def has_flag_def sym_add_change_count_def sym_set_change_count_def for_all_symbols_def)
  from tree_calls.P_opt [OF this, of "tree_inv (k_menu k) (\<lambda>s. s_type (k_sym k s))" c] assms(3)
  show ?thesis by (auto simp: sym_clear_all_valid_def Let_def dest: postD)
qed

end
