(* ===== verification/Confsave.thy ===== *)
theory Confsave
  imports Confwrite
begin

text \<open>
  What \<^verbatim>\<open>conf_write\<close> writes and what reading it back gives: both files are written in the
  order of the menus, and the values in the file of a calculated configuration are restored when
  the file is read.
\<close>

section \<open>The order of the files\<close>

text \<open>C12   \<^verbatim>\<open>conf_write\<close> and \<^verbatim>\<open>conf_write_defconfig\<close> walk from menu to menu by the links to
  the first entry, the next entry and the parent. For a tree of menus below the root the walk ends
  and visits every menu exactly once, in order, however the calculations on the way change values
  and flags; the fuel is one more than the number of menus.\<close>

theorem written_in_menu_order:
  assumes "static_ok k" "set (k_all k) \<inter> static_syms = {}"
    and "fseg (k_menu k) rootmenu (m_list (k_menu k rootmenu)) ts None"
      "m_next (k_menu k rootmenu) = None" "m_parent (k_menu k rootmenu) = None"
    and "length (ids ts) < n"
  shows "write_body (sym_calc_value c) pre n k = do {
      k \<leftarrow> (if k_change_count k = 0 then sym_clear_all_valid (sym_calc_value c) k else Some k);
      visit_all (write_menu (sym_calc_value c) pre n) (ids ts) ([], k) } \<and>
    conf_write_defconfig (sym_calc_value c) pre n fs filename k =
     (if \<not> fs_fopen fs filename then Some (1, [], k)
      else do {
        k \<leftarrow> sym_clear_all_valid (sym_calc_value c) k;
        (out, k) \<leftarrow> visit_all (write_changed (sym_calc_value c) pre n) (ids ts) ([], k);
        Some (0, [Fs_write filename out], k) })"
proof -
  let ?I = "tree_inv (k_menu k) (\<lambda>s. s_type (k_sym k s))"
  have I: "?I k" using assms(1) by (simp add: tree_inv_def)
  have clear: "?I k'" if "sym_clear_all_valid (sym_calc_value c) k = Some k'" for k'
    using tree_inv_clear [OF assms(1,2) that] .
  have w: "walk n n (write_menu (sym_calc_value c) pre n) (m_list (k_menu k' rootmenu)) ([], k') =
      visit_all (write_menu (sym_calc_value c) pre n) (ids ts) ([], k')" if "?I k'" for k'
    using writing.walk_preorder [of "k_menu k" _ "([], k')" ts n, OF _ assms(3-6)] that by simp
  have d: "walk n n (write_changed (sym_calc_value c) pre n) (m_list (k_menu k' rootmenu)) ([], k') =
      visit_all (write_changed (sym_calc_value c) pre n) (ids ts) ([], k')" if "?I k'" for k'
    using writing_changed.walk_preorder [of "k_menu k" _ "([], k')" ts n, OF _ assms(3-6)] that by simp
  show ?thesis
  proof
    show "write_body (sym_calc_value c) pre n k = do {
      k \<leftarrow> (if k_change_count k = 0 then sym_clear_all_valid (sym_calc_value c) k else Some k);
      visit_all (write_menu (sym_calc_value c) pre n) (ids ts) ([], k) }"
      unfolding write_body_def using w [OF I] w [OF clear]
      by (cases "sym_clear_all_valid (sym_calc_value c) k") auto
    show "conf_write_defconfig (sym_calc_value c) pre n fs filename k =
     (if \<not> fs_fopen fs filename then Some (1, [], k)
      else do {
        k \<leftarrow> sym_clear_all_valid (sym_calc_value c) k;
        (out, k) \<leftarrow> visit_all (write_changed (sym_calc_value c) pre n) (ids ts) ([], k);
        Some (0, [Fs_write filename out], k) })"
      unfolding conf_write_defconfig_def using d [OF clear]
      by (cases "sym_clear_all_valid (sym_calc_value c) k") auto
  qed
qed

section \<open>The lines of the file\<close>

fun preorder :: "mtree list \<Rightarrow> mtree list" where
  "preorder [] = []"
| "preorder (Node m cs # ts) = Node m cs # preorder cs @ preorder ts"

lemma preorder_ids: "map root (preorder ts) = ids ts"
  by (induction ts rule: ids.induct) auto

lemma preorder_kids:
  "fseg M par p ts q \<Longrightarrow> t \<in> set (preorder ts) \<Longrightarrow>
    fseg M (root t) (m_list (M (root t))) (kids t) None \<and> length (ids (kids t)) < length (ids ts)"
proof (induction M par p ts q arbitrary: t rule: fseg.induct)
  case (2 M par p m cs ts q)
  from 2(4) consider (here) "t = Node m cs" | (below) "t \<in> set (preorder cs)" | (behind) "t \<in> set (preorder ts)" by auto
  then show ?case
  proof cases
    case here
    with 2(3) show ?thesis by simp
  next
    case below
    with 2(1,3) show ?thesis by fastforce
  next
    case behind
    with 2(2,3) show ?thesis by fastforce
  qed
qed simp

text \<open>The value that the line of a symbol stands for.\<close>

definition saved_of :: "kconf \<Rightarrow> sym \<Rightarrow> saved" where
  "saved_of k s =
     (if s_type (k_sym k s) = S_BOOLEAN \<or> s_type (k_sym k s) = S_TRISTATE then
        SavedTri (if sv_tri (s_curr (k_sym k s)) = tri_mod \<and> modules_off k then tri_no else sv_tri (s_curr (k_sym k s)))
      else SavedStr (raw_string k s))"

definition comment_items :: "string \<Rightarrow> item list" where
  "comment_items t = [Inr [LF], Inr (''#'' @ [LF]), Inr (''# '' @ t @ [LF]), Inr (''#'' @ [LF])]"

definition title :: "kconf \<Rightarrow> mid \<Rightarrow> string" where
  "title k m = (case menu_get_prompt k m of Some t \<Rightarrow> t | None \<Rightarrow> [])"

text \<open>\<open>W\<close> are the symbols that are still to be written: each is written for its first menu.\<close>

fun items_of :: "kconf \<Rightarrow> sym set \<Rightarrow> mtree list \<Rightarrow> item list" where
  "items_of k W [] = []"
| "items_of k W (t # ts) = (case m_sym (k_menu k (root t)) of
     None \<Rightarrow> (if shown k t then comment_items (title k (root t)) else []) @ items_of k W ts
   | Some s \<Rightarrow>
       if has_flag k s SYMBOL_CHOICE \<or> s \<notin> W then items_of k W ts
       else (if s_type (k_sym k s) \<in> {S_OTHER, S_UNKNOWN} then []
             else [Inl (s, the (s_name (k_sym k s)), saved_of k s)]) @ items_of k (W - {s}) ts)"

lemma entries_append: "entries_of (is @ js) = entries_of is @ entries_of js"
  by (induction "is" rule: entries_of.induct) auto

lemma items_distinct:
  "fst ` set (entries_of (items_of k W ts)) \<subseteq> W \<and> distinct (map fst (entries_of (items_of k W ts)))"
proof (induction ts arbitrary: W)
  case (Cons t ts)
  show ?case
  proof (cases "m_sym (k_menu k (root t))")
    case None
    then show ?thesis using Cons [of W] by (simp add: entries_append comment_items_def)
  next
    case (Some s)
    then show ?thesis using Cons [of W] Cons [of "W - {s}"] by (auto simp: entries_append)
  qed
qed simp

lemma items_complete:
  "t \<in> set ts \<Longrightarrow> m_sym (k_menu k (root t)) = Some s \<Longrightarrow> \<not> has_flag k s SYMBOL_CHOICE \<Longrightarrow> s \<in> W \<Longrightarrow>
    s_type (k_sym k s) \<notin> {S_OTHER, S_UNKNOWN} \<Longrightarrow>
    (s, the (s_name (k_sym k s)), saved_of k s) \<in> set (entries_of (items_of k W ts))"
proof (induction ts arbitrary: W)
  case (Cons u ts)
  show ?case
  proof (cases "m_sym (k_menu k (root u))")
    case None
    with Cons show ?thesis by (auto simp: entries_append comment_items_def)
  next
    case (Some s')
    with Cons show ?thesis by (cases "s' = s") (auto simp: entries_append)
  qed
qed simp

text \<open>Looking like the calculated state \<open>k\<close>, with \<open>W\<close> still to be written.\<close>

definition looks :: "kconf \<Rightarrow> sym set \<Rightarrow> kconf \<Rightarrow> bool" where
  "looks k W k' \<longleftrightarrow> same_look {SYMBOL_DEF_USER, SYMBOL_WRITE} k k' \<and> (\<forall>s. has_flag k' s SYMBOL_WRITE \<longleftrightarrow> s \<in> W)"

lemma same_look_mono: "same_look F k k' \<Longrightarrow> F \<subseteq> G \<Longrightarrow> same_look G k k'"
  unfolding same_look_def by blast

lemma looks_user: "looks k W k' \<Longrightarrow> same_look {SYMBOL_DEF_USER} k' k'' \<Longrightarrow> looks k W k''"
  using same_look_trans [of _ k k' k''] same_look_mono [of "{SYMBOL_DEF_USER}" k' k'' "{SYMBOL_DEF_USER, SYMBOL_WRITE}"]
  unfolding looks_def has_flag_def same_look_def [of "{SYMBOL_DEF_USER}"] by blast

lemma looks_written: "looks k W k' \<Longrightarrow> looks k (W - {s}) (flag_off SYMBOL_WRITE s k')"
proof -
  assume l: "looks k W k'"
  have "same_look {SYMBOL_DEF_USER, SYMBOL_WRITE} k' (flag_off SYMBOL_WRITE s k')"
    by (auto simp: same_look_def upd_defs)
  with l have "same_look {SYMBOL_DEF_USER, SYMBOL_WRITE} k (flag_off SYMBOL_WRITE s k')"
    unfolding looks_def by (blast intro: same_look_trans)
  moreover have "has_flag (flag_off SYMBOL_WRITE s k') x SYMBOL_WRITE \<longleftrightarrow> x \<in> W - {s}" for x
    using l by (auto simp: looks_def has_flag_def upd_defs)
  ultimately show ?thesis by (simp add: looks_def)
qed

lemma looks_name: "looks k W k' \<Longrightarrow> s_name (k_sym k' s) = s_name (k_sym k s)"
proof -
  assume "looks k W k'"
  then have *: "k_sym k' s = (k_sym k s)\<lparr>s_flags := s_flags (k_sym k' s)\<rparr>"
    unfolding looks_def same_look_def by blast
  show ?thesis by (subst *) simp
qed

lemma looks_flag: "looks k W k' \<Longrightarrow> f \<noteq> SYMBOL_DEF_USER \<Longrightarrow> f \<noteq> SYMBOL_WRITE \<Longrightarrow> has_flag k' s f = has_flag k s f"
  unfolding looks_def same_look_def has_flag_def by blast

lemma saved_string: "fits (s_type (k_sym k s)) (saved_of k s) \<Longrightarrow>
    string_value k s = (case saved_of k s of SavedTri t \<Rightarrow> tri_string t | SavedStr v \<Rightarrow> v)"
  by (auto simp: saved_of_def string_value_def)

lemma escape_some: "sym_escape_string_value v = Some (QUOTE # escaped v @ [QUOTE])"
  using escape_exact(1) [of v] by simp

text \<open>The line of one symbol.\<close>

lemma write_symbol_line:
  assumes cv: "\<forall>s k. has_flag k s SYMBOL_VALID \<longrightarrow> cv s k = Some k" and ev: "evaluated k'"
    and n: "s_name (k_sym k' s) = Some name" and f: "fits (s_type (k_sym k' s)) (saved_of k' s)"
  shows "conf_write_symbol cv pre kconfig_printer_cb False s k' =
    Some (entry_line pre (\<lambda>s. s_type (k_sym k' s)) (s, name, saved_of k' s), k')"
proof -
  have "s_type (k_sym k' s) \<notin> {S_OTHER, S_UNKNOWN}" using f by (cases "saved_of k' s") (auto split: if_splits)
  then show ?thesis
    using n f evaluated_string(2) [OF cv ev, of s] saved_string [OF f] escape_some
    by (cases "saved_of k' s"; cases "s_type (k_sym k' s)")
      (auto simp: conf_write_symbol_def entry_line_def kconfig_printer_cb_def Let_def)
qed

section \<open>The whole file\<close>

lemma skipped_lines:
  assumes "set pre \<inter> {NUL, LF} = {}"
  shows "skipped pre [LF]" "skipped pre (''#'' @ [LF])"
proof -
  show "skipped pre [LF]"
    using assms by (cases pre) (auto simp: skipped_def parse_line_def Let_def cstr_def)
  show "skipped pre (''#'' @ [LF])"
    using assms by (cases pre) (auto simp: skipped_def parse_line_def Let_def cstr_def intro: exI [of _ "''#''"])
qed

text \<open>A text whose comment line is nothing to the reader.\<close>

definition harmless :: "string \<Rightarrow> string \<Rightarrow> bool" where
  "harmless pre t \<longleftrightarrow> skipped pre (''# '' @ t @ [LF])"

lemma comment_items_skipped: "set pre \<inter> {NUL, LF} = {} \<Longrightarrow> harmless pre t \<Longrightarrow> Inr l \<in> set (comment_items t) \<Longrightarrow> skipped pre l"
  using skipped_lines by (auto simp: comment_items_def harmless_def)

text \<open>The symbols that the file has to have, with the menus that stand for them.\<close>

definition to_write :: "kconf \<Rightarrow> sym set" where
  "to_write k = {s. has_flag k s SYMBOL_WRITE}"

definition menu_fits :: "kconf \<Rightarrow> mtree \<Rightarrow> bool" where
  "menu_fits k t \<longleftrightarrow> (case m_sym (k_menu k (root t)) of
     None \<Rightarrow> shown k t \<longrightarrow> menu_get_prompt k (root t) \<noteq> None
   | Some s \<Rightarrow> \<not> has_flag k s SYMBOL_CHOICE \<and> s \<in> to_write k \<and> s_type (k_sym k s) \<notin> {S_OTHER, S_UNKNOWN} \<longrightarrow>
       s_name (k_sym k s) \<noteq> None \<and> fits (s_type (k_sym k s)) (saved_of k s))"

lemma looks_saved: "looks k W k' \<Longrightarrow> saved_of k' s = saved_of k s"
  unfolding looks_def
proof (elim conjE)
  assume l: "same_look {SYMBOL_DEF_USER, SYMBOL_WRITE} k k'"
  note q = same_look_sym [OF l]
  have "modules_off k' = modules_off k" by (cases "k_modules_sym k") (simp_all add: modules_off_def q)
  then show "saved_of k' s = saved_of k s" by (simp add: saved_of_def raw_string_def q)
qed

lemma same_look_get_prompt: "same_look F k k' \<Longrightarrow> m_sym (k_menu k m) = None \<Longrightarrow> menu_get_prompt k' m = menu_get_prompt k m"
proof -
  assume l: "same_look F k k'" and s: "m_sym (k_menu k m) = None"
  have "p_text (k_prop k' p) = p_text (k_prop k p)" for p using l unfolding same_look_def by blast
  then show ?thesis using s by (simp add: same_look_sym(3) [OF l] menu_get_prompt_def split: option.split)
qed

lemma write_items:
  assumes cv: "\<forall>s k. has_flag k s SYMBOL_VALID \<longrightarrow> cv s k = Some k" and ev: "evaluated k" "own_prompts k"
    and W: "W \<subseteq> to_write k" and l: "looks k W k'"
    and t: "\<forall>t \<in> set ts. menu_fits k t \<and> fseg (k_menu k) (root t) (m_list (k_menu k (root t))) (kids t) None \<and>
      2 * length (ids (kids t)) + 2 \<le> n"
  shows "\<exists>k''. visit_all (write_menu cv pre n) (map root ts) (out, k') =
    Some (out @ concat (map (item_line pre (\<lambda>s. s_type (k_sym k s))) (items_of k W ts)), k'')"
  using W l t
proof (induction ts arbitrary: W k' out)
  case (Cons t ts)
  let ?ty = "\<lambda>s. s_type (k_sym k s)"
  let ?lines = "\<lambda>is. concat (map (item_line pre ?ty) is)"
  have l: "same_look {SYMBOL_DEF_USER, SYMBOL_WRITE} k k'" using Cons.prems(2) by (simp add: looks_def)
  note q = same_look_sym [OF l]
  have ev': "evaluated k'" using same_look_vals(3) [OF l] ev(1) by simp
  have rest: "\<exists>k''. visit_all (write_menu cv pre n) (map root ts) (out', k1) = Some (out' @ ?lines (items_of k V ts), k'')"
    if "V \<subseteq> to_write k" "looks k V k1" for V k1 out'
    using Cons.IH [OF that, of out'] Cons.prems(3) by simp
  have "\<exists>k1 V. write_menu cv pre n (root t) (out, k') = Some (out @ ?lines (items_of k W [t]), k1) \<and>
    V \<subseteq> to_write k \<and> looks k V k1 \<and> items_of k W (t # ts) = items_of k W [t] @ items_of k V ts"
  proof (cases "m_sym (k_menu k (root t))")
    case None
    have tree: "fseg (k_menu k') (root t) (m_list (k_menu k' (root t))) (kids t) None" "2 * length (ids (kids t)) + 2 \<le> n"
      using Cons.prems(3) q(3) by simp_all
    have "own_prompts k'" using q(7) ev(2) by simp
    from menu_is_visible_spec(1) [OF cv ev' this tree] obtain k1 where
      v: "menu_is_visible cv n (root t) k' = Some (shown k' (Node (root t) (kids t)), k1)" and u: "same_look {SYMBOL_DEF_USER} k' k1"
      by blast
    have "Node (root t) (kids t) = t" by (cases t) simp
    with v have k1: "menu_is_visible cv n (root t) k' = Some (shown k t, k1)" using same_look_shown [OF l ev(2)] by simp
    have l1: "looks k W k1" by (rule looks_user [OF Cons.prems(2) u])
    have p: "menu_get_prompt k1 (root t) = menu_get_prompt k (root t)"
      using same_look_get_prompt [OF l] same_look_get_prompt [OF u] None q(3) by simp
    have "shown k t \<Longrightarrow> menu_get_prompt k (root t) \<noteq> None" using Cons.prems(3) None by (simp add: menu_fits_def)
    then show ?thesis
      using None k1 l1 p q(3) Cons.prems(1)
      by (intro exI [of _ k1] exI [of _ W]) (auto simp: write_menu_def comment_items_def title_def)
  next
    case (Some s)
    have c: "has_flag k' s SYMBOL_CHOICE = has_flag k s SYMBOL_CHOICE" by (rule looks_flag [OF Cons.prems(2)]) simp_all
    have w: "has_flag k' s SYMBOL_WRITE \<longleftrightarrow> s \<in> W" using Cons.prems(2) by (simp add: looks_def)
    show ?thesis
    proof (cases "has_flag k s SYMBOL_CHOICE \<or> s \<notin> W")
      case True
      then show ?thesis
        using Some Cons.prems(1,2) c w q(3) evaluated_string(1) [OF cv ev']
        by (intro exI [of _ k'] exI [of _ W]) (auto simp: write_menu_def)
    next
      case False
      let ?k = "flag_off SYMBOL_WRITE s k'"
      have l1: "looks k (W - {s}) ?k" by (rule looks_written [OF Cons.prems(2)])
      then have ev1: "evaluated ?k" using same_look_vals(3) [of "{SYMBOL_DEF_USER, SYMBOL_WRITE}" k ?k] ev(1) by (simp add: looks_def)
      have same: "s_type (k_sym ?k x) = ?ty x" "s_name (k_sym ?k x) = s_name (k_sym k x)" "saved_of ?k x = saved_of k x" for x
        using looks_name [OF l1] looks_saved [OF l1] same_look_sym(2) [of "{SYMBOL_DEF_USER, SYMBOL_WRITE}" k ?k x] l1
        by (simp_all add: looks_def)
      have m: "write_menu cv pre n (root t) (out, k') = write_calculated cv pre s (out, ?k)"
        using Some False c w q(3) evaluated_string(1) [OF cv ev'] by (simp add: write_menu_def)
      have "conf_write_symbol cv pre kconfig_printer_cb False s ?k = Some (?lines (items_of k W [t]), ?k)"
      proof (cases "?ty s \<in> {S_OTHER, S_UNKNOWN}")
        case True
        with Some False same(1) [of s] show ?thesis by (auto simp: conf_write_symbol_def)
      next
        case known: False
        then obtain name where n: "s_name (k_sym k s) = Some name" "fits (?ty s) (saved_of k s)"
          using Cons.prems(1,3) Some False by (auto simp: menu_fits_def)
        from write_symbol_line [OF cv ev1, of s name pre] n same show ?thesis
          using Some False known by simp
      qed
      then have "write_menu cv pre n (root t) (out, k') = Some (out @ ?lines (items_of k W [t]), ?k)"
        by (simp add: m write_calculated_def)
      then show ?thesis
        using Some False l1 Cons.prems(1) by (intro exI [of _ ?k] exI [of _ "W - {s}"]) auto
    qed
  qed
  then obtain k1 V where "write_menu cv pre n (root t) (out, k') = Some (out @ ?lines (items_of k W [t]), k1)"
    "V \<subseteq> to_write k" "looks k V k1" "items_of k W (t # ts) = items_of k W [t] @ items_of k V ts" by blast
  with rest [of V k1 "out @ ?lines (items_of k W [t])"] show ?case by auto
qed simp

text \<open>The heading, when it fits the buffer.\<close>

definition heading_items :: "string \<Rightarrow> item list" where
  "heading_items t = [Inr (''#'' @ [LF]), Inr (''# Automatically generated file; DO NOT EDIT.'' @ [LF]),
     Inr (''# '' @ t @ [LF]), Inr (''#'' @ [LF])]"

lemma comment_line_step: "LF \<notin> set l \<Longrightarrow> comment_lines start (l @ LF # q) =
    start @ (if l = [] then [] else CHR '' '' # l) @ [LF] @ comment_lines start q"
  by (subst comment_lines.simps) (simp add: takeWhile_until dropWhile_until Let_def)

lemma heading_lines:
  assumes "m_prompt (k_menu k rootmenu) = Some p" "p_text (k_prop k p) = Some t" "t \<noteq> []" "LF \<notin> set t" "length t \<le> 210"
  shows "conf_write_heading kconfig_printer_cb k = Some (concat (map (item_line pre ty) (heading_items t)))"
proof -
  let ?a = "''Automatically generated file; DO NOT EDIT.''"
  have a: "LF \<notin> set ?a" "?a \<noteq> []" by simp_all
  have "comment_lines ''#'' (LF # a @ LF # t @ [LF]) = ''#'' @ [LF] @ ''# '' @ a @ [LF] @ ''# '' @ t @ [LF] @ ''#'' @ [LF]"
    if "LF \<notin> set a" "a \<noteq> []" for a
    using that assms(3,4) comment_line_step [of "[]" "''#''"] by (simp add: comment_line_step comment_lines.simps [of _ "[]"])
  from this [OF a] have "comment_lines ''#'' ([LF] @ ?a @ [LF] @ t @ [LF]) = concat (map (item_line pre ty) (heading_items t))"
    by (simp add: heading_items_def)
  moreover have "take 255 ([LF] @ ?a @ [LF] @ t @ [LF]) = [LF] @ ?a @ [LF] @ t @ [LF]" using assms(5) by simp
  ultimately show ?thesis using assms(1,2) unfolding conf_write_heading_def kconfig_printer_cb_def kconfig_print_comment_def
    by simp
qed

text \<open>What the calls on the file system leave on the disk.\<close>

fun fs_effect :: "fs_op \<Rightarrow> (string \<Rightarrow> string option) \<Rightarrow> string \<Rightarrow> string option" where
  "fs_effect (Fs_write f txt) disk = disk(f := Some txt)"
| "fs_effect (Fs_rename a b) disk = (case disk a of None \<Rightarrow> disk | Some txt \<Rightarrow> (disk(a := None))(b := Some txt))"

definition temp_name :: "string \<Rightarrow> files \<Rightarrow> string" where
  "temp_name dir fs = dir @ ''.tmpconfig.'' @ print_lld (fs_getpid fs)"

text \<open>The names fit their buffers, the temporary file is neither the new nor the old one, and
  the files can be opened and renamed.\<close>

definition can_save :: "files \<Rightarrow> string \<Rightarrow> string \<Rightarrow> bool" where
  "can_save fs dir base \<longleftrightarrow> length (temp_name dir fs) \<le> PATH_MAX \<and> length (dir @ base @ ''.old'') \<le> PATH_MAX \<and>
     temp_name dir fs \<noteq> dir @ base \<and> temp_name dir fs \<noteq> dir @ base @ ''.old'' \<and>
     (\<forall>f. fs_fopen fs f) \<and> (\<forall>a b. fs_rename fs a b)"

lemma conf_write_saves:
  assumes "split_name e fs (case name of Some x \<Rightarrow> x | None \<Rightarrow> conf_get_configname e) = Some (dir, base)" "can_save fs dir base"
    "conf_write_heading kconfig_printer_cb k = Some head" "write_body cv pre n k = Some (body, k')"
  shows "\<exists>ops. conf_write cv pre n e fs name k =
      Some (0, ops, [''configuration written to '' @ dir @ base], sym_set_change_count 0 k') \<and>
    fold fs_effect ops disk (dir @ base) = Some (head @ body)"
proof -
  have p: "path_buf (dir @ base) = Some (dir @ base)" "path_buf (temp_name dir fs) = Some (temp_name dir fs)"
    "path_buf (dir @ base @ ''.old'') = Some (dir @ base @ ''.old'')"
    "\<And>f. fs_fopen fs f" "\<And>a b. fs_rename fs a b" "temp_name dir fs \<noteq> dir @ base" "temp_name dir fs \<noteq> dir @ base @ ''.old''"
    using assms(2) by (simp_all add: can_save_def path_buf_def)
  show ?thesis
  proof (cases "e_getenv e ''KCONFIG_OVERWRITECONFIG'' \<in> {None, Some []}")
    case True
    with p assms(1,3,4) show ?thesis
      by (simp add: conf_write_def Let_def temp_name_def split: option.split)
  next
    case False
    with p assms(1,3,4) show ?thesis by (simp add: conf_write_def Let_def del: not_None_eq)
  qed
qed

text \<open>The symbols that have a line in the file.\<close>

definition saved_syms :: "kconf \<Rightarrow> mtree list \<Rightarrow> sym set" where
  "saved_syms k us = {s. \<exists>u \<in> set us. m_sym (k_menu k (root u)) = Some s \<and> \<not> has_flag k s SYMBOL_CHOICE \<and>
     s \<in> to_write k \<and> s_type (k_sym k s) \<notin> {S_OTHER, S_UNKNOWN}}"

lemma entries_from:
  "e \<in> set (entries_of (items_of k W us)) \<Longrightarrow> W \<subseteq> to_write k \<Longrightarrow>
    \<exists>s \<in> saved_syms k us. e = (s, the (s_name (k_sym k s)), saved_of k s)"
proof (induction us arbitrary: W)
  case (Cons u us)
  have up: "saved_syms k us \<subseteq> saved_syms k (u # us)" by (auto simp: saved_syms_def)
  show ?case
  proof (cases "m_sym (k_menu k (root u))")
    case None
    with Cons.prems(1) have "e \<in> set (entries_of (items_of k W us))"
      by (simp add: entries_append comment_items_def split: if_splits)
    with Cons.IH [OF _ Cons.prems(2)] up show ?thesis by blast
  next
    case (Some s)
    show ?thesis
    proof (cases "e = (s, the (s_name (k_sym k s)), saved_of k s) \<and> \<not> has_flag k s SYMBOL_CHOICE \<and> s \<in> W \<and>
        s_type (k_sym k s) \<notin> {S_OTHER, S_UNKNOWN}")
      case True
      with Some Cons.prems(2) have "s \<in> saved_syms k (u # us)" by (auto simp: saved_syms_def)
      with True show ?thesis by blast
    next
      case False
      with Cons.prems Some have "e \<in> set (entries_of (items_of k W us)) \<or> e \<in> set (entries_of (items_of k (W - {s}) us))"
        by (auto simp: entries_append split: if_splits)
      with Cons.IH [of W] Cons.IH [of "W - {s}"] Cons.prems(2) up show ?thesis by blast
    qed
  qed
qed simp

lemma comments_from:
  "Inr l \<in> set (items_of k W us) \<Longrightarrow>
    \<exists>u \<in> set us. m_sym (k_menu k (root u)) = None \<and> shown k u \<and> Inr l \<in> set (comment_items (title k (root u)))"
proof (induction us arbitrary: W)
  case (Cons u us)
  then show ?case by (cases "m_sym (k_menu k (root u))") (auto split: if_splits)
qed simp

lemma entry_ok_mono: "entry_ok pre r S e \<Longrightarrow> T \<subseteq> S \<Longrightarrow> entry_ok pre r T e"
  unfolding entry_ok_def by (cases e) auto

lemma harmless_text: "harmless pre t \<Longrightarrow> LF \<notin> set t"
  by (auto simp: harmless_def skipped_def)

text \<open>C5   Saving and loading again: the file that \<^verbatim>\<open>conf_write\<close> leaves under the name of the
  configuration, whether it is written in place or through a temporary file, gives, when it is
  read into a fresh configuration of the same symbols, every symbol that was to be written its
  value again, as the user's value. The state is one in which everything has been calculated and
  something has changed; the titles of the file and of the menus are not of the form of a
  setting; the fuel is two for each menu. What the symbols need is \<open>entry_ok\<close>.\<close>

theorem written_config_restores:
  assumes "evaluated k" "own_prompts k" "static_ok k" "k_change_count k \<noteq> 0"
    and tree: "fseg (k_menu k) rootmenu (m_list (k_menu k rootmenu)) ts None"
      "m_next (k_menu k rootmenu) = None" "m_parent (k_menu k rootmenu) = None" "2 * length (ids ts) + 2 \<le> n"
    and heading: "m_prompt (k_menu k rootmenu) = Some p" "p_text (k_prop k p) = Some t" "t \<noteq> []" "length t \<le> 210"
      "harmless pre t" "harmless pre ''Automatically generated file; DO NOT EDIT.''"
    and titles: "\<forall>u \<in> set (preorder ts). m_sym (k_menu k (root u)) = None \<and> shown k u \<longrightarrow>
      menu_get_prompt k (root u) \<noteq> None \<and> harmless pre (title k (root u))"
    and syms: "\<forall>s \<in> saved_syms k (preorder ts). s_name (k_sym k s) \<noteq> None \<and>
      entry_ok pre r (saved_syms k (preorder ts)) (s, the (s_name (k_sym k s)), saved_of k s)"
    and "\<forall>s. s_type (k_sym (r_conf r) s) = s_type (k_sym k s)" "set pre \<inter> {NUL, LF} = {}"
    and "split_name e fs (case name of Some x \<Rightarrow> x | None \<Rightarrow> conf_get_configname e) = Some (dir, base)" "can_save fs dir base"
  shows "\<exists>ops k' content r'. conf_write (sym_calc_value (Suc c)) pre n e fs name k =
      Some (0, ops, [''configuration written to '' @ dir @ base], k') \<and>
    fold fs_effect ops disk (dir @ base) = Some content \<and>
    read_lines pre fill S_DEF_USER buf content r = Some r' \<and>
    (\<forall>s \<in> saved_syms k (preorder ts). holds S_DEF_USER (k_sym (r_conf r') s) (saved_of k s))"
proof -
  let ?W = "to_write k" and ?us = "preorder ts" and ?ty = "\<lambda>s. s_type (k_sym k s)"
  let ?items = "heading_items t @ items_of k ?W ?us"
  have cv: "\<forall>s k. has_flag k s SYMBOL_VALID \<longrightarrow> sym_calc_value (Suc c) s k = Some k"
    by (simp add: calc_value_step_def)
  have fit: "menu_fits k u" if "u \<in> set ?us" for u
    using that titles syms assms(17) unfolding menu_fits_def saved_syms_def entry_ok_def
    by (fastforce split: option.split)
  have "looks k ?W k" by (simp add: looks_def to_write_def)
  from write_items [OF cv assms(1,2) order_refl this, of ?us n pre "[]"] fit preorder_kids [OF tree(1)] tree(4)
  obtain k' where "visit_all (write_menu (sym_calc_value (Suc c)) pre n) (map root ?us) ([], k) =
      Some (concat (map (item_line pre ?ty) (items_of k ?W ?us)), k')"
    by fastforce
  moreover have "tree_inv (k_menu k) ?ty k" using assms(3) by (simp add: tree_inv_def)
  ultimately have body: "write_body (sym_calc_value (Suc c)) pre n k = Some (concat (map (item_line pre ?ty) (items_of k ?W ?us)), k')"
    using writing.walk_preorder [of "k_menu k" ?ty "([], k)" ts n] tree assms(4)
    by (simp add: write_body_def preorder_ids)
  have head: "conf_write_heading kconfig_printer_cb k = Some (concat (map (item_line pre ?ty) (heading_items t)))"
    by (rule heading_lines [OF heading(1-3) harmless_text [OF heading(5)] heading(4)])
  from conf_write_saves [OF assms(19,20) head body, of disk] obtain ops where ops:
    "conf_write (sym_calc_value (Suc c)) pre n e fs name k =
      Some (0, ops, [''configuration written to '' @ dir @ base], sym_set_change_count 0 k')"
    "fold fs_effect ops disk (dir @ base) = Some (concat (map (item_line pre ?ty) ?items))" by auto
  have entries: "entries_of ?items = entries_of (items_of k ?W ?us)" by (simp add: entries_append heading_items_def)
  have sub: "fst ` set (entries_of ?items) \<subseteq> saved_syms k ?us"
    unfolding entries using entries_from by fastforce
  have ok: "\<forall>x \<in> set (entries_of ?items). entry_ok pre r (fst ` set (entries_of ?items)) x"
    using entries_from [of _ k ?W ?us] syms entry_ok_mono [OF _ sub] unfolding entries by blast
  have skip: "\<forall>l. Inr l \<in> set ?items \<longrightarrow> skipped pre l"
    using comments_from [of _ k ?W ?us] comment_items_skipped [OF assms(18)] titles heading(5,6) skipped_lines [OF assms(18)]
    by (fastforce simp: heading_items_def harmless_def)
  have dist: "distinct (map fst (entries_of ?items))" unfolding entries using items_distinct by blast
  from items_restored [OF ok dist skip assms(18), of ?ty fill buf] assms(17) obtain r' where r':
    "read_lines pre fill S_DEF_USER buf (concat (map (item_line pre ?ty) ?items)) r = Some r'"
    "\<forall>(s, name, sv) \<in> set (entries_of ?items). holds S_DEF_USER (k_sym (r_conf r') s) sv" by auto
  have "holds S_DEF_USER (k_sym (r_conf r') s) (saved_of k s)" if "s \<in> saved_syms k ?us" for s
    using that r'(2) items_complete [of _ ?us k s ?W] unfolding entries saved_syms_def by fastforce
  with ops r'(1) show ?thesis by blast
qed

text \<open>A string FOO and a comment entry.\<close>

definition sample_save :: kconf where
  "sample_save = empty_conf\<lparr>
     k_sym := (\<lambda>s. case s of
         Sym i \<Rightarrow> (fresh_symbol (Some ''FOO'') {SYMBOL_VALID, SYMBOL_WRITE})\<lparr>s_type := S_STRING,
           s_curr := \<lparr>sv_val = VStr [QUOTE], sv_tri = tri_no\<rparr>\<rparr>
       | _ \<Rightarrow> static_symbols s),
     k_modules_sym := Some symbol_yes, k_change_count := 1,
     k_prop := (\<lambda>p. null_property\<lparr>p_text := Some ''T''\<rparr>),
     k_menu := (\<lambda>_. null_menu)(0 := null_menu\<lparr>m_prompt := Some 0, m_list := Some 1\<rparr>,
        1 := null_menu\<lparr>m_parent := Some 0, m_prompt := Some 1, m_sym := Some (Sym 0), m_next := Some 2\<rparr>,
        2 := null_menu\<lparr>m_parent := Some 0, m_prompt := Some 2\<rparr>)\<rparr>"

definition sample_reader :: reader where
  "sample_reader = two_reader\<lparr>r_tab := empty_tab\<lparr>t_conf := sample_save, t_hash := (\<lambda>_. [Sym 0])\<rparr>\<rparr>"

definition sample_files :: files where
  "sample_files = \<lparr>fs_isdir = (\<lambda>_. False), fs_fopen = (\<lambda>_. True), fs_rename = (\<lambda>_ _. True), fs_getpid = 7\<rparr>"

definition sample_cenv :: cenv where
  "sample_cenv = \<lparr>e_getenv = (\<lambda>_. None), e_fopen = (\<lambda>_. None), e_fill = (\<lambda>_. NUL)\<rparr>"

theorem written_config_restores_witness:
  "\<exists>ops k' content r'. conf_write (sym_calc_value 1) [] 6 sample_cenv sample_files None sample_save =
      Some (0, ops, [''configuration written to .config''], k') \<and>
    fold fs_effect ops (\<lambda>_. None) ''.config'' = Some content \<and>
    read_lines [] (\<lambda>_. NUL) S_DEF_USER [] content sample_reader = Some r' \<and>
    sv_val (s_def (k_sym (r_conf r') (Sym 0)) S_DEF_USER) = VStr [QUOTE]"
proof -
  let ?k = "sample_save" and ?ts = "[Node 1 [], Node 2 []]"
  have m: "k_menu ?k 0 = null_menu\<lparr>m_prompt := Some 0, m_list := Some 1\<rparr>"
    "k_menu ?k (Suc 0) = null_menu\<lparr>m_parent := Some 0, m_prompt := Some 1, m_sym := Some (Sym 0), m_next := Some 2\<rparr>"
    "k_menu ?k 2 = null_menu\<lparr>m_parent := Some 0, m_prompt := Some 2\<rparr>"
    by (simp_all add: sample_save_def)
  have static: "static_ok ?k"
    by (auto simp: static_ok_def sample_save_def static_syms_def has_flag_def static_symbol_def fresh_symbol_def)
  have ev: "evaluated ?k"
    by (auto simp: evaluated_def sample_save_def has_flag_def static_symbol_def fresh_symbol_def split: sym.split)
  have own: "own_prompts ?k" by (auto simp: own_prompts_def free_prompts_def sample_save_def null_menu_def)
  have tree: "fseg (k_menu ?k) rootmenu (m_list (k_menu ?k rootmenu)) ?ts None"
      "m_next (k_menu ?k rootmenu) = None" "m_parent (k_menu ?k rootmenu) = None" "2 * length (ids ?ts) + 2 \<le> 6"
    by (simp_all add: m rootmenu_def null_menu_def)
  have h: "harmless [] ''T''" "harmless [] ''Automatically generated file; DO NOT EDIT.''"
    by (simp_all add: harmless_def skipped_def parse_line_def Let_def cstr_def)
  have saved: "saved_syms ?k (preorder ?ts) = {Sym 0}" "saved_of ?k (Sym 0) = SavedStr [QUOTE]"
    by (auto simp: saved_syms_def m null_menu_def to_write_def saved_of_def raw_string_def)
      (simp_all add: sample_save_def has_flag_def fresh_symbol_def)
  have syms: "s_name (k_sym ?k (Sym 0)) = Some ''FOO''" "entry_ok [] sample_reader {Sym 0} (Sym 0, ''FOO'', SavedStr [QUOTE])"
    by (simp_all add: sample_save_def fresh_symbol_def entry_ok_def sample_reader_def r_conf_def sym_find_def static_sym_def
        name_ok_def text_ok_def has_flag_def empty_tab_def)
  have titles: "\<forall>u \<in> set (preorder ?ts). m_sym (k_menu ?k (root u)) = None \<and> shown ?k u \<longrightarrow>
      menu_get_prompt ?k (root u) \<noteq> None \<and> harmless [] (title ?k (root u))"
    using h(1) by (simp add: m null_menu_def menu_get_prompt_def title_def) (simp add: sample_save_def)
  have p: "m_prompt (k_menu ?k rootmenu) = Some 0" "p_text (k_prop ?k 0) = Some ''T''" "k_change_count ?k \<noteq> 0"
    by (simp_all add: m rootmenu_def null_menu_def) (simp_all add: sample_save_def)
  have pid: "print_lld 7 = ''7''" by code_simp
  have f: "split_name sample_cenv sample_files (case None of Some x \<Rightarrow> x | None \<Rightarrow> conf_get_configname sample_cenv) = Some ([], ''.config'')"
      "can_save sample_files [] ''.config''"
    by (simp_all add: split_name_def sample_cenv_def sample_files_def conf_get_configname_def split_dir_def can_save_def temp_name_def PATH_MAX_def pid)
  have ok: "\<forall>s \<in> saved_syms ?k (preorder ?ts). s_name (k_sym ?k s) \<noteq> None \<and>
      entry_ok [] sample_reader (saved_syms ?k (preorder ?ts)) (s, the (s_name (k_sym ?k s)), saved_of ?k s)"
    using syms by (simp only: saved ball_simps simp_thms option.sel option.distinct not_False_eq_True)
  have types: "\<forall>s. s_type (k_sym (r_conf sample_reader) s) = s_type (k_sym ?k s)" by (simp add: sample_reader_def r_conf_def)
  have lens: "''T'' \<noteq> []" "length ''T'' \<le> 210" "set [] \<inter> {NUL, LF} = {}" by simp_all
  from written_config_restores [OF ev own static p(3) tree p(1,2) lens(1,2) h titles ok types lens(3) f, of 0 "\<lambda>_. None" "\<lambda>_. NUL" "[]"]
  show ?thesis unfolding saved(1) by (auto simp: saved(2))
qed

theorem written_in_menu_order_witness:
  "write_body (sym_calc_value 1) [] 3 sample_save = visit_all (write_menu (sym_calc_value 1) [] 3) [1, 2] ([], sample_save)"
proof -
  have static: "static_ok sample_save"
    by (auto simp: static_ok_def sample_save_def static_syms_def has_flag_def static_symbol_def fresh_symbol_def)
  have all: "set (k_all sample_save) \<inter> static_syms = {}" by (simp add: sample_save_def empty_conf_def)
  have tree: "fseg (k_menu sample_save) rootmenu (m_list (k_menu sample_save rootmenu)) [Node 1 [], Node 2 []] None"
      "m_next (k_menu sample_save rootmenu) = None" "m_parent (k_menu sample_save rootmenu) = None"
      "length (ids [Node 1 [], Node 2 []]) < 3" "k_change_count sample_save \<noteq> 0"
    by (simp_all add: sample_save_def rootmenu_def null_menu_def)
  show ?thesis using written_in_menu_order [OF static all tree(1-4), of 1 "[]"] tree(5) by simp
qed

end
