(* ===== verification/Confsplit.thy ===== *)
theory Confsplit
  imports Confsave
begin

text \<open>
  The files for the build: \<^verbatim>\<open>conf_split_config\<close> touches a header for each symbol whose
  value has changed since \<^verbatim>\<open>auto.conf\<close> was written, \<^verbatim>\<open>conf_write_autoconf\<close> writes
  \<^verbatim>\<open>auto.conf\<close>, the tristate file and the C header (\<^verbatim>\<open>confdata.c\<close>), and
  \<^verbatim>\<open>file_write_dep\<close> the list of the files that were read (\<^verbatim>\<open>util.c\<close>). The calls that
  depend on earlier calls take and give the state of the disk, of any type.
\<close>

section \<open>The calls on the disk\<close>

text \<open>\<^verbatim>\<open>open\<close> with O_CREAT and O_TRUNC, closed again.\<close>

datatype open_result = Open_ok | Open_enoent | Open_error

record 'w disk =
  d_open :: "string \<Rightarrow> 'w \<Rightarrow> open_result \<times> 'w"
  d_stat :: "string \<Rightarrow> 'w \<Rightarrow> bool"
  d_mkdir :: "string \<Rightarrow> 'w \<Rightarrow> bool \<times> 'w"
  d_chdir :: "string \<Rightarrow> 'w \<Rightarrow> bool \<times> 'w"
  d_getcwd :: "'w \<Rightarrow> string option"

text \<open>\<^verbatim>\<open>dirname\<close> of the C library.\<close>

definition cut_end :: "string \<Rightarrow> string" where
  "cut_end s = rev (dropWhile (\<lambda>c. c = CHR ''/'') (rev s))"

definition dirname :: "string \<Rightarrow> string" where
  "dirname p = (let q = cut_end p in
     if q = [] then (if p = [] then ''.'' else ''/'')
     else case split_dir q of None \<Rightarrow> ''.''
       | Some (d, b) \<Rightarrow> if cut_end d = [] then ''/'' else cut_end d)"

section \<open>The headers of the symbols\<close>

definition header_path :: "string \<Rightarrow> string" where
  "header_path name = map (\<lambda>c. if tolower c = CHR ''_'' then CHR ''/'' else tolower c) name @ ''.h''"

text \<open>The directories above a path, each up to one of its slashes.\<close>

definition path_dirs :: "string \<Rightarrow> string list" where
  "path_dirs p = map (\<lambda>i. take i p) (filter (\<lambda>i. p ! i = CHR ''/'') [0..<length p])"

fun make_dirs :: "'w disk \<Rightarrow> string list \<Rightarrow> 'w \<Rightarrow> bool \<times> 'w" where
  "make_dirs D [] w = (True, w)"
| "make_dirs D (p # ps) w = (if d_stat D p w then make_dirs D ps w
     else case d_mkdir D p w of (ok, w) \<Rightarrow> if ok then make_dirs D ps w else (False, w))"

definition touch :: "'w disk \<Rightarrow> string \<Rightarrow> 'w \<Rightarrow> bool \<times> 'w" where
  "touch D fp w = (case d_open D fp w of
     (Open_ok, w) \<Rightarrow> (True, w)
   | (Open_error, w) \<Rightarrow> (False, w)
   | (Open_enoent, w) \<Rightarrow> (case make_dirs D (path_dirs fp) w of
       (False, w) \<Rightarrow> (False, w)
     | (True, w) \<Rightarrow> (case d_open D fp w of (x, w) \<Rightarrow> (x = Open_ok, w))))"

text \<open>Whether the value of the symbol differs from the one in \<^verbatim>\<open>auto.conf\<close>.\<close>

definition value_changed :: "calc \<Rightarrow> sym \<Rightarrow> kconf \<Rightarrow> (bool \<times> kconf) option" where
  "value_changed cv s k =
     (let x = k_sym k s; ty = s_type x in
      if SYMBOL_AUTO \<in> s_flags x \<or> s_name x = None then Some (False, k)
      else if SYMBOL_WRITE \<in> s_flags x then
        (if SYMBOL_DEF_AUTO \<in> s_flags x then
           (if ty = S_BOOLEAN \<or> ty = S_TRISTATE then
              Some (sym_get_tristate_value x \<noteq> sv_tri (s_def x S_DEF_AUTO), k)
            else if ty = S_STRING \<or> ty = S_HEX \<or> ty = S_INT then do {
              (v, k) \<leftarrow> sym_get_string_value cv s k;
              old \<leftarrow> cval_string (sv_val (s_def (k_sym k s) S_DEF_AUTO));
              Some (strcmp v old \<noteq> 0, k) }
            else Some (True, k))
         else if ty = S_BOOLEAN \<or> ty = S_TRISTATE then Some (sym_get_tristate_value x \<noteq> tri_no, k)
         else Some (True, k))
      else Some (SYMBOL_DEF_AUTO \<in> s_flags x, k))"

text \<open>The loop; the headers that were touched, and whether it went through to the end.\<close>

fun split_symbols :: "calc \<Rightarrow> 'w disk \<Rightarrow> sym list \<Rightarrow> kconf \<Rightarrow> 'w \<Rightarrow> (bool \<times> string list \<times> kconf \<times> 'w) option" where
  "split_symbols cv D [] k w = Some (True, [], k, w)"
| "split_symbols cv D (s # ss) k w = do {
     k \<leftarrow> cv s k;
     (changed, k) \<leftarrow> value_changed cv s k;
     if \<not> changed then split_symbols cv D ss k w
     else do {
       name \<leftarrow> s_name (k_sym k s);
       fp \<leftarrow> path_buf (header_path name);
       case touch D fp w of
         (False, w) \<Rightarrow> Some (False, [], k, w)
       | (True, w) \<Rightarrow> do {
           (done_all, paths, k, w) \<leftarrow> split_symbols cv D ss k w;
           Some (done_all, fp # paths, k, w) } } }"

definition conf_get_autoconfig_name :: "cenv \<Rightarrow> string option" where
  "conf_get_autoconfig_name e = e_getenv e ''KCONFIG_AUTOCONFIG''"

text \<open>Without the name of \<^verbatim>\<open>auto.conf\<close> the copy of the name reads through NULL.\<close>

definition conf_split_config :: "calc \<Rightarrow> string \<Rightarrow> cenv \<Rightarrow> sym option \<Rightarrow> 'w disk \<Rightarrow> reader \<Rightarrow> 'w \<Rightarrow>
    (nat \<times> string list \<times> reader \<times> 'w) option" where
  "conf_split_config cv pre e dl D r w = do {
     name \<leftarrow> conf_get_autoconfig_name e;
     (err, r) \<leftarrow> conf_read_simple cv pre e dl (Some name) S_DEF_AUTO r;
     let opwd = d_getcwd D w;
     case d_chdir D (dirname name) w of
       (False, w) \<Rightarrow> Some (1, [], r, w)
     | (True, w) \<Rightarrow> do {
         (done_all, paths, k, w) \<leftarrow> split_symbols cv D (for_all_symbols (r_conf r)) (r_conf r) w;
         let (back, w) = (case opwd of Some d \<Rightarrow> d_chdir D d w | None \<Rightarrow> (False, w));
         Some (if done_all \<and> back then 0 else 1, paths, on_kconf (\<lambda>_. k) r, w) } }"

section \<open>\<^verbatim>\<open>file_write_dep\<close>\<close>

definition TAB :: char where "TAB = CHR 0x09"

text \<open>\<open>fls\<close> is the list of the files that were read, without those of which it is the list.\<close>

fun dep_files :: "string list \<Rightarrow> string" where
  "dep_files [] = []"
| "dep_files (f # fls) = [TAB] @ f @ (if fls \<noteq> [] then '' '' @ [BACKSLASH] else []) @ [LF] @ dep_files fls"

fun dep_envs :: "cenv \<Rightarrow> string \<Rightarrow> kconf \<Rightarrow> sym list \<Rightarrow> string option" where
  "dep_envs e auto k [] = Some []"
| "dep_envs e auto k (s # ss) = do {
     p \<leftarrow> sym_get_env_prop k s;
     out \<leftarrow> (case prop_get_symbol k p of
         None \<Rightarrow> Some []
       | Some x \<Rightarrow> do {
           n \<leftarrow> s_name (k_sym k x);
           let v = (case e_getenv e n of Some v \<Rightarrow> v | None \<Rightarrow> []);
           Some (''ifneq '' @ [QUOTE] @ ''$('' @ n @ '')'' @ [QUOTE] @ '' '' @ [QUOTE] @ v @ [QUOTE] @ [LF] @
             auto @ '': FORCE'' @ [LF] @ ''endif'' @ [LF]) });
     rest \<leftarrow> dep_envs e auto k ss;
     Some (out @ rest) }"

definition file_write_dep :: "cenv \<Rightarrow> files \<Rightarrow> string list \<Rightarrow> ktab \<Rightarrow> string option \<Rightarrow> (nat \<times> fs_op list) option" where
  "file_write_dep e fs fls t name = do {
     let name = (case name of Some n \<Rightarrow> n | None \<Rightarrow> ''.kconfig.d'');
     conf \<leftarrow> path_buf (conf_get_configname e);
     let dir = (case split_dir conf of Some (d, b) \<Rightarrow> d | None \<Rightarrow> []);
     tmp \<leftarrow> path_buf (dir @ ''..config.tmp'');
     if \<not> fs_fopen fs tmp then Some (1, [])
     else do {
       auto \<leftarrow> conf_get_autoconfig_name e;
       envs \<leftarrow> dep_envs e auto (t_conf t) (expr_list_for_each_sym (t_env_list t));
       new \<leftarrow> path_buf (dir @ name);
       Some (0, [Fs_write tmp (''deps_config := '' @ [BACKSLASH, LF] @ dep_files fls @
           [LF] @ auto @ '': '' @ [BACKSLASH, LF, TAB] @ ''$(deps_config)'' @ [LF, LF] @ envs @
           [LF] @ ''$(deps_config): ;'' @ [LF]), Fs_rename tmp new]) } }"

section \<open>\<^verbatim>\<open>conf_write_autoconf\<close>\<close>

text \<open>The texts of the three files.\<close>

fun write_three :: "calc \<Rightarrow> string \<Rightarrow> sym list \<Rightarrow> string \<times> string \<times> string \<Rightarrow> kconf \<Rightarrow>
    ((string \<times> string \<times> string) \<times> kconf) option" where
  "write_three cv pre [] txt k = Some (txt, k)"
| "write_three cv pre (s # ss) txt k = do {
     k \<leftarrow> cv s k;
     if \<not> has_flag k s SYMBOL_WRITE \<or> s_name (k_sym k s) = None then write_three cv pre ss txt k
     else do {
       (a, k) \<leftarrow> conf_write_symbol cv pre kconfig_printer_cb True s k;
       (b, k) \<leftarrow> conf_write_symbol cv pre tristate_printer_cb True s k;
       (c, k) \<leftarrow> conf_write_symbol cv pre header_printer_cb False s k;
       write_three cv pre ss (fst txt @ a, fst (snd txt) @ b, snd (snd txt) @ c) k } }"

text \<open>Renaming one after the other up to the first failure.\<close>

fun rename_each :: "files \<Rightarrow> (string \<times> string) list \<Rightarrow> nat \<times> fs_op list" where
  "rename_each fs [] = (0, [])"
| "rename_each fs ((a, b) # rs) = (if fs_rename fs a b
     then (case rename_each fs rs of (res, ops) \<Rightarrow> (res, Fs_rename a b # ops)) else (1, [Fs_rename a b]))"

definition target :: "cenv \<Rightarrow> string \<Rightarrow> string \<Rightarrow> string" where
  "target e var dflt = (case e_getenv e var of Some n \<Rightarrow> n | None \<Rightarrow> dflt)"

text \<open>The three files under their temporary names, and then renamed.\<close>

definition write_generated :: "calc \<Rightarrow> string \<Rightarrow> cenv \<Rightarrow> files \<Rightarrow> string \<Rightarrow> kconf \<Rightarrow> (nat \<times> fs_op list \<times> kconf) option" where
  "write_generated cv pre e fs dir k = do {
     out \<leftarrow> path_buf (dir @ ''.tmpconfig'');
     if \<not> fs_fopen fs out then Some (1, [], k)
     else do {
       tri \<leftarrow> path_buf (dir @ ''.tmpconfig_tristate'');
       if \<not> fs_fopen fs tri then Some (1, [Fs_write out []], k)
       else do {
         hdr \<leftarrow> path_buf (dir @ ''.tmpconfig.h'');
         if \<not> fs_fopen fs hdr then Some (1, [Fs_write out [], Fs_write tri []], k)
         else do {
           a \<leftarrow> conf_write_heading kconfig_printer_cb k;
           b \<leftarrow> conf_write_heading tristate_printer_cb k;
           c \<leftarrow> conf_write_heading header_printer_cb k;
           ((a, b, c), k) \<leftarrow> write_three cv pre (for_all_symbols k) (a, b, c) k;
           auto \<leftarrow> conf_get_autoconfig_name e;
           let (res, ops) = rename_each fs [
             (hdr, target e ''KCONFIG_AUTOHEADER'' ''include/generated/autoconf.h''),
             (tri, target e ''KCONFIG_TRISTATE'' ''include/config/tristate.conf''),
             (out, auto)];
           Some (res, [Fs_write out a, Fs_write tri b, Fs_write hdr c] @ ops, k) } } } }"

definition conf_write_autoconf :: "calc \<Rightarrow> string \<Rightarrow> cenv \<Rightarrow> files \<Rightarrow> 'w disk \<Rightarrow> string list \<Rightarrow> sym option \<Rightarrow> reader \<Rightarrow> 'w \<Rightarrow>
    (nat \<times> string list \<times> fs_op list \<times> reader \<times> 'w) option" where
  "conf_write_autoconf cv pre e fs D fls dl r w = do {
     conf \<leftarrow> path_buf (conf_get_configname e);
     let dir = (case split_dir conf of Some (d, b) \<Rightarrow> d | None \<Rightarrow> []);
     k \<leftarrow> sym_clear_all_valid cv (r_conf r);
     let r = on_kconf (\<lambda>_. k) r;
     cmd \<leftarrow> path_buf (dir @ ''.config.cmd'');
     (dep, deps) \<leftarrow> file_write_dep e fs fls (r_tab r) (Some cmd);
     (res, paths, r, w) \<leftarrow> conf_split_config cv pre e dl D r w;
     if res \<noteq> 0 then Some (1, paths, deps, r, w)
     else do {
       (res, ops, k) \<leftarrow> write_generated cv pre e fs dir (r_conf r);
       Some (res, paths, deps @ ops, on_kconf (\<lambda>_. k) r, w) } }"

section \<open>Which headers are touched\<close>

text \<open>What \<^verbatim>\<open>auto.conf\<close> has for a symbol, and what it will have; n is not written.\<close>

definition is_tri :: "kconf \<Rightarrow> sym \<Rightarrow> bool" where
  "is_tri k s \<longleftrightarrow> s_type (k_sym k s) = S_BOOLEAN \<or> s_type (k_sym k s) = S_TRISTATE"

definition new_value :: "kconf \<Rightarrow> sym \<Rightarrow> saved option" where
  "new_value k s = (if \<not> has_flag k s SYMBOL_WRITE then None
     else if is_tri k s then
       (if sv_tri (s_curr (k_sym k s)) = tri_no then None else Some (SavedTri (sv_tri (s_curr (k_sym k s)))))
     else Some (SavedStr (raw_string k s)))"

definition old_value :: "kconf \<Rightarrow> sym \<Rightarrow> saved option" where
  "old_value k s = (if \<not> has_flag k s SYMBOL_DEF_AUTO then None
     else if is_tri k s then Some (SavedTri (sv_tri (s_def (k_sym k s) S_DEF_AUTO)))
     else case sv_val (s_def (k_sym k s) S_DEF_AUTO) of VStr v \<Rightarrow> Some (SavedStr v) | _ \<Rightarrow> None)"

definition changed :: "kconf \<Rightarrow> sym \<Rightarrow> bool" where
  "changed k s \<longleftrightarrow> \<not> has_flag k s SYMBOL_AUTO \<and> s_name (k_sym k s) \<noteq> None \<and> new_value k s \<noteq> old_value k s"

text \<open>What reading \<^verbatim>\<open>auto.conf\<close> stores: no n, and strings for the other types.\<close>

definition auto_ok :: "kconf \<Rightarrow> sym \<Rightarrow> bool" where
  "auto_ok k s \<longleftrightarrow> s_type (k_sym k s) \<noteq> S_OTHER \<and> s_type (k_sym k s) \<noteq> S_UNKNOWN \<and>
     (has_flag k s SYMBOL_DEF_AUTO \<longrightarrow>
       (if is_tri k s then sv_tri (s_def (k_sym k s) S_DEF_AUTO) \<noteq> tri_no
        else \<exists>v. sv_val (s_def (k_sym k s) S_DEF_AUTO) = VStr v))"

lemma value_changed_spec:
  assumes cv: "\<forall>s k. has_flag k s SYMBOL_VALID \<longrightarrow> cv s k = Some k" and ev: "evaluated k" and ok: "auto_ok k s"
  shows "value_changed cv s k = Some (changed k s, k)"
proof -
  have str: "sym_get_string_value cv s k = Some (raw_string k s, k)" if "\<not> is_tri k s"
    using evaluated_string(2) [OF cv ev, of s] that by (simp add: string_value_def is_tri_def)
  show ?thesis
    using ok str
    by (cases "s_type (k_sym k s)"; cases "s_name (k_sym k s)")
      (auto simp: value_changed_def changed_def new_value_def old_value_def auto_ok_def is_tri_def has_flag_def
        sym_get_tristate_value_def Let_def)
qed

definition headers :: "kconf \<Rightarrow> sym list \<Rightarrow> string list" where
  "headers k ss = map (\<lambda>s. header_path (the (s_name (k_sym k s)))) (filter (changed k) ss)"


section \<open>\<^verbatim>\<open>auto.conf\<close> comes last\<close>

text \<open>What a call leaves on the disk, when a renaming fails as the answer says.\<close>

definition fs_run :: "files \<Rightarrow> fs_op \<Rightarrow> (string \<Rightarrow> string option) \<Rightarrow> string \<Rightarrow> string option" where
  "fs_run fs p disk = (case p of Fs_rename a b \<Rightarrow> if fs_rename fs a b then fs_effect p disk else disk | _ \<Rightarrow> fs_effect p disk)"

fun op_names :: "fs_op \<Rightarrow> string set" where
  "op_names (Fs_write a txt) = {a}"
| "op_names (Fs_rename a b) = {a, b}"

lemma fs_run_other: "x \<notin> op_names p \<Longrightarrow> fs_run fs p disk x = disk x"
  by (cases p) (auto simp: fs_run_def split: option.split)

lemma fs_run_others: "\<forall>p \<in> set ops. x \<notin> op_names p \<Longrightarrow> fold (fs_run fs) ops disk x = disk x"
  by (induction ops arbitrary: disk) (auto simp: fs_run_other)

lemma fs_run_move: "fs_rename fs a b \<Longrightarrow> disk a = Some txt \<Longrightarrow> fs_run fs (Fs_rename a b) disk b = Some txt"
  by (simp add: fs_run_def)

lemma write_dep_names:
  assumes "file_write_dep e fs fls t (Some name) = Some (res, ops)" "p \<in> set ops"
  shows "\<exists>dir. op_names p \<subseteq> {dir @ ''..config.tmp'', dir @ name} \<and>
    dir = (case split_dir (conf_get_configname e) of Some (d, b) \<Rightarrow> d | None \<Rightarrow> [])"
  using assms by (auto simp: file_write_dep_def Let_def path_buf_def split: if_splits elim!: bind_eq_SomeE)

text \<open>The names of the files of \<^verbatim>\<open>conf_write_autoconf\<close> are all different.\<close>

definition header_file :: "cenv \<Rightarrow> string" where
  "header_file e = target e ''KCONFIG_AUTOHEADER'' ''include/generated/autoconf.h''"

definition tristate_file :: "cenv \<Rightarrow> string" where
  "tristate_file e = target e ''KCONFIG_TRISTATE'' ''include/config/tristate.conf''"

definition names_apart :: "cenv \<Rightarrow> string \<Rightarrow> string \<Rightarrow> bool" where
  "names_apart e dir auto \<longleftrightarrow> distinct [header_file e, tristate_file e, auto, dir @ ''.tmpconfig'',
     dir @ ''.tmpconfig_tristate'', dir @ ''.tmpconfig.h''] \<and>
     auto \<notin> {dir @ ''..config.tmp'', dir @ dir @ ''.config.cmd''}"

lemma generated_commits:
  assumes "write_generated cv pre e fs dir k = Some (res, ops, k')" "conf_get_autoconfig_name e = Some auto" "names_apart e dir auto"
  shows "(res \<noteq> 0 \<longrightarrow> fold (fs_run fs) ops disk auto = disk auto) \<and>
    (res = 0 \<longrightarrow> (\<exists>a b c heads. write_three cv pre (for_all_symbols k) heads k = Some ((a, b, c), k') \<and>
       fold (fs_run fs) ops disk auto = Some a \<and> fold (fs_run fs) ops disk (tristate_file e) = Some b \<and>
       fold (fs_run fs) ops disk (header_file e) = Some c))"
proof -
  let ?out = "dir @ ''.tmpconfig''" and ?tri = "dir @ ''.tmpconfig_tristate''" and ?hdr = "dir @ ''.tmpconfig.h''"
  note apart = assms(3) [unfolded names_apart_def]
  have "ops \<in> {[], [Fs_write ?out []], [Fs_write ?out [], Fs_write ?tri []]} \<and> res \<noteq> 0 \<or>
    (\<exists>a b c heads rs. write_three cv pre (for_all_symbols k) heads k = Some ((a, b, c), k') \<and>
      rename_each fs [(?hdr, header_file e), (?tri, tristate_file e), (?out, auto)] = (res, rs) \<and>
      ops = [Fs_write ?out a, Fs_write ?tri b, Fs_write ?hdr c] @ rs)"
    using assms(1,2) unfolding write_generated_def header_file_def tristate_file_def
    by (auto simp: path_buf_def Let_def simp del: rename_each.simps split: if_splits prod.splits elim!: bind_eq_SomeE) blast+
  then show ?thesis
  proof
    assume "ops \<in> {[], [Fs_write ?out []], [Fs_write ?out [], Fs_write ?tri []]} \<and> res \<noteq> 0"
    then show ?thesis using apart by (auto simp: fs_run_other)
  next
    assume "\<exists>a b c heads rs. write_three cv pre (for_all_symbols k) heads k = Some ((a, b, c), k') \<and>
      rename_each fs [(?hdr, header_file e), (?tri, tristate_file e), (?out, auto)] = (res, rs) \<and>
      ops = [Fs_write ?out a, Fs_write ?tri b, Fs_write ?hdr c] @ rs"
    then obtain a b c heads rs where w: "write_three cv pre (for_all_symbols k) heads k = Some ((a, b, c), k')"
      and rs: "rename_each fs [(?hdr, header_file e), (?tri, tristate_file e), (?out, auto)] = (res, rs)"
      and ops: "ops = [Fs_write ?out a, Fs_write ?tri b, Fs_write ?hdr c] @ rs" by blast
    show ?thesis
    proof (cases "res = 0")
      case True
      then have "fold (fs_run fs) ops disk auto = Some a \<and> fold (fs_run fs) ops disk (tristate_file e) = Some b \<and>
          fold (fs_run fs) ops disk (header_file e) = Some c"
        using rs apart by (auto simp: ops fs_run_def split: if_splits)
      with w True show ?thesis by blast
    next
      case False
      then show ?thesis using rs apart by (auto simp: ops fs_run_def split: if_splits)
    qed
  qed
qed


section \<open>A sample\<close>

text \<open>FOO_BAR is new, BAZ has the value of \<^verbatim>\<open>auto.conf\<close>.\<close>

definition sample_split :: kconf where
  "sample_split = empty_conf\<lparr>
     k_sym := (\<lambda>s. case s of
         Sym i \<Rightarrow> (fresh_symbol (Some (if i = 0 then ''FOO_BAR'' else ''BAZ''))
             {SYMBOL_VALID, SYMBOL_WRITE, if i = 0 then SYMBOL_VALID else SYMBOL_DEF_AUTO})\<lparr>s_type := S_BOOLEAN,
           s_curr := \<lparr>sv_val = VNull, sv_tri = tri_yes\<rparr>, s_def := (\<lambda>_. \<lparr>sv_val = VNull, sv_tri = tri_yes\<rparr>)\<rparr>
       | _ \<Rightarrow> static_symbols s),
     k_modules_sym := Some symbol_yes, k_all := [Sym 0, Sym 1],
     k_prop := (\<lambda>_. null_property\<lparr>p_text := Some ''T''\<rparr>),
     k_menu := (\<lambda>_. null_menu)(0 := null_menu\<lparr>m_prompt := Some 0\<rparr>)\<rparr>"

definition sample_disk :: "unit disk" where
  "sample_disk = \<lparr>d_open = (\<lambda>_ w. (Open_ok, w)), d_stat = (\<lambda>_ _. True), d_mkdir = (\<lambda>_ w. (True, w)),
     d_chdir = (\<lambda>_ w. (True, w)), d_getcwd = (\<lambda>_. Some ''/'')\<rparr>"


definition auto_cenv :: cenv where
  "auto_cenv = sample_cenv\<lparr>e_getenv := (\<lambda>n. if n = ''KCONFIG_AUTOCONFIG'' then Some ''auto.conf'' else None)\<rparr>"

definition auto_reader :: reader where
  "auto_reader = two_reader\<lparr>r_tab := empty_tab\<lparr>t_conf := sample_split\<rparr>\<rparr>"


end
