(* ===== verification/Confnew.thy ===== *)
theory Confnew
  imports Confsplit
begin

text \<open>
  Values for the symbols that have none (the end of \<^verbatim>\<open>confdata.c\<close>), for the modes of
  \<^verbatim>\<open>conf\<close> that ask nothing. \<^verbatim>\<open>rand\<close> is an argument that takes and gives the state of
  the generator; the result \<open>Inl 1\<close> is \<^verbatim>\<open>exit(1)\<close>.
\<close>

section \<open>Probabilities\<close>

text \<open>\<^verbatim>\<open>strtol\<close> in base 10 with the rest of the string, kept in an \<^verbatim>\<open>int\<close>.\<close>

definition to_int :: "int \<Rightarrow> int" where
  "to_int v = (v + 0x80000000) mod 0x100000000 - 0x80000000"

definition strtol_end :: "string \<Rightarrow> string" where
  "strtol_end s =
     (let s1 = dropWhile isspace s;
          s2 = (if take 1 s1 = ''-'' \<or> take 1 s1 = ''+'' then drop 1 s1 else s1)
      in if s2 \<noteq> [] \<and> isdigit (hd s2) then dropWhile isdigit s2 else s)"

text \<open>At most three numbers; \<open>None\<close> is \<^verbatim>\<open>exit(1)\<close>.\<close>

fun read_probs :: "nat \<Rightarrow> string \<Rightarrow> int list option" where
  "read_probs 0 env = Some []"
| "read_probs (Suc i) env = (if env = [] then Some []
     else let tmp = to_int (strtoll 10 env); endp = strtol_end env in
       if 0 \<le> tmp \<and> tmp \<le> 100 then do {
         ps \<leftarrow> read_probs i (if take 1 endp = '':'' then drop 1 endp else endp);
         Some (tmp # ps) }
       else None)"

definition probabilities :: "string option \<Rightarrow> (int \<times> int \<times> int) option" where
  "probabilities env = do {
     p \<leftarrow> (case env of None \<Rightarrow> Some [] | Some s \<Rightarrow> read_probs 3 s);
     let (pby, pty, ptm) = (case p of
         [a] \<Rightarrow> (a, a - a div 2, a div 2)
       | [a, b] \<Rightarrow> (a + b, a, b)
       | [a, b, c] \<Rightarrow> (a, b, c)
       | _ \<Rightarrow> (50, 33, 33));
     if pty + ptm > 100 then None else Some (pby, pty, ptm) }"

section \<open>Random choices\<close>

type_synonym 'g rng = "'g \<Rightarrow> int \<times> 'g"

definition set_user_tri :: "sym \<Rightarrow> tristate \<Rightarrow> kconf \<Rightarrow> kconf" where
  "set_user_tri s t = upd_def S_DEF_USER s (sv_tri_update (\<lambda>_. t))"

fun random_values :: "sym \<Rightarrow> int \<Rightarrow> int \<Rightarrow> sym list \<Rightarrow> kconf \<Rightarrow> kconf" where
  "random_values c pick cnt [] k = k"
| "random_values c pick cnt (s # ss) k =
     (let k = (if pick = cnt then upd_def S_DEF_USER c (sv_val_update (\<lambda>_. VSym s)) (set_user_tri s tri_yes k)
               else set_user_tri s tri_no k);
          k = flag_off SYMBOL_VALID s (flag_on SYMBOL_DEF_USER s k)
      in random_values c pick (cnt + 1) ss k)"

text \<open>A choice without values is a division by zero: \<open>None\<close>.\<close>

definition randomize_choice_values :: "'g rng \<Rightarrow> sym \<Rightarrow> kconf \<Rightarrow> 'g \<Rightarrow> (bool \<times> kconf \<times> 'g) option" where
  "randomize_choice_values rand c k g =
     (if sv_tri (s_curr (k_sym k c)) \<noteq> tri_yes then Some (False, k, g)
      else do {
        p \<leftarrow> sym_get_choice_prop k c;
        let ss = choice_list k p;
        if ss = [] then None
        else do {
          let (x, g) = rand g;
          let k = random_values c (x mod int (length ss)) 0 ss k;
          Some (True, flag_off SYMBOL_VALID c (flag_on SYMBOL_DEF_USER c k), g) } })"

section \<open>All new symbols\<close>

datatype conf_def_mode = def_default | def_yes | def_mod | def_no | def_random

definition random_tri :: "int \<times> int \<times> int \<Rightarrow> symbol_type \<Rightarrow> int \<Rightarrow> tristate" where
  "random_tri pr ty cnt = (case pr of (pby, pty, ptm) \<Rightarrow>
     if ty = S_TRISTATE then (if cnt < pty then tri_yes else if cnt < pty + ptm then tri_mod else tri_no)
     else if cnt < pby then tri_yes else tri_no)"

text \<open>Whether there was something to set, the state and the generator.\<close>

type_synonym 'g setter = "bool \<times> kconf \<times> 'g"

definition is_new :: "kconf \<Rightarrow> sym \<Rightarrow> bool" where
  "is_new k s \<longleftrightarrow> \<not> sym_has_value (k_sym k s) \<and> \<not> has_flag k s SYMBOL_VALID \<and>
     (sym_get_type k s = S_BOOLEAN \<or> sym_get_type k s = S_TRISTATE)"

definition set_new :: "'g rng \<Rightarrow> conf_def_mode \<Rightarrow> int \<times> int \<times> int \<Rightarrow> sym \<Rightarrow> 'g setter \<Rightarrow> 'g setter" where
  "set_new rand mode pr s w = (case w of (has_changed, k, g) \<Rightarrow>
     if \<not> is_new k s then w
     else case mode of
       def_default \<Rightarrow> (True, k, g)
     | def_yes \<Rightarrow> (True, flag_on SYMBOL_DEF_USER s (set_user_tri s tri_yes k), g)
     | def_mod \<Rightarrow> (True, flag_on SYMBOL_DEF_USER s (set_user_tri s tri_mod k), g)
     | def_no \<Rightarrow> (True, flag_on SYMBOL_DEF_USER s (set_user_tri s tri_no k), g)
     | def_random \<Rightarrow> (case rand g of (x, g) \<Rightarrow>
         let k' = set_user_tri s (random_tri pr (s_type (k_sym k s)) (x mod 100)) k
         in (True, if sym_is_choice (k_sym k s) then k' else flag_on SYMBOL_DEF_USER s k', g)))"

definition need_choice_values :: "sym \<Rightarrow> kconf \<Rightarrow> kconf" where
  "need_choice_values s k = (let x = k_sym k s in
     if sym_is_choice x \<and> \<not> sym_has_value x \<or> sym_is_choice_value x
     then flag_on SYMBOL_NEED_SET_CHOICE_VALUES s k else k)"

fun set_choices :: "calc \<Rightarrow> 'g rng \<Rightarrow> conf_def_mode \<Rightarrow> sym list \<Rightarrow> 'g setter \<Rightarrow> 'g setter option" where
  "set_choices cv rand mode [] w = Some w"
| "set_choices cv rand mode (c # cs) w = (case w of (has_changed, k, g) \<Rightarrow>
     if sym_has_value (k_sym k c) \<or> \<not> sym_is_choice (k_sym k c) then set_choices cv rand mode cs w
     else do {
       k \<leftarrow> cv c k;
       w \<leftarrow> (if mode = def_random then randomize_choice_values rand c k g
             else do { k \<leftarrow> set_all_choice_values c k; Some (True, k, g) });
       set_choices cv rand mode cs w })"

definition conf_set_all_new_symbols :: "calc \<Rightarrow> cenv \<Rightarrow> 'g rng \<Rightarrow> conf_def_mode \<Rightarrow> kconf \<Rightarrow> 'g \<Rightarrow>
    (nat + 'g setter) option" where
  "conf_set_all_new_symbols cv e rand mode k g =
     (case (if mode = def_random then probabilities (e_getenv e ''KCONFIG_PROBABILITY'') else Some (50, 33, 33)) of
        None \<Rightarrow> Some (Inl 1)
      | Some pr \<Rightarrow> do {
          let (has_changed, k, g) = fold (set_new rand mode pr) (for_all_symbols k) (False, k, g);
          k \<leftarrow> sym_clear_all_valid cv k;
          let k = (if mode \<noteq> def_random then fold need_choice_values (for_all_symbols k) k else k);
          w \<leftarrow> set_choices cv rand mode (for_all_symbols k) (has_changed, k, g);
          Some (Inr w) })"

section \<open>The probabilities are percentages\<close>

lemma read_probs_range: "read_probs n env = Some ps \<Longrightarrow> set ps \<subseteq> {0..100} \<and> length ps \<le> n"
proof (induction n arbitrary: env ps)
  case (Suc n)
  then show ?case by (auto simp: Let_def split: if_splits elim!: bind_eq_SomeE dest!: Suc.IH)
qed simp

text \<open>C18   Whatever KCONFIG_PROBABILITY holds, the program ends or goes on with percentages: the
  probability of y for a bool and those of y and m for a tristate are between 0 and 100, and the
  two of a tristate are at most 100 together. A random number then gives each value of a tristate
  exactly the share it is to have.\<close>

theorem probabilities_percent:
  assumes "probabilities env = Some (pby, pty, ptm)"
  shows "0 \<le> pby \<and> pby \<le> 100 \<and> 0 \<le> pty \<and> 0 \<le> ptm \<and> pty + ptm \<le> 100 \<and>
    card {x \<in> {0..<100}. random_tri (pby, pty, ptm) S_TRISTATE x = tri_yes} = nat pty \<and>
    card {x \<in> {0..<100}. random_tri (pby, pty, ptm) S_TRISTATE x = tri_mod} = nat ptm \<and>
    card {x \<in> {0..<100}. random_tri (pby, pty, ptm) S_BOOLEAN x = tri_yes} = nat pby"
proof -
  obtain ps where ps: "(case env of None \<Rightarrow> Some [] | Some s \<Rightarrow> read_probs 3 s) = Some ps"
    and r: "0 \<le> pby \<and> pby \<le> 100 \<and> 0 \<le> pty \<and> 0 \<le> ptm \<and> pty + ptm \<le> 100"
  proof -
    from assms obtain ps where ps: "(case env of None \<Rightarrow> Some [] | Some s \<Rightarrow> read_probs 3 s) = Some ps"
      by (auto simp: probabilities_def elim!: bind_eq_SomeE)
    then have "set ps \<subseteq> {0..100}" using read_probs_range by (auto split: option.splits)
    then have "0 \<le> pby \<and> pby \<le> 100 \<and> 0 \<le> pty \<and> 0 \<le> ptm \<and> pty + ptm \<le> 100"
      using assms ps by (auto simp: probabilities_def split: if_splits list.splits)
    with ps that show thesis by blast
  qed
  have "{x \<in> {0..<100}. random_tri (pby, pty, ptm) S_TRISTATE x = tri_yes} = {0..<pty}"
    "{x \<in> {0..<100}. random_tri (pby, pty, ptm) S_TRISTATE x = tri_mod} = {pty..<pty + ptm}"
    "{x \<in> {0..<100}. random_tri (pby, pty, ptm) S_BOOLEAN x = tri_yes} = {0..<pby}"
    using r by (auto simp: random_tri_def split: if_splits)
  with r show ?thesis by simp
qed

theorem probabilities_percent_witness:
  "probabilities (Some ''30:20'') = Some (50, 30, 20) \<and> card {x \<in> {0..<100}. random_tri (50, 30, 20) S_TRISTATE x = tri_mod} = 20"
proof -
  have p: "probabilities (Some ''30:20'') = Some (50, 30, 20)" by code_simp
  with probabilities_percent [OF p] show ?thesis by simp
qed

section \<open>New symbols get the value of the mode\<close>

fun mode_tri :: "conf_def_mode \<Rightarrow> tristate" where
  "mode_tri def_yes = tri_yes"
| "mode_tri def_mod = tri_mod"
| "mode_tri m = tri_no"

lemma set_new_at:
  assumes "mode \<in> {def_yes, def_mod, def_no}"
  shows "set_new rand mode pr s (h, k, g) = (h \<or> is_new k s,
    if is_new k s then flag_on SYMBOL_DEF_USER s (set_user_tri s (mode_tri mode) k) else k, g)"
  using assms by (auto simp: set_new_def)

lemma is_new_other: "s \<noteq> x \<Longrightarrow> is_new (flag_on SYMBOL_DEF_USER s (set_user_tri s t k)) x = is_new k x"
  by (simp add: is_new_def set_user_tri_def upd_def_def upd_defs sym_get_type_def has_flag_def)

text \<open>C17   The modes that set every new symbol to y, m or n: the loop gives the value of the mode, as the
  user's value, to exactly the bool and tristate symbols that have no value of the user and were
  not calculated, leaves all others alone, and tells whether there was such a symbol.\<close>

theorem new_symbols_set:
  assumes "mode \<in> {def_yes, def_mod, def_no}" "distinct ss" "fold (set_new rand mode pr) ss (False, k, g) = (h, k', g')"
  shows "h = (\<exists>s \<in> set ss. is_new k s) \<and> g' = g \<and> k_modules_val k' = k_modules_val k \<and> (\<forall>x. k_sym k' x =
    (if x \<in> set ss \<and> is_new k x then (k_sym k x)\<lparr>s_flags := insert SYMBOL_DEF_USER (s_flags (k_sym k x)),
        s_def := (s_def (k_sym k x))(S_DEF_USER := (s_def (k_sym k x) S_DEF_USER)\<lparr>sv_tri := mode_tri mode\<rparr>)\<rparr>
     else k_sym k x))"
proof -
  have "h = (h0 \<or> (\<exists>s \<in> set ss. is_new k s)) \<and> g' = g \<and> k_modules_val k' = k_modules_val k \<and> (\<forall>x. k_sym k' x =
    (if x \<in> set ss \<and> is_new k x then (k_sym k x)\<lparr>s_flags := insert SYMBOL_DEF_USER (s_flags (k_sym k x)),
        s_def := (s_def (k_sym k x))(S_DEF_USER := (s_def (k_sym k x) S_DEF_USER)\<lparr>sv_tri := mode_tri mode\<rparr>)\<rparr>
     else k_sym k x))" if "fold (set_new rand mode pr) ss (h0, k, g) = (h, k', g')" for h0
    using assms(2) that
  proof (induction ss arbitrary: h0 k)
    case (Cons s ss)
    let ?k = "if is_new k s then flag_on SYMBOL_DEF_USER s (set_user_tri s (mode_tri mode) k) else k"
    have "fold (set_new rand mode pr) ss (h0 \<or> is_new k s, ?k, g) = (h, k', g')"
      using Cons.prems(2) by (simp add: set_new_at [OF assms(1)])
    note ih = Cons.IH [OF _ this]
    have "is_new ?k x = is_new k x" if "x \<in> set ss" for x
      using that Cons.prems(1) is_new_other [of s x] by auto
    then show ?case
      using ih Cons.prems(1) by (auto simp: set_user_tri_def upd_def_def upd_defs)
  qed auto
  from this [OF assms(3)] show ?thesis by simp
qed

definition sample_new :: kconf where
  "sample_new = empty_conf\<lparr>k_sym := (\<lambda>_. (fresh_symbol (Some ''A'') {})\<lparr>s_type := S_BOOLEAN\<rparr>)\<rparr>"

theorem new_symbols_set_witness:
  "\<exists>k'. fold (set_new (\<lambda>g. (0, g)) def_mod (50, 33, 33)) [Sym 1, Sym 2] (False, sample_new, ()) = (True, k', ()) \<and>
     has_flag k' (Sym 1) SYMBOL_DEF_USER"
proof -
  let ?w = "fold (set_new (\<lambda>g. (0, g)) def_mod (50, 33, 33)) [Sym 1, Sym 2] (False, sample_new, ())"
  have d: "distinct [Sym 1, Sym 2]" by simp
  have n: "is_new sample_new (Sym 1)" by code_simp
  from new_symbols_set [OF _ d, of def_mod "\<lambda>g. (0, g)" "(50, 33, 33)" sample_new "()" "fst ?w" "fst (snd ?w)" "snd (snd ?w)"] n
  show ?thesis by (cases ?w) (auto simp: has_flag_def)
qed

end
