(* ===== verification/Conf.thy ===== *)
theory Conf
  imports Confnew
begin

text \<open>
  The line-oriented program (\<^verbatim>\<open>conf.c\<close>): asking for values, walking through the menus, and
  the modes of the program. The input is the rest of standard input, the output what is written
  to standard output; messages on standard error are left out. \<open>Inl\<close> is an exit status;
  \<open>None\<close> is a read through NULL, outside a buffer, or out of fuel.
\<close>

section \<open>The state of the program\<close>

datatype input_mode = oldaskconfig | silentoldconfig | oldconfig | allnoconfig | allyesconfig | allmodconfig
  | alldefconfig | randconfig | defconfig | savedefconfig | listnewconfig | olddefconfig

text \<open>\<open>u_line\<close> is the buffer \<^verbatim>\<open>line\<close> up to its NUL, \<open>u_tty\<close> and
  \<open>u_valid\<close> are \<^verbatim>\<open>tty_stdio\<close> and \<^verbatim>\<open>valid_stdin\<close>.\<close>

record ui =
  u_k :: kconf
  u_in :: string
  u_out :: string
  u_line :: string
  u_indent :: nat
  u_cnt :: nat
  u_root :: "mid option"
  u_mode :: input_mode
  u_tty :: bool
  u_valid :: bool

text \<open>The calculation, the prefix CONFIG_ and the fuel for questions about menus.\<close>

record conf_env =
  ce_cv :: calc
  ce_pre :: string
  ce_fuel :: nat

type_synonym conf_outcome = "(nat + ui) option"

definition andthen :: "(nat + 'a) option \<Rightarrow> ('a \<Rightarrow> (nat + 'b) option) \<Rightarrow> (nat + 'b) option" where
  "andthen m f = (case m of None \<Rightarrow> None | Some (Inl c) \<Rightarrow> Some (Inl c) | Some (Inr x) \<Rightarrow> f x)"

definition print :: "string \<Rightarrow> ui \<Rightarrow> ui" where
  "print s u = u\<lparr>u_out := u_out u @ s\<rparr>"

text \<open>\<^verbatim>\<open>"%*s", indent - 1, ""\<close>\<close>

definition spaces :: "ui \<Rightarrow> string" where
  "spaces u = replicate (u_indent u - 1) (CHR '' '')"

definition print_help :: "conf_env \<Rightarrow> mid \<Rightarrow> ui \<Rightarrow> ui option" where
  "print_help c m u = do {
     (help, k) \<leftarrow> menu_get_ext_help (ce_pre c) (ce_cv c) (ce_fuel c) m (str_new, u_k u);
     Some (print ([LF] @ g_s help @ [LF]) (u\<lparr>u_k := k\<rparr>)) }"

definition strip :: "string \<Rightarrow> string" where
  "strip s = rev (dropWhile isspace (rev (dropWhile isspace s)))"

section \<open>Input\<close>

text \<open>\<^verbatim>\<open>fgets\<close>: at most \<open>n\<close> characters, up to a newline.\<close>

fun fgets :: "nat \<Rightarrow> string \<Rightarrow> string \<times> string" where
  "fgets 0 s = ([], s)"
| "fgets (Suc n) [] = ([], [])"
| "fgets (Suc n) (c # s) = (if c = LF then ([c], s) else case fgets n s of (l, r) \<Rightarrow> (c # l, r))"

text \<open>At the end of the input the buffer stays as it is.\<close>

definition xfgets :: "ui \<Rightarrow> ui" where
  "xfgets u = (if u_in u = [] then u else case fgets 127 (u_in u) of (l, r) \<Rightarrow>
     u\<lparr>u_line := takeWhile (\<lambda>c. c \<noteq> NUL) l, u_in := r\<rparr>)"

text \<open>Whether the program ends because its input is not a terminal.\<close>

definition check_stdin :: "ui \<Rightarrow> bool" where
  "check_stdin u \<longleftrightarrow> \<not> u_valid u"

section \<open>Values\<close>

definition conf_askvalue :: "sym \<Rightarrow> string \<Rightarrow> ui \<Rightarrow> nat + (bool \<times> ui)" where
  "conf_askvalue s dflt u =
     (let k = u_k u; ty = sym_get_type k s; update = (u_mode u = oldconfig \<or> u_mode u = silentoldconfig);
          u = (if \<not> sym_has_value (k_sym k s) then print ''(NEW) '' u else u);
          u = u\<lparr>u_line := [LF]\<rparr> in
      if \<not> sym_is_changable k s then Inr (False, print (dflt @ [LF]) u)
      else if update \<and> sym_has_value (k_sym k s) then Inr (False, print (dflt @ [LF]) u)
      else if update \<and> check_stdin u then Inl 1
      else if update \<or> u_mode u = oldaskconfig then
        (let u = xfgets u in Inr (True, if \<not> u_tty u then print [LF] u else u))
      else if ty = S_INT \<or> ty = S_HEX \<or> ty = S_STRING then Inr (True, print (dflt @ [LF]) u)
      else Inr (True, print (u_line u) u))"

text \<open>What the line means for a string: the value to set, or help.\<close>

definition string_answer :: "string \<Rightarrow> ui \<Rightarrow> (string option \<times> ui) option" where
  "string_answer dflt u =
     (let l = u_line u in
      if char_at l 0 = LF then Some (Some dflt, u)
      else if char_at l 0 = CHR ''?'' \<and> char_at l 1 = LF then Some (None, u)
      else if l = [] then None
      else Some (Some (butlast l), u\<lparr>u_line := butlast l\<rparr>))"

fun conf_string :: "conf_env \<Rightarrow> nat \<Rightarrow> mid \<Rightarrow> ui \<Rightarrow> conf_outcome" where
  "conf_string c 0 m u = None"
| "conf_string c (Suc n) m u = do {
     s \<leftarrow> m_sym (k_menu (u_k u) m);
     p \<leftarrow> m_prompt (k_menu (u_k u) m);
     t \<leftarrow> p_text (k_prop (u_k u) p);
     name \<leftarrow> s_name (k_sym (u_k u) s);
     (dflt, k) \<leftarrow> sym_get_string_value (ce_cv c) s (u_k u);
     let u = print (spaces u @ t @ '' ('' @ name @ '') ['' @ dflt @ ''] '') (u\<lparr>u_k := k\<rparr>);
     andthen (Some (conf_askvalue s dflt u)) (\<lambda>(ask, u).
       if \<not> ask then Some (Inr u)
       else do {
         (v, u) \<leftarrow> string_answer dflt u;
         case v of
           None \<Rightarrow> do { u \<leftarrow> print_help c m u; conf_string c n m u }
         | Some v \<Rightarrow> do {
             (ok, k) \<leftarrow> sym_set_string_value (ce_cv c) s v (u_k u);
             let u = u\<lparr>u_k := k\<rparr>;
             if ok then Some (Inr u) else conf_string c n m u } }) }"

text \<open>The stripped line of a bool or tristate.\<close>

datatype sym_answer = Set_to tristate | Help | Again

definition tri_answer :: "tristate \<Rightarrow> string \<Rightarrow> sym_answer" where
  "tri_answer oldval l =
     (let c = char_at l 0; rest = drop 1 l in
      if c = CHR ''n'' \<or> c = CHR ''N'' then (if rest = [] \<or> rest = ''o'' then Set_to tri_no else Again)
      else if c = CHR ''m'' \<or> c = CHR ''M'' then (if rest = [] then Set_to tri_mod else Again)
      else if c = CHR ''y'' \<or> c = CHR ''Y'' then (if rest = [] \<or> rest = ''es'' then Set_to tri_yes else Again)
      else if c = NUL then Set_to oldval
      else if c = CHR ''?'' then Help else Again)"

definition tri_prompt :: "kconf \<Rightarrow> sym \<Rightarrow> bool \<Rightarrow> string" where
  "tri_prompt k s has_help =
     (let oldval = sym_get_tristate_value (k_sym k s) in
      ''['' @ (case oldval of tri_no \<Rightarrow> ''N'' | tri_mod \<Rightarrow> ''M'' | tri_yes \<Rightarrow> ''Y'') @
      (if oldval \<noteq> tri_no \<and> sym_tristate_within_range k s tri_no then ''/n'' else []) @
      (if oldval \<noteq> tri_mod \<and> sym_tristate_within_range k s tri_mod then ''/m'' else []) @
      (if oldval \<noteq> tri_yes \<and> sym_tristate_within_range k s tri_yes then ''/y'' else []) @
      (if has_help then ''/?'' else []) @ ''] '')"

fun conf_sym :: "conf_env \<Rightarrow> nat \<Rightarrow> mid \<Rightarrow> ui \<Rightarrow> conf_outcome" where
  "conf_sym c 0 m u = None"
| "conf_sym c (Suc n) m u = do {
     s \<leftarrow> m_sym (k_menu (u_k u) m);
     p \<leftarrow> m_prompt (k_menu (u_k u) m);
     t \<leftarrow> p_text (k_prop (u_k u) p);
     let k = u_k u;
     let oldval = sym_get_tristate_value (k_sym k s);
     let u = print (spaces u @ t @ '' '' @ (case s_name (k_sym k s) of Some x \<Rightarrow> ''('' @ x @ '') '' | None \<Rightarrow> []) @
         tri_prompt k s (menu_has_help k m)) u;
     (dflt, k) \<leftarrow> sym_get_string_value (ce_cv c) s k;
     andthen (Some (conf_askvalue s dflt (u\<lparr>u_k := k\<rparr>))) (\<lambda>(ask, u).
       if \<not> ask then Some (Inr u)
       else let u = u\<lparr>u_line := strip (u_line u)\<rparr> in
         (case tri_answer oldval (u_line u) of
            Again \<Rightarrow> conf_sym c n m u
          | Help \<Rightarrow> do { u \<leftarrow> print_help c m u; conf_sym c n m u }
          | Set_to v \<Rightarrow> do {
              (ok, k) \<leftarrow> sym_set_tristate_value (ce_cv c) s v (u_k u);
              let u = u\<lparr>u_k := k\<rparr>;
              if ok then Some (Inr u) else do { u \<leftarrow> print_help c m u; conf_sym c n m u } })) }"

section \<open>Menus\<close>

definition visible :: "conf_env \<Rightarrow> mid \<Rightarrow> ui \<Rightarrow> (bool \<times> ui) option" where
  "visible c m u = do { (v, k) \<leftarrow> menu_is_visible (ce_cv c) (ce_fuel c) m (u_k u); Some (v, u\<lparr>u_k := k\<rparr>) }"

text \<open>A loop over the entries of a menu by their links.\<close>

fun each_entry :: "nat \<Rightarrow> (mid \<Rightarrow> ui \<Rightarrow> conf_outcome) \<Rightarrow> mid option \<Rightarrow> ui \<Rightarrow> conf_outcome" where
  "each_entry 0 f mo u = None"
| "each_entry (Suc n) f mo u = (case mo of None \<Rightarrow> Some (Inr u)
     | Some m \<Rightarrow> andthen (f m u) (\<lambda>u. each_entry n f (m_next (k_menu (u_k u) m)) u))"

text \<open>The entries of a choice with their numbers; the result is how many there are, and the number
  of the one that is set, 0 if none is.\<close>

fun choice_lines :: "conf_env \<Rightarrow> nat \<Rightarrow> sym option \<Rightarrow> mid option \<Rightarrow> nat \<times> nat \<Rightarrow> ui \<Rightarrow> ((nat \<times> nat) \<times> ui) option" where
  "choice_lines c 0 d mo cd u = None"
| "choice_lines c (Suc n) d mo cd u = (case mo of None \<Rightarrow> Some (cd, u)
     | Some m \<Rightarrow> do {
         (v, u) \<leftarrow> visible c m u;
         (cd, u) \<leftarrow> (if \<not> v then Some (cd, u)
           else do {
             t \<leftarrow> menu_get_prompt (u_k u) m;
             case m_sym (k_menu (u_k u) m) of
               None \<Rightarrow> Some (cd, print (spaces u @ ''* '' @ t @ [LF]) u)
             | Some s \<Rightarrow> (let cnt = fst cd + 1; x = k_sym (u_k u) s in
                 Some ((cnt, if Some s = d then cnt else snd cd),
                   print (spaces u @ (if Some s = d then ''>'' else '' '') @ '' '' @ print_lld (int cnt) @ ''. '' @ t @
                     (case s_name x of Some nm \<Rightarrow> '' ('' @ nm @ '')'' | None \<Rightarrow> []) @
                     (if \<not> sym_has_value x then '' (NEW)'' else []) @ [LF]) u)) });
         choice_lines c n d (m_next (k_menu (u_k u) m)) cd u })"

text \<open>The entry with the given number.\<close>

fun pick_entry :: "conf_env \<Rightarrow> nat \<Rightarrow> mid option \<Rightarrow> int \<Rightarrow> ui \<Rightarrow> (mid option \<times> ui) option" where
  "pick_entry c 0 mo cnt u = None"
| "pick_entry c (Suc n) mo cnt u = (case mo of None \<Rightarrow> Some (None, u)
     | Some m \<Rightarrow> if m_sym (k_menu (u_k u) m) = None then pick_entry c n (m_next (k_menu (u_k u) m)) cnt u
         else do {
           (v, u) \<leftarrow> visible c m u;
           if \<not> v then pick_entry c n (m_next (k_menu (u_k u) m)) cnt u
           else if cnt - 1 = 0 then Some (Some m, u)
           else pick_entry c n (m_next (k_menu (u_k u) m)) (cnt - 1) u })"

text \<open>Which number is meant: \<open>None\<close> asks again.\<close>

definition choice_number :: "conf_env \<Rightarrow> mid \<Rightarrow> bool \<Rightarrow> nat \<times> nat \<Rightarrow> ui \<Rightarrow> (nat + (int option \<times> ui)) option" where
  "choice_number c m fresh cd u =
     (let update = (u_mode u = oldconfig \<or> u_mode u = silentoldconfig) in
      if update \<and> \<not> fresh then Some (Inr (Some (int (snd cd)), print (print_lld (int (snd cd)) @ [LF]) u))
      else if update \<and> check_stdin u then Some (Inl 1)
      else if update \<or> u_mode u = oldaskconfig then
        (let u = xfgets u; u = u\<lparr>u_line := strip (u_line u)\<rparr>; ch = char_at (u_line u) 0 in
         if ch = CHR ''?'' then do { u \<leftarrow> print_help c m u; Some (Inr (None, u)) }
         else if ch = NUL then Some (Inr (Some (int (snd cd)), u))
         else if isdigit ch then Some (Inr (Some (to_int (strtoll 10 (u_line u))), u))
         else Some (Inr (None, u)))
      else Some (Inr (Some (int (fst cd)), u)))"

text \<open>The loop of \<^verbatim>\<open>conf_choice\<close>; \<open>cf\<close> is the walk through an entry.\<close>

fun choice_loop :: "conf_env \<Rightarrow> (mid \<Rightarrow> ui \<Rightarrow> conf_outcome) \<Rightarrow> nat \<Rightarrow> sym \<Rightarrow> mid \<Rightarrow> bool \<Rightarrow> ui \<Rightarrow> conf_outcome" where
  "choice_loop c cf 0 s m fresh u = None"
| "choice_loop c cf (Suc n) s m fresh u = do {
     t \<leftarrow> menu_get_prompt (u_k u) m;
     let u = print (spaces u @ t @ [LF]) u;
     d \<leftarrow> sym_get_choice_value (u_k u) s;
     (cd, u) \<leftarrow> choice_lines c (ce_fuel c) d (m_list (k_menu (u_k u) m)) (0, 0) (u\<lparr>u_line := []\<rparr>);
     let u = print (spaces u @ ''choice'') u;
     andthen (if fst cd = 1 then Some (Inr (Some 1, print (''[1]: 1'' @ [LF]) u))
         else choice_number c m fresh cd (print (''[1-'' @ print_lld (int (fst cd)) @
           (if menu_has_help (u_k u) m then ''?'' else []) @ '']: '') u))
       (\<lambda>(cnt, u). case cnt of
           None \<Rightarrow> choice_loop c cf n s m fresh u
         | Some i \<Rightarrow> do {
             (ch, u) \<leftarrow> pick_entry c (ce_fuel c) (m_list (k_menu (u_k u) m)) i u;
             case ch of
               None \<Rightarrow> choice_loop c cf n s m fresh u
             | Some ch \<Rightarrow> if u_line u \<noteq> [] \<and> last (u_line u) = CHR ''?'' then do {
                   u \<leftarrow> print_help c ch u; choice_loop c cf n s m fresh u }
                 else do {
                   v \<leftarrow> m_sym (k_menu (u_k u) ch);
                   (ok, k) \<leftarrow> sym_set_choice_value (ce_cv c) s v (u_k u);
                   each_entry (ce_fuel c) (\<lambda>x u. andthen (cf x (u\<lparr>u_indent := u_indent u + 2\<rparr>))
                       (\<lambda>u. Some (Inr (u\<lparr>u_indent := u_indent u - 2\<rparr>))))
                     (m_list (k_menu k ch)) (u\<lparr>u_k := k\<rparr>) } }) }"

text \<open>The callers do not use the result of \<^verbatim>\<open>conf_choice\<close>.\<close>

definition conf_choice :: "conf_env \<Rightarrow> (mid \<Rightarrow> ui \<Rightarrow> conf_outcome) \<Rightarrow> mid \<Rightarrow> ui \<Rightarrow> conf_outcome" where
  "conf_choice c cf m u = do {
     s \<leftarrow> m_sym (k_menu (u_k u) m);
     let fresh = (\<not> sym_has_value (k_sym (u_k u) s));
     if sym_is_changable (u_k u) s then
       andthen (conf_sym c (ce_fuel c) m u) (\<lambda>u. do {
         k \<leftarrow> ce_cv c s (u_k u);
         let u = u\<lparr>u_k := k\<rparr>;
         if sym_get_tristate_value (k_sym k s) = tri_yes then choice_loop c cf (ce_fuel c) s m fresh u
         else Some (Inr u) })
     else (case sym_get_tristate_value (k_sym (u_k u) s) of
         tri_no \<Rightarrow> Some (Inr u)
       | tri_mod \<Rightarrow> do {
           t \<leftarrow> menu_get_prompt (u_k u) m;
           Some (Inr (print (spaces u @ t @ [LF]) u)) }
       | tri_yes \<Rightarrow> choice_loop c cf (ce_fuel c) s m fresh u) }"

text \<open>The title of a menu or a comment.\<close>

definition conf_title :: "mid \<Rightarrow> ui \<Rightarrow> ui" where
  "conf_title m u = (case menu_get_prompt (u_k u) m of None \<Rightarrow> u
     | Some t \<Rightarrow> print (spaces u @ ''*'' @ [LF] @ spaces u @ ''* '' @ t @ [LF] @ spaces u @ ''*'' @ [LF]) u)"

definition conf_entries :: "conf_env \<Rightarrow> (mid \<Rightarrow> ui \<Rightarrow> conf_outcome) \<Rightarrow> mid \<Rightarrow> ui \<Rightarrow> conf_outcome" where
  "conf_entries c cf m u =
     (let i = (if m_sym (k_menu (u_k u) m) \<noteq> None then 2 else 0) in
      andthen (each_entry (ce_fuel c) cf (m_list (k_menu (u_k u) m)) (u\<lparr>u_indent := u_indent u + i\<rparr>))
        (\<lambda>u. Some (Inr (u\<lparr>u_indent := u_indent u - i\<rparr>))))"

text \<open>\<^verbatim>\<open>conf\<close> and \<^verbatim>\<open>check_conf\<close> call each other: \<open>cf\<close> and \<open>check\<close> are the calls.\<close>

definition conf_step :: "conf_env \<Rightarrow> (mid \<Rightarrow> ui \<Rightarrow> conf_outcome) \<Rightarrow> (mid \<Rightarrow> ui \<Rightarrow> conf_outcome) \<Rightarrow> mid \<Rightarrow> ui \<Rightarrow> conf_outcome" where
  "conf_step c cf check m u = do {
     (v, u) \<leftarrow> visible c m u;
     if \<not> v then Some (Inr u)
     else (let ty = map_option (\<lambda>p. p_type (k_prop (u_k u) p)) (m_prompt (k_menu (u_k u) m)) in
       if ty = Some P_MENU \<and> u_mode u \<in> {silentoldconfig, listnewconfig, olddefconfig} \<and> u_root u \<noteq> Some m
       then check m u
       else (let u = (if ty = Some P_MENU \<or> ty = Some P_COMMENT then conf_title m u else u) in
         case m_sym (k_menu (u_k u) m) of
           None \<Rightarrow> conf_entries c cf m u
         | Some s \<Rightarrow>
             if sym_is_choice (k_sym (u_k u) s) then
               andthen (conf_choice c cf m u) (\<lambda>u.
                 if sv_tri (s_curr (k_sym (u_k u) s)) \<noteq> tri_mod then Some (Inr u) else conf_entries c cf m u)
             else andthen
               (if s_type (k_sym (u_k u) s) \<in> {S_INT, S_HEX, S_STRING} then conf_string c (ce_fuel c) m u
                else conf_sym c (ce_fuel c) m u)
               (conf_entries c cf m))) }"

text \<open>Whether the user has to be asked for the symbol.\<close>

definition needs_answer :: "kconf \<Rightarrow> sym \<Rightarrow> bool" where
  "needs_answer k s \<longleftrightarrow> \<not> sym_has_value (k_sym k s) \<and>
     (sym_is_changable k s \<or> sym_is_choice (k_sym k s) \<and> sym_get_tristate_value (k_sym k s) = tri_yes)"

definition check_conf_step :: "conf_env \<Rightarrow> (mid \<Rightarrow> ui \<Rightarrow> conf_outcome) \<Rightarrow> (mid \<Rightarrow> ui \<Rightarrow> conf_outcome) \<Rightarrow> mid \<Rightarrow> ui \<Rightarrow> conf_outcome" where
  "check_conf_step c cf check m u = do {
     (v, u) \<leftarrow> visible c m u;
     if \<not> v then Some (Inr u)
     else andthen (case m_sym (k_menu (u_k u) m) of
         None \<Rightarrow> Some (Inr u)
       | Some s \<Rightarrow> if \<not> needs_answer (u_k u) s then Some (Inr u)
           else if u_mode u = listnewconfig then
             Some (Inr (case s_name (k_sym (u_k u) s) of
                 Some name \<Rightarrow> if sym_is_choice_value (k_sym (u_k u) s) then u else print (ce_pre c @ name @ [LF]) u
               | None \<Rightarrow> u))
           else if u_mode u \<noteq> olddefconfig then do {
             let u = (if u_cnt u = 0 then print (''*'' @ [LF] @ ''* Restart config...'' @ [LF] @ ''*'' @ [LF]) u else u);
             let root = menu_get_parent_menu (ce_fuel c) (u_k u) (Some m);
             r \<leftarrow> root;
             cf r (u\<lparr>u_cnt := u_cnt u + 1, u_root := root\<rparr>) }
           else Some (Inr u))
       (\<lambda>u. each_entry (ce_fuel c) check (m_list (k_menu (u_k u) m)) u) }"

fun conf_rec :: "conf_env \<Rightarrow> nat \<Rightarrow> bool \<Rightarrow> mid \<Rightarrow> ui \<Rightarrow> conf_outcome" where
  "conf_rec c 0 checking m u = None"
| "conf_rec c (Suc n) checking m u =
     (if checking then check_conf_step c (conf_rec c n False) (conf_rec c n True) m u
      else conf_step c (conf_rec c n False) (conf_rec c n True) m u)"

definition conf :: "conf_env \<Rightarrow> nat \<Rightarrow> mid \<Rightarrow> ui \<Rightarrow> conf_outcome" where
  "conf c n = conf_rec c n False"

definition check_conf :: "conf_env \<Rightarrow> nat \<Rightarrow> mid \<Rightarrow> ui \<Rightarrow> conf_outcome" where
  "check_conf c n = conf_rec c n True"

section \<open>\<^verbatim>\<open>main\<close>\<close>

text \<open>What \<^verbatim>\<open>getopt_long\<close> finds, with the argument of the option.\<close>

datatype opt = Option input_mode "string option" | Bad_option

text \<open>The mode, \<^verbatim>\<open>sync_kconfig\<close> and \<^verbatim>\<open>defconfig_file\<close>; the start values of the
  generator of random numbers are an argument of the program.\<close>

fun read_options :: "opt list \<Rightarrow> input_mode \<times> bool \<times> string option \<Rightarrow> nat + (input_mode \<times> bool \<times> string option)" where
  "read_options [] x = Inr x"
| "read_options (Bad_option # os) x = Inl 1"
| "read_options (Option md arg # os) x = (case x of (_, sync, file) \<Rightarrow>
     read_options os (md, sync \<or> md = silentoldconfig, if md = defconfig \<or> md = savedefconfig then arg else file))"

definition conf_get_default_confname :: "calc \<Rightarrow> cenv \<Rightarrow> (string \<Rightarrow> bool) \<Rightarrow> ktab \<Rightarrow> (string \<times> ktab) option" where
  "conf_get_default_confname cv e stat t = do {
     (name, t) \<leftarrow> conf_expand_value cv ''.defconfig'' t;
     case e_getenv e ''srctree'' of
       None \<Rightarrow> Some (name, t)
     | Some d \<Rightarrow> do {
         fullname \<leftarrow> path_buf (d @ ''/'' @ name);
         Some (if stat fullname then fullname else name, t) } }"

text \<open>What the program is given: the environment, the disk, the random numbers, and what the parser
  made of the Kconfig files: the list of files and the symbol with option defconfig_list.\<close>

record ('g, 'w) world =
  w_conf :: conf_env
  w_env :: cenv
  w_files :: files
  w_disk :: "'w disk"
  w_stat :: "string \<Rightarrow> bool"
  w_rand :: "'g \<Rightarrow> int \<times> 'g"
  w_list :: "string list"
  w_defconfig_list :: "sym option"

definition w_read :: "('g, 'w) world \<Rightarrow> string \<Rightarrow> reader \<Rightarrow> (bool \<times> reader) option" where
  "w_read W name r = conf_read_simple (ce_cv (w_conf W)) (ce_pre (w_conf W)) (w_env W) (w_defconfig_list W) (Some name) S_DEF_USER r"

definition preset_file :: "input_mode \<Rightarrow> string" where
  "preset_file md = (case md of allnoconfig \<Rightarrow> ''allno.config'' | allyesconfig \<Rightarrow> ''allyes.config''
     | allmodconfig \<Rightarrow> ''allmod.config'' | alldefconfig \<Rightarrow> ''alldef.config'' | _ \<Rightarrow> ''allrandom.config'')"

text \<open>Reading the configuration that the mode starts from.\<close>

definition load_config :: "('g, 'w) world \<Rightarrow> input_mode \<Rightarrow> string option \<Rightarrow> reader \<Rightarrow> (nat + reader) option" where
  "load_config W md file r =
     (let cv = ce_cv (w_conf W); pre = ce_pre (w_conf W); e = w_env W; dl = w_defconfig_list W in
      if md = defconfig then do {
        (name, r) \<leftarrow> (case file of Some f \<Rightarrow> Some (f, r)
          | None \<Rightarrow> do { (n, t) \<leftarrow> conf_get_default_confname cv e (w_stat W) (r_tab r); Some (n, r\<lparr>r_tab := t\<rparr>) });
        (err, r) \<leftarrow> conf_read cv pre e dl (Some name) r;
        Some (if err then Inl 1 else Inr r) }
      else if md \<in> {allnoconfig, allyesconfig, allmodconfig, alldefconfig, randconfig} then
        (case e_getenv e ''KCONFIG_ALLCONFIG'' of None \<Rightarrow> Some (Inr r)
         | Some name \<Rightarrow> if name \<noteq> [] \<and> name \<noteq> ''1'' then do {
               (err, r) \<leftarrow> w_read W name r;
               Some (if err then Inl 1 else Inr r) }
             else do {
               (err, r) \<leftarrow> w_read W (preset_file md) r;
               if \<not> err then Some (Inr r)
               else do {
                 (err, r) \<leftarrow> w_read W ''all.config'' r;
                 Some (if err then Inl 1 else Inr r) } })
      else do {
        (err, r) \<leftarrow> conf_read cv pre e dl None r;
        Some (Inr r) })"

fun random_rounds :: "('g, 'w) world \<Rightarrow> nat \<Rightarrow> kconf \<Rightarrow> 'g \<Rightarrow> (nat + kconf) option" where
  "random_rounds W 0 k g = None"
| "random_rounds W (Suc n) k g =
     andthen (conf_set_all_new_symbols (ce_cv (w_conf W)) (w_env W) (w_rand W) def_random k g)
       (\<lambda>(again, k, g). if again then random_rounds W n k g else Some (Inr k))"

text \<open>Asking until nothing changes any more.\<close>

fun check_rounds :: "conf_env \<Rightarrow> nat \<Rightarrow> ui \<Rightarrow> conf_outcome" where
  "check_rounds c 0 u = None"
| "check_rounds c (Suc n) u = andthen (check_conf c (ce_fuel c) rootmenu (u\<lparr>u_cnt := 0\<rparr>)) (\<lambda>u.
     if u_cnt u \<noteq> 0 \<and> u_mode u \<noteq> listnewconfig \<and> u_mode u \<noteq> olddefconfig then check_rounds c n u else Some (Inr u))"

definition update_config :: "('g, 'w) world \<Rightarrow> nat \<Rightarrow> 'g \<Rightarrow> ui \<Rightarrow> conf_outcome" where
  "update_config W n g u =
     (let c = w_conf W;
          set_all = (\<lambda>md. andthen (conf_set_all_new_symbols (ce_cv c) (w_env W) (w_rand W) md (u_k u) g)
            (\<lambda>(_, k, _). Some (Inr (u\<lparr>u_k := k\<rparr>)))) in
      case u_mode u of
        allnoconfig \<Rightarrow> set_all def_no
      | allyesconfig \<Rightarrow> set_all def_yes
      | allmodconfig \<Rightarrow> set_all def_mod
      | alldefconfig \<Rightarrow> set_all def_default
      | defconfig \<Rightarrow> set_all def_default
      | randconfig \<Rightarrow> andthen (random_rounds W n (u_k u) g) (\<lambda>k. Some (Inr (u\<lparr>u_k := k\<rparr>)))
      | savedefconfig \<Rightarrow> Some (Inr u)
      | oldaskconfig \<Rightarrow> andthen (conf c (ce_fuel c) rootmenu (u\<lparr>u_root := Some rootmenu\<rparr>))
          (\<lambda>u. check_rounds c n (u\<lparr>u_mode := silentoldconfig\<rparr>))
      | _ \<Rightarrow> check_rounds c n u)"

text \<open>The exit status, the headers that are touched, and what is written.\<close>

type_synonym saved_files = "nat \<times> string list \<times> fs_op list"

definition save_config :: "('g, 'w) world \<Rightarrow> bool \<Rightarrow> string option \<Rightarrow> ui \<Rightarrow> reader \<Rightarrow> 'w \<Rightarrow> saved_files option" where
  "save_config W sync file u r w =
     (let cv = ce_cv (w_conf W); pre = ce_pre (w_conf W); n = ce_fuel (w_conf W); e = w_env W; fs = w_files W in
      if sync then do {
        (res, ops, k) \<leftarrow> (if k_change_count (u_k u) \<noteq> 0
          then do { (res, ops, _, k) \<leftarrow> conf_write cv pre n e fs None (u_k u); Some (res, ops, k) }
          else Some (0, [], u_k u));
        if res \<noteq> 0 then Some (1, [], ops)
        else do {
          (res, paths, ops', _) \<leftarrow> conf_write_autoconf cv pre e fs (w_disk W) (w_list W) (w_defconfig_list W) (on_kconf (\<lambda>_. k) r) w;
          Some (if res \<noteq> 0 then 1 else 0, paths, ops @ ops') } }
      else if u_mode u = savedefconfig then do {
        f \<leftarrow> file;
        (res, ops, _) \<leftarrow> conf_write_defconfig cv pre n fs f (u_k u);
        Some (if res \<noteq> 0 then 1 else 0, [], ops) }
      else if u_mode u \<noteq> listnewconfig then do {
        (res, ops, _) \<leftarrow> conf_write cv pre n e fs None (u_k u);
        Some (if res \<noteq> 0 then 1 else 0, [], ops) }
      else Some (0, [], []))"

text \<open>The program behind the parser; \<open>has_file\<close> is whether a Kconfig file is named.\<close>

definition conf_main :: "('g, 'w) world \<Rightarrow> nat \<Rightarrow> opt list \<Rightarrow> bool \<Rightarrow> string \<Rightarrow> bool \<Rightarrow> reader \<Rightarrow> 'g \<Rightarrow> 'w \<Rightarrow>
    (saved_files \<times> string) option" where
  "conf_main W n opts has_file stdin tty r g w =
     (case read_options opts (oldaskconfig, False, None) of
        Inl x \<Rightarrow> Some ((x, [], []), [])
      | Inr (md, sync, file) \<Rightarrow>
          if \<not> has_file then Some ((1, [], []), [])
          else if sync \<and> \<not> w_stat W (conf_get_configname (w_env W)) then Some ((1, [], []), [])
          else do {
            loaded \<leftarrow> load_config W md file r;
            case loaded of Inl x \<Rightarrow> Some ((x, [], []), [])
            | Inr r \<Rightarrow>
                if sync \<and> k_change_count (r_conf r) \<noteq> 0 \<and> e_getenv (w_env W) ''KCONFIG_NOSILENTUPDATE'' \<notin> {None, Some []}
                then Some ((1, [], []), [])
                else do {
                  x \<leftarrow> update_config W n g \<lparr>u_k = r_conf r, u_in = stdin, u_out = [], u_line = [], u_indent = 1,
                    u_cnt = 0, u_root = None, u_mode = md, u_tty = tty, u_valid = (if sync then tty else True)\<rparr>;
                  case x of Inl y \<Rightarrow> Some ((y, [], []), [])
                  | Inr u \<Rightarrow> do {
                      saved \<leftarrow> save_config W sync file u (on_kconf (\<lambda>_. u_k u) r) w;
                      Some (saved, u_out u) } } })"

section \<open>Listing new symbols\<close>

text \<open>No hidden entry has a symbol that is set; then asking whether an entry is visible marks no
  symbol.\<close>

definition open_prompts :: "kconf \<Rightarrow> bool" where
  "open_prompts k \<longleftrightarrow> (\<forall>m p s. m_prompt (k_menu k m) = Some p \<longrightarrow> m_sym (k_menu k m) = Some s \<longrightarrow>
     prompt_tri k m p = tri_no \<longrightarrow> sv_tri (s_curr (k_sym k s)) = tri_no)"

lemma open_prompts_look: "same_look {} k k' \<Longrightarrow> own_prompts k \<Longrightarrow> open_prompts k \<Longrightarrow> open_prompts k'"
  using same_look_sym(1,3) [of "{}" k k'] same_look_vals(4) [of "{}" k k'] by (simp add: open_prompts_def)

lemma visible_open:
  assumes cv: "\<forall>s k. has_flag k s SYMBOL_VALID \<longrightarrow> cv s k = Some k" and ev: "evaluated k" "own_prompts k" "open_prompts k"
  shows "\<exists>k'. menu_is_visible cv (Suc n) m k = Some (shown k (Node m cs), k') \<and> same_look {} k k'"
proof (cases "m_prompt (k_menu k m)")
  case None
  then show ?thesis by (intro exI [of _ k]) simp
next
  case (Some p)
  have a: "visibility_allows cv m k = Some (expr_val_opt (val_of k) (m_visibility (k_menu k m)) \<noteq> tri_no, k)"
    by (cases "m_visibility (k_menu k m)") (simp_all add: visibility_allows_def evaluated_expr [OF cv ev(1)])
  show ?thesis
  proof (cases "m_sym (k_menu k m)")
    case None
    with Some have "p \<in> free_prompts k" by (auto simp: free_prompts_def)
    then have "same_look {} k (set_prop_visible p (cond_val k p) k)" by (rule same_look_prompt)
    moreover have "prompt_visible cv m p k = Some (cond_val k p, set_prop_visible p (cond_val k p) k)"
      using None by (simp add: prompt_visible_def calc_prop_visible_def evaluated_expr [OF cv ev(1)] cond_val_def)
    moreover have "k_menu (set_prop_visible p (cond_val k p) k) = k_menu k" by (simp add: upd_defs)
    ultimately show ?thesis
      using Some None a by (cases "expr_val_opt (val_of k) (m_visibility (k_menu k m)) = tri_no") (auto simp: prompt_tri_def)
  next
    case s: (Some s)
    have "prompt_tri k m p = tri_no \<Longrightarrow> sv_tri (s_curr (k_sym k s)) = tri_no"
      using ev(3) Some s by (auto simp: open_prompts_def)
    then show ?thesis
      using Some s a
      by (intro exI [of _ k]) (auto simp: prompt_visible_def evaluated_string(1) [OF cv ev(1)] prompt_tri_def sym_get_tristate_value_def)
  qed
qed

text \<open>The line for a menu, and the lines for a tree of menus.\<close>

definition new_line :: "string \<Rightarrow> kconf \<Rightarrow> mid \<Rightarrow> string" where
  "new_line pre k m = (case m_sym (k_menu k m) of None \<Rightarrow> []
     | Some s \<Rightarrow> (case s_name (k_sym k s) of None \<Rightarrow> []
         | Some name \<Rightarrow> if needs_answer k s \<and> \<not> sym_is_choice_value (k_sym k s) then pre @ name @ [LF] else []))"

fun new_list :: "string \<Rightarrow> kconf \<Rightarrow> mtree \<Rightarrow> string" where
  "new_list pre k (Node m cs) = (if shown k (Node m cs) then new_line pre k m @ concat (map (new_list pre k) cs) else [])"

lemma look_all: "same_look {} k k' \<Longrightarrow> k_sym k' = k_sym k"
proof
  fix s assume l: "same_look {} k k'"
  then have "k_sym k' s = (k_sym k s)\<lparr>s_flags := s_flags (k_sym k' s)\<rparr>" "s_flags (k_sym k' s) = s_flags (k_sym k s)"
    unfolding same_look_def by blast+
  then show "k_sym k' s = k_sym k s" by simp
qed

lemma look_new_list: "same_look {} k k' \<Longrightarrow> own_prompts k \<Longrightarrow> new_list pre k' t = new_list pre k t"
proof (induction t)
  case (Node m cs)
  have "needs_answer k' s = needs_answer k s" for s
    by (simp add: needs_answer_def sym_is_changable_def look_all [OF Node.prems(1)])
  then have "new_line pre k' m = new_line pre k m"
    by (simp add: new_line_def look_all [OF Node.prems(1)] same_look_sym(3) [OF Node.prems(1)] split: option.split)
  moreover have "map (new_list pre k') cs = map (new_list pre k) cs" using Node by simp
  ultimately show ?case unfolding new_list.simps same_look_shown [OF Node.prems] by (simp only:)
qed

definition kept :: "kconf \<Rightarrow> ui \<Rightarrow> ui \<Rightarrow> string \<Rightarrow> bool" where
  "kept k u u' txt \<longleftrightarrow> same_look {} k (u_k u') \<and> (\<exists>k'. u' = u\<lparr>u_k := k', u_out := u_out u @ txt\<rparr>)"

lemma kept_trans: "kept k u u1 a \<Longrightarrow> kept k u1 u2 b \<Longrightarrow> kept k u u2 (a @ b)"
  by (auto simp: kept_def)

lemma listing_entries:
  assumes "\<And>t u. t \<in> set ts \<Longrightarrow> same_look {} k (u_k u) \<Longrightarrow> u_mode u = listnewconfig \<Longrightarrow>
      \<exists>u'. f (root t) u = Some (Inr u') \<and> kept k u u' (lines_at t)"
    and "same_look {} k (u_k u)" "u_mode u = listnewconfig" "fseg (k_menu k) par mo ts None" "length (ids ts) < q"
  shows "\<exists>u'. each_entry q f mo u = Some (Inr u') \<and> kept k u u' (concat (map lines_at ts))"
  using assms
proof (induction ts arbitrary: u mo q)
  case Nil
  then obtain q' where "q = Suc q'" by (cases q) auto
  with Nil have "each_entry q f mo u = Some (Inr u)" by simp
  moreover have "kept k u u []" using Nil.prems(2) by (auto simp: kept_def intro: exI [of _ "u_k u"])
  ultimately show ?case by simp
next
  case (Cons t ts)
  obtain q' where q: "q = Suc q'" using Cons.prems(5) by (cases q) auto
  obtain m cs where t: "t = Node m cs" by (cases t)
  have mo: "mo = Some m" "fseg (k_menu k) par (m_next (k_menu k m)) ts None" using Cons.prems(4) by (auto simp: t)
  obtain u1 where u1: "f m u = Some (Inr u1)" "kept k u u1 (lines_at t)" using Cons.prems(1) [of t u] Cons.prems(2,3) by (auto simp: t)
  then have l1: "same_look {} k (u_k u1)" "u_mode u1 = listnewconfig" using Cons.prems(3) by (auto simp: kept_def)
  have len: "length (ids ts) < q'" using Cons.prems(5) by (simp add: q t)
  have "\<exists>u2. each_entry q' f (m_next (k_menu k m)) u1 = Some (Inr u2) \<and> kept k u1 u2 (concat (map lines_at ts))"
    by (rule Cons.IH [OF _ l1 mo(2) len]) (rule Cons.prems(1), simp_all)
  then obtain u2 where
    u2: "each_entry q' f (m_next (k_menu k m)) u1 = Some (Inr u2)" "kept k u1 u2 (concat (map lines_at ts))" by blast
  have "m_next (k_menu (u_k u1) m) = m_next (k_menu k m)" using same_look_sym(3) [OF l1(1)] by simp
  then have "each_entry q f mo u = Some (Inr u2)" using u1(1) u2(1) by (simp add: q mo(1) andthen_def)
  with kept_trans [OF u1(2) u2(2)] show ?case by auto
qed

lemma listing:
  assumes cv: "\<forall>s k. has_flag k s SYMBOL_VALID \<longrightarrow> ce_cv c s k = Some k" and ev: "evaluated k" "own_prompts k" "open_prompts k"
  shows "same_look {} k (u_k u) \<Longrightarrow> u_mode u = listnewconfig \<Longrightarrow> fseg (k_menu k) m (m_list (k_menu k m)) cs None \<Longrightarrow>
      length (ids cs) < n \<Longrightarrow> length (ids cs) < ce_fuel c \<Longrightarrow>
      \<exists>u'. conf_rec c n True m u = Some (Inr u') \<and> kept k u u' (new_list (ce_pre c) k (Node m cs))"
proof (induction n arbitrary: u m cs)
  case (Suc n)
  note q = same_look_sym [OF Suc.prems(1)]
  obtain fu where fu: "ce_fuel c = Suc fu" using Suc.prems(5) by (cases "ce_fuel c") auto
  have ev': "evaluated (u_k u)" "own_prompts (u_k u)" "open_prompts (u_k u)"
    using same_look_vals(3) [OF Suc.prems(1)] q(7) open_prompts_look [OF Suc.prems(1)] ev by simp_all
  from visible_open [OF cv ev', of fu m cs] obtain k1 where
    "menu_is_visible (ce_cv c) (ce_fuel c) m (u_k u) = Some (shown (u_k u) (Node m cs), k1)" "same_look {} (u_k u) k1"
    unfolding fu by blast
  then have k1: "menu_is_visible (ce_cv c) (ce_fuel c) m (u_k u) = Some (shown k (Node m cs), k1)" "same_look {} k k1"
    using same_look_shown [OF Suc.prems(1) ev(2)] same_look_trans [OF Suc.prems(1)] by (simp_all del: shown.simps)
  show ?case
  proof (cases "shown k (Node m cs)")
    case False
    with k1 show ?thesis
      by (cases u) (auto simp: check_conf_step_def visible_def kept_def simp del: shown.simps)
  next
    case True
    let ?u = "u\<lparr>u_k := k1, u_out := u_out u @ new_line (ce_pre c) k m\<rparr>"
    have m1: "k_menu k1 = k_menu k" by (rule same_look_sym(3) [OF k1(2)])
    have "needs_answer k1 s = needs_answer k s" for s
      by (simp add: needs_answer_def sym_is_changable_def look_all [OF k1(2)])
    then have step: "conf_rec c (Suc n) True m u = each_entry (ce_fuel c) (conf_rec c n True) (m_list (k_menu k m)) ?u"
      using True k1(1) Suc.prems(2) look_all [OF k1(2)]
      by (cases u) (auto simp: check_conf_step_def visible_def andthen_def new_line_def print_def m1 simp del: shown.simps
        split: option.split)
    have kids: "\<exists>u'. conf_rec c n True (root t) v = Some (Inr u') \<and> kept k v u' (new_list (ce_pre c) k t)"
      if "t \<in> set cs" "same_look {} k (u_k v)" "u_mode v = listnewconfig" for t v
    proof -
      have "t \<in> set (preorder cs)" using that(1) by (induction cs rule: preorder.induct) auto
      from preorder_kids [OF Suc.prems(3) this] Suc.IH [OF that(2,3), of "root t" "kids t"] Suc.prems(4,5)
      show ?thesis by (cases t) auto
    qed
    have l: "same_look {} k (u_k ?u)" "u_mode ?u = listnewconfig" using k1(2) Suc.prems(2) by simp_all
    have "\<exists>u'. each_entry (ce_fuel c) (conf_rec c n True) (m_list (k_menu k m)) ?u = Some (Inr u') \<and>
        kept k ?u u' (concat (map (new_list (ce_pre c) k) cs))"
      by (rule listing_entries [OF _ l Suc.prems(3,5)]) (rule kids)
    then obtain u' where u': "each_entry (ce_fuel c) (conf_rec c n True) (m_list (k_menu k m)) ?u = Some (Inr u')"
      "kept k ?u u' (concat (map (new_list (ce_pre c) k) cs))" by blast
    have "kept k u ?u (new_line (ce_pre c) k m)" using k1(2) by (auto simp: kept_def)
    from kept_trans [OF this u'(2)] True have "kept k u u' (new_list (ce_pre c) k (Node m cs))"
      unfolding new_list.simps by simp
    moreover have "conf_rec c (Suc n) True m u = Some (Inr u')" unfolding step by (rule u'(1))
    ultimately show ?thesis by (intro exI conjI)
  qed
qed simp


text \<open>A menu with a new symbol and one that has a value.\<close>

definition sample_ask :: kconf where
  "sample_ask = empty_conf\<lparr>
     k_sym := (\<lambda>s. case s of
         Sym i \<Rightarrow> (fresh_symbol (if i = 0 then Some ''FOO'' else None) {SYMBOL_VALID, if i = 0 then SYMBOL_WRITE else SYMBOL_DEF_USER})\<lparr>
           s_type := S_BOOLEAN, s_visible := tri_yes, s_curr := \<lparr>sv_val = VNull, sv_tri = tri_no\<rparr>\<rparr>
       | _ \<Rightarrow> static_symbols s),
     k_modules_sym := Some symbol_yes,
     k_prop := (\<lambda>_. null_property\<lparr>p_text := Some ''T'', p_visible := \<lparr>ev_expr = None, ev_tri = tri_yes\<rparr>\<rparr>),
     k_menu := (\<lambda>_. null_menu)(0 := null_menu\<lparr>m_prompt := Some 0, m_list := Some 1\<rparr>,
        1 := null_menu\<lparr>m_parent := Some 0, m_prompt := Some 1, m_sym := Some (Sym 0), m_next := Some 2\<rparr>,
        2 := null_menu\<lparr>m_parent := Some 0, m_prompt := Some 2, m_sym := Some (Sym 1)\<rparr>)\<rparr>"

definition sample_ui :: "input_mode \<Rightarrow> string \<Rightarrow> ui" where
  "sample_ui md inp = \<lparr>u_k = sample_ask, u_in = inp, u_out = [], u_line = [], u_indent = 1, u_cnt = 0, u_root = None,
     u_mode = md, u_tty = True, u_valid = True\<rparr>"

definition sample_conf_env :: conf_env where
  "sample_conf_env = \<lparr>ce_cv = sym_calc_value 1, ce_pre = ''BR2_'', ce_fuel = 9\<rparr>"

lemma sample_ask_ok: "evaluated sample_ask" "own_prompts sample_ask" "open_prompts sample_ask"
proof -
  show "evaluated sample_ask"
    by (auto simp: evaluated_def sample_ask_def has_flag_def static_symbol_def fresh_symbol_def split: sym.split)
  show "own_prompts sample_ask"
    by (auto simp: own_prompts_def free_prompts_def sample_ask_def null_menu_def split: if_splits)
  show "open_prompts sample_ask"
    by (auto simp: open_prompts_def prompt_tri_def sample_ask_def null_menu_def split: if_splits)
qed


section \<open>Asking ends\<close>

lemma fgets_le: "length (snd (fgets n s)) \<le> length s"
  by (induction n s rule: fgets.induct) (auto split: prod.split)

lemma fgets_rest: "s \<noteq> [] \<Longrightarrow> n \<noteq> 0 \<Longrightarrow> length (snd (fgets n s)) < length s"
proof -
  assume "s \<noteq> []" "n \<noteq> 0"
  then obtain c s' n' where s: "s = c # s'" "n = Suc n'" by (cases s; cases n) auto
  obtain l r where f: "fgets n' s' = (l, r)" by (cases "fgets n' s'")
  show ?thesis using fgets_le [of n' s'] by (simp add: s f)
qed

lemma xfgets_props [simp]: "u_k (xfgets u) = u_k u" "u_mode (xfgets u) = u_mode u" "u_tty (xfgets u) = u_tty u"
    "u_in u = [] \<Longrightarrow> xfgets u = u" "u_in u \<noteq> [] \<Longrightarrow> length (u_in (xfgets u)) < length (u_in u)"
proof -
  obtain l r where f: "fgets 127 (u_in u) = (l, r)" by (cases "fgets 127 (u_in u)")
  show "u_k (xfgets u) = u_k u" "u_mode (xfgets u) = u_mode u" "u_tty (xfgets u) = u_tty u" "u_in u = [] \<Longrightarrow> xfgets u = u"
    by (simp_all add: xfgets_def f)
  show "u_in u \<noteq> [] \<Longrightarrow> length (u_in (xfgets u)) < length (u_in u)"
    using fgets_rest [of "u_in u" 127] by (simp add: xfgets_def f)
qed

lemma ask_old:
  assumes "u_mode u = oldaskconfig" "sym_is_changable (u_k u) s"
  shows "\<exists>u1. conf_askvalue s d u = Inr (True, u1) \<and> u_k u1 = u_k u \<and> u_mode u1 = u_mode u \<and>
    (u_in u \<noteq> [] \<longrightarrow> length (u_in u1) < length (u_in u)) \<and> (u_in u = [] \<longrightarrow> strip (u_line u1) = [])"
proof -
  obtain w where w: "w = (if \<not> sym_has_value (k_sym (u_k u) s) then print ''(NEW) '' u else u)\<lparr>u_line := [LF]\<rparr>" by simp
  have f: "u_k w = u_k u" "u_mode w = u_mode u" "u_in w = u_in u" "u_line w = [LF]" by (simp_all add: w print_def)
  have "conf_askvalue s d u = Inr (True, if \<not> u_tty (xfgets w) then print [LF] (xfgets w) else xfgets w)"
    using assms f(2) unfolding conf_askvalue_def Let_def w [symmetric] by simp
  moreover have "strip [LF] = []" by (simp add: strip_def isspace_def code_def)
  ultimately show ?thesis using f xfgets_props(5) [of w] by (cases "u_in u = []") (auto simp: print_def)
qed

lemma set_tristate_result:
  assumes "sym_set_tristate_value cv s v k = Some (ok, k')"
  shows "ok \<longleftrightarrow> v = sym_get_tristate_value (k_sym k s) \<or> sym_tristate_within_range k s v" "\<not> ok \<Longrightarrow> k' = k"
  using assms by (auto simp: sym_set_tristate_value_def Let_def split: if_splits elim!: bind_eq_SomeE)



section \<open>A run that only lists\<close>

lemma each_entry_keeps:
  assumes "\<And>m u u'. P u \<Longrightarrow> f m u = Some (Inr u') \<Longrightarrow> P u'"
  shows "each_entry n f mo u = Some (Inr u') \<Longrightarrow> P u \<Longrightarrow> P u'"
proof (induction n arbitrary: mo u)
  case (Suc n)
  show ?case
  proof (cases mo)
    case None
    with Suc.prems show ?thesis by simp
  next
    case (Some m)
    with Suc.prems(1) obtain u1 where "f m u = Some (Inr u1)" "each_entry n f (m_next (k_menu (u_k u1) m)) u1 = Some (Inr u')"
      by (auto simp: andthen_def split: option.splits sum.splits)
    with Suc.IH assms Suc.prems(2) show ?thesis by blast
  qed
qed simp

lemma andthen_Inr: "andthen x f = Some (Inr y) \<longleftrightarrow> (\<exists>z. x = Some (Inr z) \<and> f z = Some (Inr y))"
  by (auto simp: andthen_def split: option.splits sum.splits)

lemma print_mode: "u_mode (print s u) = u_mode u"
  by (simp add: print_def)

lemma check_conf_mode: "conf_rec c n True m u = Some (Inr u') \<Longrightarrow> u_mode u = listnewconfig \<Longrightarrow> u_mode u' = listnewconfig"
proof (induction n arbitrary: m u u')
  case (Suc n)
  from Suc.prems(1) obtain v u1 where v: "visible c m u = Some (v, u1)"
    by (auto simp: check_conf_step_def elim!: bind_eq_SomeE)
  then have m1: "u_mode u1 = listnewconfig" using Suc.prems(2) by (auto simp: visible_def elim!: bind_eq_SomeE)
  show ?case
  proof (cases v)
    case True
    have "\<exists>u2 mo. u_mode u2 = listnewconfig \<and> each_entry (ce_fuel c) (conf_rec c n True) mo u2 = Some (Inr u')"
      using True Suc.prems(1) v m1 by (auto simp: check_conf_step_def andthen_Inr split: option.splits if_splits) (metis print_mode)+
    then show ?thesis
      using each_entry_keeps [where P = "\<lambda>u. u_mode u = listnewconfig" and f = "conf_rec c n True"] Suc.IH by blast
  next
    case False
    with Suc.prems(1) v m1 show ?thesis by (simp add: check_conf_step_def)
  qed
qed simp

text \<open>C19   A run with \<^verbatim>\<open>--listnewconfig\<close> as its only option writes and touches no file, whatever
  the configuration, the input and the environment are.\<close>

theorem listing_writes_nothing:
  assumes "conf_main W n [Option listnewconfig arg] has_file inp tty r g w = Some ((status, paths, ops), out)"
  shows "paths = [] \<and> ops = []"
proof -
  have mode: "u_mode u' = listnewconfig" if "check_rounds c n u = Some (Inr u')" "u_mode u = listnewconfig" for c n u u'
    using that by (cases n) (auto simp: andthen_Inr check_conf_def dest: check_conf_mode)
  let ?md = listnewconfig
  from assms show ?thesis
    by (auto simp: conf_main_def update_config_def save_config_def Let_def dest!: mode split: if_splits sum.splits elim!: bind_eq_SomeE)
qed

definition sample_world :: "(unit, unit) world" where
  "sample_world = \<lparr>w_conf = sample_conf_env, w_env = sample_cenv, w_files = sample_files, w_disk = sample_disk,
     w_stat = (\<lambda>_. True), w_rand = (\<lambda>g. (0, g)), w_list = [], w_defconfig_list = None\<rparr>"

definition ask_reader :: reader where
  "ask_reader = two_reader\<lparr>r_tab := empty_tab\<lparr>t_conf := sample_ask\<rparr>\<rparr>"

theorem listing_writes_nothing_witness:
  "\<exists>status out. conf_main sample_world 3 [Option listnewconfig None] True [] True ask_reader () () = Some ((status, [], []), out)"
proof -
  have "conf_main sample_world 3 [Option listnewconfig None] True [] True ask_reader () () \<noteq> None" by code_simp
  then obtain status paths ops out where
    "conf_main sample_world 3 [Option listnewconfig None] True [] True ask_reader () () = Some ((status, paths, ops), out)" by auto
  with listing_writes_nothing [OF this] show ?thesis by blast
qed

end
