(* ===== verification/Toolwrap.thy ===== *)
theory Toolwrap
  imports Cstring
begin

text \<open>
  \<^verbatim>\<open>toolchain/toolchain-wrapper.c\<close>: the program that stands in for the compiler and runs
  it with the options of the configuration. The macros of the build are a record, the system calls
  and the environment another, so that every \<^verbatim>\<open>#ifdef\<close> and every failure is a branch of
  the model. \<open>None\<close> is undefined behaviour: a read through NULL or past the end of an array, or a
  write past the end of the allocated block. The macros and the program's name are used in
  formats only as arguments, or without a percent sign.
\<close>

section \<open>The macros, the system and what the program does\<close>

record config =
  cf_ccache :: bool
  cf_abi :: "string option"
  cf_fpu :: "string option"
  cf_softfloat :: bool
  cf_mode :: "string option"
  cf_64 :: bool
  cf_omit_lock :: bool
  cf_flat :: bool
  cf_mips_le :: bool
  cf_mips_be :: bool
  cf_arc_be :: bool
  cf_cflags :: "string list"
  cf_path_rel :: "string option"
  cf_path_abs :: "string option"
  cf_suffix :: string
  cf_sysroot :: string
  cf_float_abi :: "string option"
  cf_arch :: "string option"
  cf_cpu :: "string option"
  cf_hash :: "string option"
  cf_basedir :: "string option"
  cf_file :: string

text \<open>\<^verbatim>\<open>/proc/self/exe\<close> is the link of \<^verbatim>\<open>readlink\<close>; an allocation, \<^verbatim>\<open>setenv\<close> and
  \<^verbatim>\<open>execv\<close> may fail.\<close>

record system =
  os_env :: "string \<Rightarrow> string option"
  os_realpath :: "string \<Rightarrow> string option"
  os_self :: "string option"
  os_malloc :: "nat \<Rightarrow> bool"
  os_setenv :: "string \<Rightarrow> bool"
  os_exec :: "string \<Rightarrow> string list \<Rightarrow> bool"

datatype event = Stderr string | Perror string

text \<open>The end of the program: an exit status, or the program, its arguments and its environment
  that \<^verbatim>\<open>execv\<close> runs.\<close>

datatype outcome = Exited nat | Executed string "string list" "string \<Rightarrow> string option"

definition EXCLUSIVE_ARGS :: nat where "EXCLUSIVE_ARGS = 3"

definition flag_arg :: "bool \<Rightarrow> string \<Rightarrow> string list" where
  "flag_arg c s = (if c then [s] else [])"

definition opt_arg :: "string \<Rightarrow> string option \<Rightarrow> string list" where
  "opt_arg p s = (case s of None \<Rightarrow> [] | Some v \<Rightarrow> [p @ v])"

text \<open>The array holds the addresses of the three buffers; here their contents.\<close>

definition predef_args :: "config \<Rightarrow> string \<Rightarrow> string \<Rightarrow> string \<Rightarrow> string list" where
  "predef_args cf ccache_path path sysroot =
     flag_arg (cf_ccache cf) ccache_path @ [path, ''--sysroot'', sysroot] @
     opt_arg ''-mabi='' (cf_abi cf) @ opt_arg ''-mfpu='' (cf_fpu cf) @
     flag_arg (cf_softfloat cf) ''-msoft-float'' @ opt_arg ''-m'' (cf_mode cf) @
     flag_arg (cf_64 cf) ''-m64'' @ flag_arg (cf_omit_lock cf) ''-Wa,-momit-lock-prefix=yes'' @
     flag_arg (cf_flat cf) ''-Wl,-elf2flt'' @ flag_arg (cf_mips_le cf) ''-EL'' @
     flag_arg (cf_mips_be cf \<or> cf_arc_be cf) ''-EB'' @ cf_cflags cf"

section \<open>Where the toolchain is\<close>

text \<open>The loop from the end of the link: the last three slashes after the first character become
  NUL, and the string ends at the first of them.\<close>

fun cut_slashes :: "nat \<Rightarrow> nat \<Rightarrow> string \<Rightarrow> string" where
  "cut_slashes 0 count buf = buf"
| "cut_slashes (Suc i) count buf =
     (if buf ! Suc i = CHR ''/'' then
        (let buf = buf[Suc i := CHR 0x00] in
         if Suc count = 3 then buf else cut_slashes i (Suc count) buf)
      else cut_slashes i count buf)"

definition c_string :: "string \<Rightarrow> string" where
  "c_string buf = takeWhile (\<lambda>c. c \<noteq> CHR 0x00) buf"

text \<open>\<^verbatim>\<open>strrchr(progpath, '/')\<close>: what is before and after the last slash.\<close>

definition split_slash :: "string \<Rightarrow> (string \<times> string) option" where
  "split_slash s = (if CHR ''/'' \<in> set s
     then Some (rev (tl (dropWhile (\<lambda>c. c \<noteq> CHR ''/'') (rev s))), rev (takeWhile (\<lambda>c. c \<noteq> CHR ''/'') (rev s)))
     else None)"

text \<open>The first part of \<^verbatim>\<open>main\<close>: \<open>Inl\<close> the message of \<^verbatim>\<open>perror\<close> before the status 2,
  or \<^verbatim>\<open>absbasedir\<close> and \<^verbatim>\<open>basename\<close>. \<^verbatim>\<open>readlink\<close> writes at most PATH_MAX bytes, and
  fails with a NULL buffer.\<close>

definition base_dir :: "system \<Rightarrow> string \<Rightarrow> string + (string \<times> string)" where
  "base_dir os progpath = (case split_slash progpath of
     Some (dir, base) \<Rightarrow>
       if \<not> os_malloc os (length dir + 7) then Inl '': malloc''
       else (case os_realpath os (dir @ ''/../..'') of
           None \<Rightarrow> Inl '': realpath'' | Some absdir \<Rightarrow> Inr (absdir, base))
   | None \<Rightarrow>
       (case os_self os of
           None \<Rightarrow> Inl '': readlink''
         | Some l \<Rightarrow> if \<not> os_malloc os (PATH_MAX + 1) then Inl '': readlink''
             else (let l = take PATH_MAX l in
               Inr (c_string (cut_slashes (length l) 0 (l @ [CHR 0x00])), progpath))))"

definition cross_path :: "config \<Rightarrow> string \<Rightarrow> string \<Rightarrow> string" where
  "cross_path cf absdir base = (case cf_path_rel cf of
     Some r \<Rightarrow> absdir @ ''/'' @ r @ ''/'' @ base @ cf_suffix cf
   | None \<Rightarrow> (case cf_path_abs cf of
       Some a \<Rightarrow> a @ ''/'' @ base @ cf_suffix cf
     | None \<Rightarrow> absdir @ ''/usr/bin/'' @ base @ cf_suffix cf))"

text \<open>The three calls of \<^verbatim>\<open>snprintf\<close>: the contents of \<^verbatim>\<open>ccache_path\<close>, \<^verbatim>\<open>path\<close>
  and \<^verbatim>\<open>sysroot\<close>, or None when one of them does not fit its PATH_MAX bytes.\<close>

definition snprintf_path :: "string \<Rightarrow> string option" where
  "snprintf_path s = (if length s \<ge> PATH_MAX then None else Some s)"

definition fill_paths :: "config \<Rightarrow> string \<Rightarrow> string \<Rightarrow> (string \<times> string \<times> string) option" where
  "fill_paths cf absdir base = do {
     path \<leftarrow> snprintf_path (cross_path cf absdir base);
     ccache_path \<leftarrow> (if cf_ccache cf then snprintf_path (absdir @ ''/usr/bin/ccache'') else Some []);
     sysroot \<leftarrow> snprintf_path (absdir @ ''/'' @ cf_sysroot cf);
     Some (ccache_path, path, sysroot) }"

section \<open>The block of arguments\<close>

text \<open>The memory that \<^verbatim>\<open>args\<close> points to, slot by slot, and \<^verbatim>\<open>cur\<close> as an index.\<close>

datatype slot = Unset | Null | Ptr string

record arg_block =
  ab_slots :: "slot list"
  ab_cur :: nat

definition alloc_args :: "nat \<Rightarrow> arg_block" where
  "alloc_args n = \<lparr>ab_slots = replicate n Unset, ab_cur = 0\<rparr>"

text \<open>\<^verbatim>\<open>*cur++ = v\<close>; the last write leaves \<^verbatim>\<open>cur\<close> where it is, which nobody sees.\<close>

definition put_arg :: "slot \<Rightarrow> arg_block \<Rightarrow> arg_block option" where
  "put_arg v b = (if ab_cur b < length (ab_slots b)
     then Some (b\<lparr>ab_slots := (ab_slots b)[ab_cur b := v], ab_cur := ab_cur b + 1\<rparr>) else None)"

fun put_all :: "string list \<Rightarrow> arg_block \<Rightarrow> arg_block option" where
  "put_all [] b = Some b"
| "put_all (s # ss) b = do { b \<leftarrow> put_arg (Ptr s) b; put_all ss b }"

text \<open>A reader of the array, which stops at NULL.\<close>

fun read_args :: "slot list \<Rightarrow> string list option" where
  "read_args (Ptr s # ss) = map_option ((#) s) (read_args ss)"
| "read_args (Null # ss) = Some []"
| "read_args (Unset # ss) = None"
| "read_args [] = None"

text \<open>\<^verbatim>\<open>!strncmp(s, p, strlen(p))\<close> for a string \<open>p\<close> without NUL.\<close>

definition starts_with :: "string \<Rightarrow> string \<Rightarrow> bool" where
  "starts_with p s \<longleftrightarrow> take (length p) s = p"

text \<open>The searches run \<^verbatim>\<open>i\<close> over \<^verbatim>\<open>argv[1]\<close> to \<^verbatim>\<open>argv[argc - 1]\<close>; \<open>i == argc\<close> is
  that none of them matches.\<close>

definition float_args :: "config \<Rightarrow> string list \<Rightarrow> string list" where
  "float_args cf argv = (case cf_float_abi cf of None \<Rightarrow> [] | Some v \<Rightarrow>
     if \<exists>a \<in> set (tl argv). starts_with ''-mfloat-abi='' a \<or> a = ''-msoft-float'' \<or> a = ''-mhard-float''
     then [] else [''-mfloat-abi='' @ v])"

definition arch_args :: "config \<Rightarrow> string list \<Rightarrow> string list" where
  "arch_args cf argv = (if cf_arch cf = None \<and> cf_cpu cf = None then []
     else if \<exists>a \<in> set (tl argv). starts_with ''-march='' a \<or> starts_with ''-mtune='' a \<or> starts_with ''-mcpu='' a
     then [] else opt_arg ''-march='' (cf_arch cf) @ opt_arg ''-mcpu='' (cf_cpu cf))"

section \<open>Unsafe paths\<close>

definition unsafe_paths :: "string list" where
  "unsafe_paths = [''/lib'', ''/usr/include'', ''/usr/lib'', ''/usr/local/include'', ''/usr/local/lib'']"

definition unsafe_opts :: "string list" where
  "unsafe_opts = [''-I'', ''-idirafter'', ''-iquote'', ''-isystem'', ''-L'']"

definition unsafe_message :: "string \<Rightarrow> bool \<Rightarrow> string \<Rightarrow> string \<Rightarrow> bool \<Rightarrow> event" where
  "unsafe_message prog paranoid arg path arg_has_path = Stderr (prog @ '': '' @
     (if paranoid then ''ERROR'' else ''WARNING'') @ '': unsafe header/library path used in cross-compilation: '' @
     CHR 0x27 # arg @ (if arg_has_path then [] else [CHR 0x27, CHR '' '', CHR 0x27]) @
     (if arg_has_path then [] else path) @ [CHR 0x27, CHR 0x0A])"

text \<open>The loop over \<^verbatim>\<open>unsafe_paths\<close>: the events, and whether the program has exited.\<close>

fun check_paths :: "string \<Rightarrow> string list \<Rightarrow> string \<Rightarrow> string \<Rightarrow> bool \<Rightarrow> bool \<Rightarrow> event list \<Rightarrow> event list \<times> bool" where
  "check_paths prog [] arg path paranoid has evs = (evs, False)"
| "check_paths prog (p # ps) arg path paranoid has evs =
     (if \<not> starts_with p path then check_paths prog ps arg path paranoid has evs
      else (let evs = evs @ [unsafe_message prog paranoid arg path has] in
        if paranoid then (evs, True) else check_paths prog ps arg path paranoid has evs))"

definition check_unsafe_path :: "string \<Rightarrow> string \<Rightarrow> string \<Rightarrow> bool \<Rightarrow> bool \<Rightarrow> event list \<Rightarrow> event list \<times> bool" where
  "check_unsafe_path prog arg path paranoid has evs = check_paths prog unsafe_paths arg path paranoid has evs"

text \<open>\<^verbatim>\<open>argv[i]\<close> as a string: \<^verbatim>\<open>argv[argc]\<close> is NULL.\<close>

definition argv_at :: "string list \<Rightarrow> nat \<Rightarrow> string option" where
  "argv_at argv i = (if i < length argv then Some (argv ! i) else None)"

text \<open>The loop over \<^verbatim>\<open>unsafe_opts\<close>. It goes on with the option after the one that matched, on
  the argument that \<^verbatim>\<open>i\<close> then points to. The result has the events, \<^verbatim>\<open>i\<close>, and whether the
  program has exited.\<close>

fun check_opts :: "string \<Rightarrow> bool \<Rightarrow> string list \<Rightarrow> string list \<Rightarrow> nat \<Rightarrow> event list \<Rightarrow> (event list \<times> nat \<times> bool) option" where
  "check_opts prog paranoid argv [] i evs = Some (evs, i, False)"
| "check_opts prog paranoid argv (opt # opts) i evs = do {
     a \<leftarrow> argv_at argv i;
     if \<not> starts_with opt a then check_opts prog paranoid argv opts i evs
     else if drop (length opt) a = [] then
       (if i + 1 = length argv then Some (evs, i + 1, False)
        else do {
          path \<leftarrow> argv_at argv (i + 1);
          let (evs, stop) = check_unsafe_path prog a path paranoid False evs;
          if stop then Some (evs, i + 1, True) else check_opts prog paranoid argv opts (i + 1) evs })
     else (let (evs, stop) = check_unsafe_path prog a (drop (length opt) a) paranoid True evs in
       if stop then Some (evs, i, True) else check_opts prog paranoid argv opts i evs) }"

text \<open>No unsafe path is a prefix of another, so that at most one of them matches.\<close>

definition unsafe :: "string \<Rightarrow> bool" where
  "unsafe path \<longleftrightarrow> (\<exists>u \<in> set unsafe_paths. starts_with u path)"

lemma starts_with_unique: "starts_with u p \<Longrightarrow> starts_with v p \<Longrightarrow> length u \<le> length v \<Longrightarrow> starts_with u v"
  unfolding starts_with_def by (metis min.absorb_iff1 take_take)

lemma starts_with_trans: "starts_with p q \<Longrightarrow> starts_with q b \<Longrightarrow> starts_with p b"
proof -
  assume a: "starts_with p q" "starts_with q b"
  then have "min (length p) (length q) = length p" unfolding starts_with_def by (metis length_take min.commute)
  with a show ?thesis unfolding starts_with_def by (metis take_take)
qed

lemma check_unsafe_path_eq:
  "check_unsafe_path prog a path paranoid has evs =
     (if unsafe path then (evs @ [unsafe_message prog paranoid a path has], paranoid) else (evs, False))"
proof -
  have u: "\<not> (starts_with u path \<and> starts_with v path)"
    if "u \<in> set unsafe_paths" "v \<in> set unsafe_paths" "u \<noteq> v" for u v
    using that starts_with_unique [of u path v] starts_with_unique [of v path u]
    by (auto simp: unsafe_paths_def starts_with_def)
  have "check_paths prog us a path paranoid has evs =
      (if \<exists>u \<in> set us. starts_with u path then (evs @ [unsafe_message prog paranoid a path has], paranoid) else (evs, False))"
    if "set us \<subseteq> set unsafe_paths" "distinct us" for us evs
    using that
  proof (induction us arbitrary: evs)
    case (Cons v us)
    then have "\<not> starts_with v path \<or> \<not> (\<exists>u \<in> set us. starts_with u path)" using u [of v] by auto
    with Cons show ?case by (auto simp: Let_def)
  qed simp
  from this [of unsafe_paths] show ?thesis
    by (simp add: check_unsafe_path_def unsafe_def) (simp add: unsafe_paths_def)
qed

lemma check_opts_Cons: "check_opts prog paranoid argv (opt # opts) i evs =
   (if i \<ge> length argv then None
    else if \<not> starts_with opt (argv ! i) then check_opts prog paranoid argv opts i evs
    else if length (argv ! i) \<le> length opt then
      (if i + 1 = length argv then Some (evs, i + 1, False)
       else let evs = (if unsafe (argv ! (i + 1)) then evs @ [unsafe_message prog paranoid (argv ! i) (argv ! (i + 1)) False] else evs)
         in if unsafe (argv ! (i + 1)) \<and> paranoid then Some (evs, i + 1, True) else check_opts prog paranoid argv opts (i + 1) evs)
    else let path = drop (length opt) (argv ! i);
           evs = (if unsafe path then evs @ [unsafe_message prog paranoid (argv ! i) path True] else evs)
         in if unsafe path \<and> paranoid then Some (evs, i, True) else check_opts prog paranoid argv opts i evs)"
  by (auto simp: argv_at_def check_unsafe_path_eq)

lemma check_opts_forward: "check_opts prog paranoid argv opts i evs = Some (evs', i', stop) \<Longrightarrow> i \<le> i'"
proof (induction opts arbitrary: i evs paranoid)
  case (Cons opt opts)
  from Cons.prems show ?case
    unfolding check_opts_Cons Let_def
    by (auto split: if_splits dest!: Cons.IH)
qed simp

function check_args :: "string \<Rightarrow> bool \<Rightarrow> string list \<Rightarrow> nat \<Rightarrow> event list \<Rightarrow> (event list \<times> bool) option" where
  "check_args prog paranoid argv i evs =
     (if i < length argv then
        (case check_opts prog paranoid argv unsafe_opts i evs of
           None \<Rightarrow> None
         | Some (evs', i', stop) \<Rightarrow> if stop then Some (evs', True) else check_args prog paranoid argv (i' + 1) evs')
      else Some (evs, False))"
  by auto
termination
  by (relation "measure (\<lambda>(prog, paranoid, argv, i, evs). length argv - i)") (auto dest: check_opts_forward)

declare check_args.simps [simp del]

section \<open>The program\<close>

text \<open>\<^verbatim>\<open>atoi\<close>: the value of \<^verbatim>\<open>strtol\<close> as an int.\<close>

definition atoi :: "string \<Rightarrow> int" where
  "atoi s = sint (word_of_int (strtoll 10 s) :: 32 word)"

definition trace_sep :: "int \<Rightarrow> string" where
  "trace_sep debug = (if debug = 2 then CHR 0x0A # ''    '' else '' '')"

definition quote :: "string \<Rightarrow> string" where
  "quote s = CHR 0x27 # s @ [CHR 0x27]"

definition trace :: "config \<Rightarrow> string option \<Rightarrow> string list \<Rightarrow> event list" where
  "trace cf env_debug exec_args = (case env_debug of None \<Rightarrow> [] | Some v \<Rightarrow>
     let debug = atoi v in
     if debug \<le> 0 then [] else
       [Stderr ''Toolchain wrapper executing:''] @
       (case cf_hash cf of None \<Rightarrow> []
          | Some h \<Rightarrow> [Stderr (trace_sep debug @ ''CCACHE_COMPILERCHECK='' @ quote (''string:'' @ h))]) @
       (case cf_basedir cf of None \<Rightarrow> [] | Some d \<Rightarrow> [Stderr (trace_sep debug @ ''CCACHE_BASEDIR='' @ quote d)]) @
       map (\<lambda>a. Stderr (trace_sep debug @ quote a)) exec_args @ [Stderr [CHR 0x0A]])"

text \<open>\<^verbatim>\<open>setenv(name, value, 0)\<close>, or None when it fails.\<close>

definition setenv0 :: "system \<Rightarrow> string \<Rightarrow> string \<Rightarrow> (string \<Rightarrow> string option) \<Rightarrow> (string \<Rightarrow> string option) option" where
  "setenv0 os name val env = (if \<not> os_setenv os name then None
     else Some (if env name = None then env(name := Some val) else env))"

definition opt_setenv :: "system \<Rightarrow> string \<Rightarrow> string \<Rightarrow> string option \<Rightarrow> (string \<Rightarrow> string option) \<Rightarrow> (string \<Rightarrow> string option) option" where
  "opt_setenv os name p v env = (case v of None \<Rightarrow> Some env | Some s \<Rightarrow> setenv0 os name (p @ s) env)"

text \<open>From \<^verbatim>\<open>exec_args = args\<close> to the end: the trace, the environment of ccache, and the call.\<close>

definition run_compiler :: "config \<Rightarrow> system \<Rightarrow> string \<Rightarrow> slot list \<Rightarrow> event list \<Rightarrow> (event list \<times> outcome) option" where
  "run_compiler cf os path args evs = do {
     let slots = (if cf_ccache cf \<and> os_env os ''BR_NO_CCACHE'' \<noteq> None then tl args else args);
     exec_args \<leftarrow> read_args slots;
     prog \<leftarrow> (case exec_args of [] \<Rightarrow> None | a # _ \<Rightarrow> Some a);
     let evs = evs @ trace cf (os_env os ''BR2_DEBUG_WRAPPER'') exec_args;
     case opt_setenv os ''CCACHE_COMPILERCHECK'' ''string:'' (cf_hash cf) (os_env os) of
       None \<Rightarrow> Some (evs @ [Perror (cf_file cf @ '': Failed to set CCACHE_COMPILERCHECK'')], Exited 3)
     | Some env \<Rightarrow>
       (case opt_setenv os ''CCACHE_BASEDIR'' [] (cf_basedir cf) env of
          None \<Rightarrow> Some (evs @ [Perror (cf_file cf @ '': Failed to set CCACHE_BASEDIR'')], Exited 3)
        | Some env \<Rightarrow> if os_exec os prog exec_args then Some (evs, Executed prog exec_args env)
                      else Some (evs @ [Perror path], Exited 2)) }"

text \<open>The middle: the block is allocated for the predefined arguments, EXCLUSIVE_ARGS and the
  \<^verbatim>\<open>argc\<close> pointers of the command line, eight bytes each.\<close>

definition main_args :: "config \<Rightarrow> system \<Rightarrow> string list \<Rightarrow> string \<Rightarrow> string \<Rightarrow> string \<Rightarrow> string \<Rightarrow> (event list \<times> outcome) option" where
  "main_args cf os argv prog ccache_path path sysroot =
     (let predef = predef_args cf ccache_path path sysroot;
          n = length predef + (length argv + EXCLUSIVE_ARGS) in
      if \<not> os_malloc os (8 * n) then Some ([Perror (cf_file cf @ '': malloc'')], Exited 2)
      else do {
        b \<leftarrow> put_all predef (alloc_args n);
        b \<leftarrow> put_all (float_args cf argv) b;
        b \<leftarrow> put_all (arch_args cf argv) b;
        let paranoid = (case os_env os ''BR_COMPILER_PARANOID_UNSAFE_PATH'' of Some v \<Rightarrow> v \<noteq> [] | None \<Rightarrow> False);
        (evs, stop) \<leftarrow> check_args prog paranoid argv 1 [];
        if stop then Some (evs, Exited 1)
        else do {
          b \<leftarrow> put_all (tl argv) b;
          b \<leftarrow> put_arg Null b;
          run_compiler cf os path (ab_slots b) evs } })"

definition wrapper_main :: "config \<Rightarrow> system \<Rightarrow> string list \<Rightarrow> (event list \<times> outcome) option" where
  "wrapper_main cf os argv = (case argv of [] \<Rightarrow> None | progpath # _ \<Rightarrow>
     (case base_dir os progpath of
        Inl msg \<Rightarrow> Some ([Perror (cf_file cf @ msg)], Exited 2)
      | Inr (absdir, base) \<Rightarrow>
        (case fill_paths cf absdir base of
           None \<Rightarrow> Some ([Perror (cf_file cf @ '': overflow'')], Exited 3)
         | Some (ccache_path, path, sysroot) \<Rightarrow> main_args cf os argv base ccache_path path sysroot)))"

section \<open>The block is large enough\<close>

lemma put_all_spec:
  assumes "ab_cur b + length ss \<le> length (ab_slots b)"
  shows "put_all ss b = Some (b\<lparr>ab_slots := take (ab_cur b) (ab_slots b) @ map Ptr ss @
      drop (ab_cur b + length ss) (ab_slots b), ab_cur := ab_cur b + length ss\<rparr>)"
  using assms
proof (induction ss arbitrary: b)
  case (Cons s ss)
  then show ?case
    by (simp add: put_arg_def take_Suc_conv_app_nth drop_update_cancel)
qed simp

lemma read_args_Ptr [simp]: "read_args (map Ptr ss @ Null # xs) = Some ss"
  by (induction ss) simp_all

lemma float_args_length: "length (float_args cf argv) \<le> 1"
  by (auto simp: float_args_def split: option.split)

lemma arch_args_length: "length (arch_args cf argv) \<le> 2"
  by (auto simp: arch_args_def opt_arg_def split: option.split)

lemma predef_args_first: "predef_args cf c p s \<noteq> []" "cf_ccache cf \<Longrightarrow> tl (predef_args cf c p s) \<noteq> []"
  by (auto simp: predef_args_def flag_arg_def)

text \<open>All the writes to the block, in their order.\<close>

lemma put_everything:
  assumes "argv \<noteq> []" "n = length predef + (length argv + EXCLUSIVE_ARGS)"
  shows "\<exists>b1 b2 b3 b4 b5 xs. put_all predef (alloc_args n) = Some b1 \<and> put_all (float_args cf argv) b1 = Some b2 \<and>
    put_all (arch_args cf argv) b2 = Some b3 \<and> put_all (tl argv) b3 = Some b4 \<and> put_arg Null b4 = Some b5 \<and>
    ab_slots b5 = map Ptr (predef @ float_args cf argv @ arch_args cf argv @ tl argv) @ Null # xs"
proof -
  let ?l = "length predef + length (float_args cf argv) + length (arch_args cf argv) + length (tl argv)"
  have l: "?l < n"
    using assms float_args_length [of cf argv] arch_args_length [of cf argv]
    by (cases argv) (simp_all add: EXCLUSIVE_ARGS_def)
  have c: "drop ?l (ab_slots (alloc_args n)) = Unset # replicate (n - ?l - 1) Unset"
    using l by (simp add: alloc_args_def Suc_diff_Suc [symmetric] flip: replicate_Suc)
  show ?thesis
    using l c by (simp add: put_all_spec put_arg_def alloc_args_def list_update_append add.assoc)
qed

section \<open>The check of the paths\<close>

lemma check_opts_none:
  "i < length argv \<Longrightarrow> \<forall>p \<in> set opts. \<not> starts_with p (argv ! i) \<Longrightarrow>
    check_opts prog paranoid argv (opts @ opts') i evs = check_opts prog paranoid argv opts' i evs"
  by (induction opts) (simp_all add: check_opts_Cons del: check_opts.simps(2))

lemma check_opts_none':
  "i < length argv \<Longrightarrow> \<forall>p \<in> set opts. \<not> starts_with p (argv ! i) \<Longrightarrow>
    check_opts prog paranoid argv opts i evs = Some (evs, i, False)"
  using check_opts_none [of i argv opts prog paranoid "[]"] by simp

lemma unsafe_opts_unique:
  "p \<in> set unsafe_opts \<Longrightarrow> q \<in> set unsafe_opts \<Longrightarrow> starts_with p a \<Longrightarrow> starts_with q a \<Longrightarrow> p = q"
  using starts_with_unique [of p a q] starts_with_unique [of q a p]
  by (auto simp: unsafe_opts_def starts_with_def)

declare check_opts.simps(2) [simp del]

lemma check_opts_total: "i < length argv \<Longrightarrow> check_opts prog paranoid argv opts i evs \<noteq> None"
proof (induction opts arbitrary: i evs paranoid)
  case (Cons p opts)
  have "Suc i \<noteq> length argv \<Longrightarrow> Suc i < length argv" using Cons.prems by simp
  with Cons show ?case by (simp add: check_opts_Cons Let_def del: not_None_eq)
qed simp

lemma check_args_total: "check_args prog paranoid argv i evs \<noteq> None"
proof (induction prog paranoid argv i evs rule: check_args.induct)
  case (1 prog paranoid argv i evs)
  show ?case
  proof (cases "i < length argv")
    case True
    then obtain e j stop where "check_opts prog paranoid argv unsafe_opts i evs = Some (e, j, stop)"
      using check_opts_total by (metis not_None_eq surj_pair)
    with 1 True show ?thesis by (subst check_args.simps) auto
  qed (subst check_args.simps, simp)
qed

text \<open>What the command line means: an option with its path in the same or in the next argument.\<close>

definition path_in :: "string \<Rightarrow> string option" where
  "path_in a = map_option (\<lambda>p. drop (length p) a) (List.find (\<lambda>p. starts_with p a) unsafe_opts)"

fun unsafe_uses :: "string list \<Rightarrow> (string \<times> string \<times> bool) list" where
  "unsafe_uses [] = []"
| "unsafe_uses (a # as) = (case path_in a of
     None \<Rightarrow> unsafe_uses as
   | Some path \<Rightarrow>
       if path \<noteq> [] then (if unsafe path then [(a, path, True)] else []) @ unsafe_uses as
       else (case as of [] \<Rightarrow> [] | b # bs \<Rightarrow> (if unsafe b then [(a, b, False)] else []) @ unsafe_uses bs))"

definition report :: "string \<Rightarrow> bool \<Rightarrow> string \<times> string \<times> bool \<Rightarrow> event" where
  "report prog paranoid u = unsafe_message prog paranoid (fst u) (fst (snd u)) (snd (snd u))"

definition report_all :: "string \<Rightarrow> bool \<Rightarrow> event list \<Rightarrow> (string \<times> string \<times> bool) list \<Rightarrow> event list \<times> bool" where
  "report_all prog paranoid evs us =
     (evs @ map (report prog paranoid) (if paranoid then take 1 us else us), paranoid \<and> us \<noteq> [])"

lemma report_all_Cons:
  "report_all prog paranoid evs (u # us) =
     (if paranoid then (evs @ [report prog paranoid u], True) else report_all prog paranoid (evs @ [report prog paranoid u]) us)"
  "report_all prog paranoid evs [] = (evs, False)"
  by (simp_all add: report_all_def)

lemma check_opts_some:
  assumes i: "i < length argv" and p: "p \<in> set unsafe_opts" "starts_with p (argv ! i)"
  shows "length p < length (argv ! i) \<Longrightarrow> check_opts prog paranoid argv unsafe_opts i evs =
      (let path = drop (length p) (argv ! i); (e, stop) = report_all prog paranoid evs
         (if unsafe path then [(argv ! i, path, True)] else []) in Some (e, i, stop))"
    and "length (argv ! i) \<le> length p \<Longrightarrow> i + 1 = length argv \<Longrightarrow>
      check_opts prog paranoid argv unsafe_opts i evs = Some (evs, i + 1, False)"
    and "length (argv ! i) \<le> length p \<Longrightarrow> i + 1 < length argv \<Longrightarrow> \<not> starts_with ''-'' (argv ! (i + 1)) \<Longrightarrow>
      check_opts prog paranoid argv unsafe_opts i evs =
      (let (e, stop) = report_all prog paranoid evs
         (if unsafe (argv ! (i + 1)) then [(argv ! i, argv ! (i + 1), False)] else []) in Some (e, i + 1, stop))"
proof -
  obtain pre suf where sp: "unsafe_opts = pre @ p # suf" using p(1) by (meson split_list)
  have d: "distinct unsafe_opts" by (simp add: unsafe_opts_def)
  have un: "\<forall>q \<in> set pre. \<not> starts_with q (argv ! i)" "\<forall>q \<in> set suf. \<not> starts_with q (argv ! i)"
    using unsafe_opts_unique [OF p(1) _ p(2)] d unfolding sp by auto
  have e: "check_opts prog paranoid argv unsafe_opts i evs = check_opts prog paranoid argv (p # suf) i evs"
    unfolding sp by (rule check_opts_none [OF i un(1)])
  { assume "length p < length (argv ! i)"
    then show "check_opts prog paranoid argv unsafe_opts i evs =
      (let path = drop (length p) (argv ! i); (e, stop) = report_all prog paranoid evs
         (if unsafe path then [(argv ! i, path, True)] else []) in Some (e, i, stop))"
      unfolding e check_opts_Cons using i p(2) check_opts_none' [OF i un(2)]
      by (simp add: Let_def report_all_Cons report_def) }
  { assume "length (argv ! i) \<le> length p" "i + 1 = length argv"
    then show "check_opts prog paranoid argv unsafe_opts i evs = Some (evs, i + 1, False)"
      unfolding e check_opts_Cons using i p(2) by simp }
  { assume a: "length (argv ! i) \<le> length p" "i + 1 < length argv" "\<not> starts_with ''-'' (argv ! (i + 1))"
    have "\<forall>q \<in> set unsafe_opts. starts_with ''-'' q" by (simp add: unsafe_opts_def starts_with_def)
    then have "\<forall>q \<in> set suf. \<not> starts_with q (argv ! (i + 1))"
      using a(3) starts_with_trans [of "''-''"] unfolding sp by auto
    then show "check_opts prog paranoid argv unsafe_opts i evs =
      (let (e, stop) = report_all prog paranoid evs
         (if unsafe (argv ! (i + 1)) then [(argv ! i, argv ! (i + 1), False)] else []) in Some (e, i + 1, stop))"
      unfolding e check_opts_Cons using i p(2) a check_opts_none' [OF a(2)]
      by (simp add: Let_def report_all_Cons report_def) }
qed

lemma path_in_none: "path_in a = None \<longleftrightarrow> (\<forall>p \<in> set unsafe_opts. \<not> starts_with p a)"
  by (auto simp: path_in_def find_None_iff)

lemma path_in_some: "path_in a = Some path \<Longrightarrow> \<exists>p \<in> set unsafe_opts. starts_with p a \<and> path = drop (length p) a"
  by (auto simp: path_in_def find_Some_iff nth_mem)

lemma report_all_append: "report_all prog paranoid evs (us @ vs) =
   (let (e, stop) = report_all prog paranoid evs us in if stop then (e, True) else report_all prog paranoid e vs)"
  by (cases us) (auto simp: report_all_def)

lemma report_all_stop: "report_all prog paranoid evs us = (e, True) \<longleftrightarrow> paranoid \<and> us \<noteq> [] \<and> e = evs @ [report prog True (hd us)]"
  by (cases us) (auto simp: report_all_def)

lemma check_args_drop:
  assumes plain: "\<And>j. Suc j < length argv \<Longrightarrow> argv ! j \<in> set unsafe_opts \<Longrightarrow> \<not> starts_with ''-'' (argv ! Suc j)"
  shows "check_args prog paranoid argv i evs = Some (report_all prog paranoid evs (unsafe_uses (drop i argv)))"
proof (induction "length argv - i" arbitrary: i evs rule: less_induct)
  case less
  show ?case
  proof (cases "i < length argv")
    case False
    then show ?thesis by (subst check_args.simps) (simp add: report_all_Cons)
  next
    case i: True
    let ?a = "argv ! i"
    have d: "drop i argv = ?a # drop (Suc i) argv" using i by (simp add: Cons_nth_drop_Suc)
    have next_i: "check_args prog paranoid argv (j + 1) e =
        Some (report_all prog paranoid e (unsafe_uses (drop (j + 1) argv)))" if "i \<le> j" for j e
      using less [of "j + 1" e] that i by simp
    have step: ?thesis
      if o: "check_opts prog paranoid argv unsafe_opts i evs =
          (let (e, stop) = report_all prog paranoid evs us in Some (e, j, stop))" "i \<le> j"
        "unsafe_uses (drop i argv) = us @ unsafe_uses (drop (j + 1) argv)" for us j
    proof -
      obtain e stop where "report_all prog paranoid evs us = (e, stop)" by fastforce
      then show ?thesis
        using o i next_i [OF o(2), of e] by (subst check_args.simps) (simp add: report_all_append)
    qed
    show ?thesis
    proof (cases "path_in ?a")
      case None
      then have "check_opts prog paranoid argv unsafe_opts i evs = Some (evs, i, False)"
        using check_opts_none' [OF i] path_in_none by blast
      then show ?thesis by (intro step [of "[]" i]) (simp_all add: report_all_Cons d None)
    next
      case (Some path)
      then obtain p where p: "p \<in> set unsafe_opts" "starts_with p ?a" "path = drop (length p) ?a"
        using path_in_some by blast
      show ?thesis
      proof (cases "path = []")
        case False
        with p(3) have "length p < length ?a" by simp
        from check_opts_some(1) [OF i p(1,2) this] show ?thesis
          by (intro step [of "if unsafe path then [(?a, path, True)] else []" i])
            (use False in \<open>simp_all add: p(3) [symmetric] Some d Let_def\<close>)
      next
        case True
        with p(3) have l: "length ?a \<le> length p" by simp
        with p(2) have ap: "?a = p" by (simp add: starts_with_def)
        show ?thesis
        proof (cases "i + 1 = length argv")
          case True
          with check_opts_some(2) [OF i p(1,2) l True] show ?thesis
            by (intro step [of "[]" "i + 1"]) (simp_all add: report_all_Cons d Some \<open>path = []\<close>)
        next
          case False
          then have i1: "i + 1 < length argv" using i by simp
          then have d1: "drop (Suc i) argv = argv ! (i + 1) # drop (i + 2) argv" by (simp add: Cons_nth_drop_Suc)
          have "\<not> starts_with ''-'' (argv ! (i + 1))" using plain [of i] i1 p(1) ap by simp
          from check_opts_some(3) [OF i p(1,2) l i1 this] show ?thesis
            by (intro step [of "if unsafe (argv ! (i + 1)) then [(?a, argv ! (i + 1), False)] else []" "i + 1"])
              (simp_all add: d d1 Some \<open>path = []\<close>)
        qed
      qed
    qed
  qed
qed

text \<open>An option in an argument of its own is followed by a path, not by another option.\<close>

definition plain_paths :: "string list \<Rightarrow> bool" where
  "plain_paths argv \<longleftrightarrow> (\<forall>j < length argv - 1. argv ! j \<in> set unsafe_opts \<longrightarrow> \<not> starts_with ''-'' (argv ! Suc j))"

text \<open>C10   The nested loops over the command line find what it means: every path that is given to one of
  the options, in the same argument or in the next one, and that is below one of the native
  directories is reported, in order, and nothing else; in paranoid mode the first one ends the
  program. The loops go on with the remaining options on the argument after the one that matched,
  which is why paths that look like options are excluded.\<close>

theorem unsafe_paths_found:
  assumes "plain_paths argv"
  shows "check_args prog paranoid argv 1 [] = Some
     (map (report prog paranoid) (if paranoid then take 1 (unsafe_uses (tl argv)) else unsafe_uses (tl argv)),
      paranoid \<and> unsafe_uses (tl argv) \<noteq> [])"
  using check_args_drop [of argv prog paranoid 1 "[]"] assms
  by (auto simp: plain_paths_def report_all_def drop_Suc)

theorem unsafe_paths_found_witness:
  "check_args ''gcc'' True [''gcc'', ''-I'', ''/tmp'', ''-L/usr/lib/x'', ''-I/lib''] 1 [] = Some
     ([unsafe_message ''gcc'' True ''-L/usr/lib/x'' ''/usr/lib/x'' True], True)"
proof -
  have "plain_paths [''gcc'', ''-I'', ''/tmp'', ''-L/usr/lib/x'', ''-I/lib'']"
    by (simp add: plain_paths_def unsafe_opts_def starts_with_def less_Suc_eq)
  from unsafe_paths_found [OF this, of "''gcc''" True] show ?thesis
    by (simp add: unsafe_opts_def path_in_def starts_with_def unsafe_def unsafe_paths_def report_def)
qed

text \<open>Why the hypothesis is needed: with a directory called -L the unsafe path behind it is missed.\<close>

lemma unsafe_path_hidden:
  "unsafe_uses [''-I'', ''-L'', ''-I/usr/lib''] = [(''-I/usr/lib'', ''/usr/lib'', True)]"
  "check_args ''gcc'' True [''gcc'', ''-I'', ''-L'', ''-I/usr/lib''] 1 [] = Some ([], False)"
proof -
  have "check_opts ''gcc'' True [''gcc'', ''-I'', ''-L'', ''-I/usr/lib''] unsafe_opts 1 [] = Some ([], 3, False)"
    by (simp add: unsafe_opts_def check_opts_Cons starts_with_def unsafe_def unsafe_paths_def)
  then show "check_args ''gcc'' True [''gcc'', ''-I'', ''-L'', ''-I/usr/lib''] 1 [] = Some ([], False)"
    by (subst check_args.simps) (simp, subst check_args.simps, simp)
qed (simp add: unsafe_opts_def path_in_def starts_with_def unsafe_def unsafe_paths_def)

section \<open>What is executed\<close>

text \<open>The arguments that the documentation promises: the compiler, the options of the
  configuration, those the command line does not override, and the command line.\<close>

definition wrapped_args :: "config \<Rightarrow> system \<Rightarrow> string list \<Rightarrow> string \<Rightarrow> string \<Rightarrow> string \<Rightarrow> string list" where
  "wrapped_args cf os argv ccache_path path sysroot =
     (if cf_ccache cf \<and> os_env os ''BR_NO_CCACHE'' = None then [ccache_path] else []) @
     predef_args (cf\<lparr>cf_ccache := False\<rparr>) ccache_path path sysroot @
     float_args cf argv @ arch_args cf argv @ tl argv"

definition paranoid_mode :: "system \<Rightarrow> bool" where
  "paranoid_mode os \<longleftrightarrow> (\<exists>v. os_env os ''BR_COMPILER_PARANOID_UNSAFE_PATH'' = Some v \<and> v \<noteq> [])"

definition finish :: "config \<Rightarrow> system \<Rightarrow> string \<Rightarrow> string list \<Rightarrow> event list \<Rightarrow> event list \<times> outcome" where
  "finish cf os path args evs =
     (let evs = evs @ trace cf (os_env os ''BR2_DEBUG_WRAPPER'') args in
      case opt_setenv os ''CCACHE_COMPILERCHECK'' ''string:'' (cf_hash cf) (os_env os) of
        None \<Rightarrow> (evs @ [Perror (cf_file cf @ '': Failed to set CCACHE_COMPILERCHECK'')], Exited 3)
      | Some env \<Rightarrow>
        (case opt_setenv os ''CCACHE_BASEDIR'' [] (cf_basedir cf) env of
           None \<Rightarrow> (evs @ [Perror (cf_file cf @ '': Failed to set CCACHE_BASEDIR'')], Exited 3)
         | Some env \<Rightarrow> if os_exec os (hd args) args then (evs, Executed (hd args) args env)
                       else (evs @ [Perror path], Exited 2)))"

lemma run_compiler_eq:
  "run_compiler cf os path (map Ptr (predef_args cf c path sr @ float_args cf argv @ arch_args cf argv @ tl argv) @ Null # xs) evs =
   Some (finish cf os path (wrapped_args cf os argv c path sr) evs)"
proof -
  let ?all = "predef_args cf c path sr @ float_args cf argv @ arch_args cf argv @ tl argv"
  let ?skip = "cf_ccache cf \<and> os_env os ''BR_NO_CCACHE'' \<noteq> None"
  obtain p ps where p: "predef_args cf c path sr = p # ps" "cf_ccache cf \<Longrightarrow> ps \<noteq> []"
    using predef_args_first [of cf c path sr] by (metis list.exhaust list.sel(3))
  have w: "wrapped_args cf os argv c path sr = (if ?skip then tl ?all else ?all)"
    by (auto simp: wrapped_args_def predef_args_def flag_arg_def opt_arg_def split: option.split)
  have "(if ?skip then tl (map Ptr ?all @ Null # xs) else map Ptr ?all @ Null # xs) =
      map Ptr (wrapped_args cf os argv c path sr) @ Null # xs"
    unfolding w by (simp add: p(1))
  moreover have "wrapped_args cf os argv c path sr \<noteq> []" unfolding w using p by auto
  ultimately show ?thesis
    unfolding run_compiler_def finish_def Let_def
    by (cases "wrapped_args cf os argv c path sr") (simp_all split: option.split)
qed

lemma main_args_eq:
  assumes "argv \<noteq> []" "os_malloc os (8 * (length (predef_args cf c path sr) + (length argv + EXCLUSIVE_ARGS)))"
  shows "main_args cf os argv prog c path sr = (case check_args prog (paranoid_mode os) argv 1 [] of
     None \<Rightarrow> None
   | Some (evs, stop) \<Rightarrow> Some (if stop then (evs, Exited 1) else finish cf os path (wrapped_args cf os argv c path sr) evs))"
proof -
  obtain b1 b2 b3 b4 b5 xs where b: "put_all (predef_args cf c path sr) (alloc_args
      (length (predef_args cf c path sr) + (length argv + EXCLUSIVE_ARGS))) = Some b1"
    "put_all (float_args cf argv) b1 = Some b2" "put_all (arch_args cf argv) b2 = Some b3"
    "put_all (tl argv) b3 = Some b4" "put_arg Null b4 = Some b5"
    "ab_slots b5 = map Ptr (predef_args cf c path sr @ float_args cf argv @ arch_args cf argv @ tl argv) @ Null # xs"
    using put_everything [OF assms(1) refl, of "predef_args cf c path sr" cf] by blast
  have p: "(case os_env os ''BR_COMPILER_PARANOID_UNSAFE_PATH'' of Some v \<Rightarrow> v \<noteq> [] | None \<Rightarrow> False) = paranoid_mode os"
    by (simp add: paranoid_mode_def split: option.split)
  have r: "run_compiler cf os path (ab_slots b5) evs = Some (finish cf os path (wrapped_args cf os argv c path sr) evs)" for evs
    unfolding b(6) by (rule run_compiler_eq)
  show ?thesis
    unfolding main_args_def p Let_def using assms(2) b(1-5) r by (auto split: option.split)
qed

lemma main_cases:
  assumes "argv \<noteq> []"
  shows "\<exists>r. wrapper_main cf os argv = Some r \<and> ((\<exists>n. snd r = Exited n) \<or>
    (\<exists>absdir base c path sr evs. base_dir os (hd argv) = Inr (absdir, base) \<and> fill_paths cf absdir base = Some (c, path, sr) \<and>
       check_args base (paranoid_mode os) argv 1 [] = Some (evs, False) \<and>
       r = finish cf os path (wrapped_args cf os argv c path sr) evs))"
proof (cases "base_dir os (hd argv)")
  case (Inl m)
  then show ?thesis using assms by (cases argv) (auto simp: wrapper_main_def)
next
  case (Inr ab)
  obtain absdir base where ab: "ab = (absdir, base)" by fastforce
  note b = Inr [unfolded ab]
  show ?thesis
  proof (cases "fill_paths cf absdir base")
    case None
    then show ?thesis using assms b by (cases argv) (auto simp: wrapper_main_def)
  next
    case (Some cps)
    obtain c path sr where cps: "cps = (c, path, sr)" by (cases cps) auto
    have m: "wrapper_main cf os argv = main_args cf os argv base c path sr"
      using assms b Some cps by (cases argv) (auto simp: wrapper_main_def)
    obtain evs stop where ck: "check_args base (paranoid_mode os) argv 1 [] = Some (evs, stop)"
      using check_args_total by fastforce
    show ?thesis
    proof (cases "os_malloc os (8 * (length (predef_args cf c path sr) + (length argv + EXCLUSIVE_ARGS)))")
      case True
      from main_args_eq [OF assms this] ck show ?thesis
        unfolding m using b Some cps by (cases stop) auto
    next
      case False
      then show ?thesis unfolding m main_args_def Let_def by auto
    qed
  qed
qed

lemma fill_paths_some:
  assumes "fill_paths cf absdir base = Some (c, path, sr)"
  shows "path = cross_path cf absdir base \<and> sr = absdir @ ''/'' @ cf_sysroot cf \<and>
    (cf_ccache cf \<longrightarrow> c = absdir @ ''/usr/bin/ccache'')"
  using assms by (auto simp: fill_paths_def snprintf_path_def bind_eq_Some_conv split: if_splits)

lemma finish_executed:
  "snd (finish cf os path args evs) = Executed prog as env \<Longrightarrow> as = args \<and> prog = hd args"
  by (auto simp: finish_def Let_def split: option.splits if_splits)


lemma check_opts_lenient: "check_opts prog False argv opts i evs = Some (e, j, stop) \<Longrightarrow> \<not> stop"
proof (induction opts arbitrary: i evs)
  case (Cons opt opts)
  then show ?case unfolding check_opts_Cons Let_def by (simp split: if_splits)
qed simp

lemma check_args_lenient: "\<exists>e. check_args prog False argv i evs = Some (e, False)"
proof (induction "length argv - i" arbitrary: i evs rule: less_induct)
  case less
  show ?case
  proof (cases "i < length argv")
    case True
    then obtain e j stop where o: "check_opts prog False argv unsafe_opts i evs = Some (e, j, stop)"
      using check_opts_total by (metis not_None_eq surj_pair)
    then have "\<not> stop" "i \<le> j" using check_opts_lenient check_opts_forward by blast+
    with less [of "j + 1" e] True o show ?thesis by (subst check_args.simps) simp
  qed (subst check_args.simps, simp)
qed

text \<open>A configuration for the witnesses: a soft-float ARM toolchain with ccache.\<close>

definition sample_config :: config where
  "sample_config = \<lparr>cf_ccache = True, cf_abi = Some ''aapcs-linux'', cf_fpu = None, cf_softfloat = False,
     cf_mode = None, cf_64 = False, cf_omit_lock = False, cf_flat = False, cf_mips_le = False, cf_mips_be = False,
     cf_arc_be = False, cf_cflags = [], cf_path_rel = None, cf_path_abs = None, cf_suffix = ''.br_real'',
     cf_sysroot = ''usr/arm/sysroot'', cf_float_abi = Some ''soft'', cf_arch = None, cf_cpu = Some ''arm926ej-s'',
     cf_hash = Some ''abc'', cf_basedir = None, cf_file = ''toolchain-wrapper.c''\<rparr>"

definition sample_system :: system where
  "sample_system = \<lparr>os_env = [''BR_COMPILER_PARANOID_UNSAFE_PATH'' \<mapsto> ''y''], os_realpath = (\<lambda>_. Some ''/b/host''),
     os_self = None, os_malloc = (\<lambda>_. True), os_setenv = (\<lambda>_. True), os_exec = (\<lambda>_ _. True)\<rparr>"

lemma sample_base_dir: "base_dir sample_system ''/b/host/usr/bin/gcc'' = Inr (''/b/host'', ''gcc'')"
  by (simp add: base_dir_def split_slash_def sample_system_def)




section \<open>The directory of the toolchain\<close>

lemma cut_slashes_skip:
  "\<forall>j. i < j \<and> j \<le> k \<longrightarrow> buf ! j \<noteq> CHR ''/'' \<Longrightarrow> i \<le> k \<Longrightarrow> cut_slashes k c buf = cut_slashes i c buf"
proof (induction k)
  case (Suc k)
  show ?case
  proof (cases "i = Suc k")
    case False
    with Suc.prems have "buf ! Suc k \<noteq> CHR ''/''" "i \<le> k" by auto
    with Suc show ?thesis by simp
  qed simp
qed simp

text \<open>One component at the end, with a NUL behind it.\<close>

lemma cut_slashes_component:
  assumes "CHR ''/'' \<notin> set x" "d \<noteq> []"
  shows "cut_slashes (length d + Suc (length x)) c (d @ CHR ''/'' # x @ CHR 0x00 # r) =
    (if Suc c = 3 then d @ CHR 0x00 # x @ CHR 0x00 # r
     else cut_slashes (length d) (Suc c) (d @ CHR 0x00 # x @ CHR 0x00 # r))"
proof -
  let ?buf = "d @ CHR ''/'' # x @ CHR 0x00 # r"
  have 1: "cut_slashes (length d + Suc (length x)) c ?buf = cut_slashes (length d) c ?buf"
  proof (rule cut_slashes_skip)
    show "\<forall>j. length d < j \<and> j \<le> length d + Suc (length x) \<longrightarrow> ?buf ! j \<noteq> CHR ''/''"
    proof (intro allI impI)
      fix j assume j: "length d < j \<and> j \<le> length d + Suc (length x)"
      then have "?buf ! j = (x @ [CHR 0x00]) ! (j - length d - 1)"
        by (auto simp: nth_append nth_Cons')
      moreover have "(x @ [CHR 0x00]) ! (j - length d - 1) \<in> set (x @ [CHR 0x00])"
        using j by (intro nth_mem) auto
      ultimately show "?buf ! j \<noteq> CHR ''/''" using assms(1) by auto
    qed
  qed simp
  obtain n where n: "length d = Suc n" using assms(2) by (cases d) auto
  have "?buf ! Suc n = CHR ''/''" "?buf[Suc n := CHR 0x00] = d @ CHR 0x00 # x @ CHR 0x00 # r"
    unfolding n [symmetric] by (rule nth_append_length, rule list_update_length)
  then have 2: "cut_slashes (Suc n) c ?buf = (if Suc c = 3 then d @ CHR 0x00 # x @ CHR 0x00 # r
     else cut_slashes n (Suc c) (d @ CHR 0x00 # x @ CHR 0x00 # r))"
    by (subst cut_slashes.simps(2)) (simp only: Let_def if_True refl)
  have 3: "cut_slashes n (Suc c) (d @ CHR 0x00 # x @ CHR 0x00 # r) =
      cut_slashes (length d) (Suc c) (d @ CHR 0x00 # x @ CHR 0x00 # r)"
  proof (rule cut_slashes_skip [symmetric])
    have "(d @ CHR 0x00 # x @ CHR 0x00 # r) ! Suc n = CHR 0x00" unfolding n [symmetric] by (rule nth_append_length)
    then have "(d @ CHR 0x00 # x @ CHR 0x00 # r) ! Suc n \<noteq> CHR ''/''" by simp
    moreover have "j = Suc n" if "n < j \<and> j \<le> length d" for j using that n by simp
    ultimately show "\<forall>j. n < j \<and> j \<le> length d \<longrightarrow> (d @ CHR 0x00 # x @ CHR 0x00 # r) ! j \<noteq> CHR ''/''"
      by blast
  qed (simp add: n)
  show ?thesis unfolding 1 by (rule trans [OF 2 [folded n]]) (use 3 in presburger)
qed

text \<open>A wrapper that is called without a path takes the directory from the link of the running
  program: for \<open>d/x/y/z\<close> that is \<open>d\<close>, three levels up as with \<open>../..\<close> from the directory of
  the program. The loop stops before the first character, so that for a program two levels below
  the root directory the result is its first component and not the root.\<close>

theorem self_base_dir:
  assumes "CHR ''/'' \<notin> set progpath" "os_malloc os (PATH_MAX + 1)"
    "os_self os = Some (d @ ''/'' @ x @ ''/'' @ y @ ''/'' @ z)"
    "length (d @ ''/'' @ x @ ''/'' @ y @ ''/'' @ z) \<le> PATH_MAX"
    "CHR ''/'' \<notin> set (x @ y @ z)" "CHR 0x00 \<notin> set (d @ x @ y @ z)"
  shows "base_dir os progpath = Inr (if d = [] then CHR ''/'' # x else d, progpath)"
proof -
  let ?l = "d @ ''/'' @ x @ ''/'' @ y @ ''/'' @ z"
  have s: "CHR ''/'' \<notin> set x" "CHR ''/'' \<notin> set y" "CHR ''/'' \<notin> set z" using assms(5) by auto
  define d2 where "d2 = d @ CHR ''/'' # x"
  define d3 where "d3 = d2 @ CHR ''/'' # y"
  have l: "?l = d3 @ CHR ''/'' # z" by (simp add: d2_def d3_def)
  have 1: "cut_slashes (length ?l) 0 (?l @ [CHR 0x00]) =
      cut_slashes (length d2) 2 (d2 @ CHR 0x00 # y @ CHR 0x00 # z @ [CHR 0x00])"
  proof -
    have n: "d2 \<noteq> []" "d3 \<noteq> []" by (simp_all add: d2_def d3_def)
    have "cut_slashes (length ?l) 0 (?l @ [CHR 0x00]) =
        cut_slashes (length d3) 1 (d3 @ CHR 0x00 # z @ [CHR 0x00])"
      using cut_slashes_component [OF s(3) n(2), of 0 "[]"] unfolding l by simp
    also have "\<dots> = cut_slashes (length d2) 2 (d2 @ CHR 0x00 # y @ CHR 0x00 # z @ [CHR 0x00])"
      using cut_slashes_component [OF s(2) n(1), of 1 "z @ [CHR 0x00]"]
      by (simp add: d3_def numeral_2_eq_2)
    finally show ?thesis .
  qed
  have 2: "c_string (cut_slashes (length d2) 2 (d2 @ CHR 0x00 # y @ CHR 0x00 # z @ [CHR 0x00])) =
      (if d = [] then CHR ''/'' # x else d)"
  proof (cases "d = []")
    case True
    let ?buf = "CHR ''/'' # x @ CHR 0x00 # y @ CHR 0x00 # z @ [CHR 0x00]"
    have "?buf ! j \<noteq> CHR ''/''" if "0 < j \<and> j \<le> Suc (length x)" for j
    proof -
      have "?buf ! j = (x @ [CHR 0x00]) ! (j - 1)" using that by (auto simp: nth_append nth_Cons')
      moreover have "(x @ [CHR 0x00]) ! (j - 1) \<in> set (x @ [CHR 0x00])" using that by (intro nth_mem) auto
      ultimately show ?thesis using s(1) by auto
    qed
    then have "cut_slashes (Suc (length x)) 2 ?buf = ?buf" by (subst cut_slashes_skip [of 0]) auto
    with True show ?thesis using assms(6) by (simp add: d2_def c_string_def takeWhile_append)
  next
    case False
    show ?thesis
      using cut_slashes_component [OF s(1) False, of 2 "y @ CHR 0x00 # z @ [CHR 0x00]"] assms(6) False
      by (auto simp: d2_def c_string_def takeWhile_append)
  qed
  have "split_slash progpath = None" using assms(1) by (simp add: split_slash_def)
  then show ?thesis
    using assms(2,3,4) 1 2 by (simp add: base_dir_def Let_def)
qed

theorem self_base_dir_witness:
  "base_dir (sample_system\<lparr>os_self := Some ''/usr/bin/gcc''\<rparr>) ''gcc'' = Inr (''/usr'', ''gcc'') \<and>
   base_dir (sample_system\<lparr>os_self := Some ''/b/host/usr/bin/gcc''\<rparr>) ''gcc'' = Inr (''/b/host'', ''gcc'')"
  using self_base_dir [of "''gcc''" "sample_system\<lparr>os_self := Some ''/usr/bin/gcc''\<rparr>" "[]" "''usr''" "''bin''" "''gcc''"]
    self_base_dir [of "''gcc''" "sample_system\<lparr>os_self := Some ''/b/host/usr/bin/gcc''\<rparr>" "''/b/host''" "''usr''" "''bin''" "''gcc''"]
  by (simp add: sample_system_def PATH_MAX_def)

end
