(* ===== verification/Spec2Isabelle.thy ===== *)
theory Spec2Isabelle
  imports ExprProps Setprops Symprops Symstrings Symdeps Conf Toolwrap
begin

text \<open>
  A verification development for the C programs that Buildroot builds with: kconfig.
\<close>

end
